(* ===== verification/Prelude.thy ===== *)
theory Prelude
  imports Main "HOL-Library.Word"
begin

text \<open>
  Shared material of the development: the machine types of the C sources, the errno values the
  LibOS functions return (negated, as the kernel convention has it), the outcome of calls to
  \<^verbatim>\<open>malloc\<close>, the circular-list macros of \<^verbatim>\<open>gramine/common/include/list.h\<close>, and lemmas on
  words that turn the guarded \<open>x - 1\<close> and \<open>x + 1\<close> of the sources into strict order.
\<close>

unbundle bit_operations_syntax

section \<open>Machine types and error codes\<close>

type_synonym u8 = "8 word"
type_synonym u32 = "32 word"
type_synonym u64 = "64 word"

abbreviation EINTR :: int where "EINTR \<equiv> 4"
abbreviation EBADF :: int where "EBADF \<equiv> 9"
abbreviation EAGAIN :: int where "EAGAIN \<equiv> 11"
abbreviation ENOMEM :: int where "ENOMEM \<equiv> 12"
abbreviation EACCES :: int where "EACCES \<equiv> 13"
abbreviation EFAULT :: int where "EFAULT \<equiv> 14"
abbreviation EEXIST :: int where "EEXIST \<equiv> 17"
abbreviation ENOENT :: int where "ENOENT \<equiv> 2"
abbreviation EINVAL :: int where "EINVAL \<equiv> 22"
abbreviation EOVERFLOW :: int where "EOVERFLOW \<equiv> 75"

section \<open>Allocation outcomes\<close>

text \<open>
  Whether a call to \<^verbatim>\<open>malloc\<close> succeeds is decided outside the modelled code. The list holds the
  outcomes of the calls to come, in their order; when it is used up every further call succeeds.
  A theorem that holds for every list holds for every pattern of allocation failures.
\<close>

type_synonym allocs = "bool list"

fun malloc_outcome :: "allocs \<Rightarrow> bool \<times> allocs" where
  "malloc_outcome [] = (True, [])"
| "malloc_outcome (b # bs) = (b, bs)"

section \<open>List macros\<close>

text \<open>
  \<^verbatim>\<open>LISTP_ADD_AFTER(NEW, NODE, HEAD)\<close>: after the node when there is one (here its position),
  at the front of the list otherwise.
\<close>

definition listp_add_after :: "'a \<Rightarrow> nat option \<Rightarrow> 'a list \<Rightarrow> 'a list" where
  "listp_add_after new node xs =
     (case node of None \<Rightarrow> new # xs | Some i \<Rightarrow> take (Suc i) xs @ new # drop (Suc i) xs)"

text \<open>The position of the last element of a list, as a node pointer.\<close>

definition last_pos :: "'a list \<Rightarrow> nat option" where
  "last_pos xs = (if xs = [] then None else Some (length xs - 1))"

lemma last_pos_simps [simp]:
  "last_pos [] = None"
  "last_pos (xs @ [x]) = Some (length xs)"
  by (simp_all add: last_pos_def)

lemma listp_add_after_last [simp]:
  "listp_add_after new (last_pos xs) (xs @ ys) = xs @ new # ys"
  by (simp add: listp_add_after_def last_pos_def)

lemma set_listp_add_after [simp]: "set (listp_add_after new p xs) = insert new (set xs)"
proof (cases p)
  case None
  then show ?thesis by (simp add: listp_add_after_def)
next
  case (Some i)
  have "set xs = set (take (Suc i) xs) \<union> set (drop (Suc i) xs)"
    by (metis append_take_drop_id set_append)
  with Some show ?thesis by (auto simp: listp_add_after_def)
qed

lemma sorted_wrt_total:
  "sorted_wrt P xs \<Longrightarrow> x \<in> set xs \<Longrightarrow> y \<in> set xs \<Longrightarrow> x \<noteq> y \<Longrightarrow> P x y \<or> P y x"
  by (induction xs) auto

section \<open>Words\<close>

named_theorems word_step "guarded successor and predecessor on words as strict order"

lemma le_minus_one_iff [word_step]: "0 < (x::'a::len word) \<Longrightarrow> y \<le> x - 1 \<longleftrightarrow> y < x"
  by unat_arith

lemma plus_one_le_iff [word_step]: "(x::'a::len word) < y \<Longrightarrow> x + 1 \<le> z \<longleftrightarrow> x < z"
  by unat_arith

lemma less_plus_one_iff [word_step]: "(x::'a::len word) < y \<Longrightarrow> z < x + 1 \<longleftrightarrow> z \<le> x"
  by unat_arith

lemma plus_one_less_iff [word_step]:
  "(x::'a::len word) < - 1 \<Longrightarrow> x + 1 < z \<longleftrightarrow> x < z - 1 \<and> 0 < z"
  by unat_arith

lemma word_less_top: "(x::'a::len word) < y \<Longrightarrow> x < - 1"
  by (rule less_le_trans [OF _ word_n1_ge])

lemma minus_one_less_self: "0 < (x::'a::len word) \<Longrightarrow> x - 1 < x"
  by unat_arith

lemma less_minus_one_less: "(x::'a::len word) < y - 1 \<Longrightarrow> 0 < y \<Longrightarrow> x < y"
  by unat_arith

lemma trunc32: "(ucast (ucast (x::u64) :: u32) :: u64) = x mod 2 ^ 32"
  by (rule word_uint_eqI) (simp add: unsigned_ucast_eq uint_mod take_bit_eq_mod)

lemma trunc32_id: "(x::u64) mod 2 ^ 32 = x \<longleftrightarrow> x < 2 ^ 32"
  by (simp add: word_uint_eq_iff uint_mod word_less_def)
    (metis mod_pos_pos_trivial pos_mod_bound uint_ge_0 zero_less_numeral)

end
