(* ===== verification/Posix_Lock.thy ===== *)
theory Posix_Lock
  imports Prelude
begin

text \<open>
  The list of POSIX locks of one file: \<^verbatim>\<open>struct posix_lock\<close>, the search for a conflicting lock
  and \<^verbatim>\<open>_posix_lock_set\<close>, the routine that replaces, splits and merges the ranges of one process
  (\<^verbatim>\<open>gramine/libos/src/fs/libos_fs_lock.c\<close>). The list is an Isabelle list in the order of the
  source's circular list; a node pointer is a position in it. What the list means is
  \<open>lock_at\<close>, the type of lock a process holds on a byte, and the routine is shown to be an
  update of that map on the requested range.
\<close>

section \<open>Data\<close>

datatype lock_type = F_RDLCK | F_WRLCK | F_UNLCK

record posix_lock =
  pl_type :: lock_type
  pl_start :: u64
  pl_end :: u64
  pl_pid :: u32

definition FS_LOCK_EOF :: u64 where
  "FS_LOCK_EOF = - 1"

section \<open>Operations\<close>

definition locks_conflict :: "posix_lock \<Rightarrow> posix_lock \<Rightarrow> bool" where
  "locks_conflict cur pl \<longleftrightarrow>
     pl_pid cur \<noteq> pl_pid pl \<and> pl_start pl \<le> pl_end cur \<and> pl_start cur \<le> pl_end pl \<and>
     (pl_type cur = F_WRLCK \<or> pl_type pl = F_WRLCK)"

fun posix_lock_find_conflict :: "posix_lock list \<Rightarrow> posix_lock \<Rightarrow> posix_lock option" where
  "posix_lock_find_conflict [] pl = None"
| "posix_lock_find_conflict (cur # rest) pl =
     (if locks_conflict cur pl then Some cur else posix_lock_find_conflict rest pl)"

text \<open>
  The loop of \<^verbatim>\<open>_posix_lock_set\<close>. \<open>done\<close> holds the locks already passed and kept,
  \<open>prev\<close> the position of the last lock before the target range (\<open>None\<close> for the null
  pointer), \<open>s\<close> and \<open>e\<close> the target range, which grows when locks are merged. The result is
  the range, the list and \<open>prev\<close> at the end of the loop.
\<close>

fun posix_lock_set_loop ::
  "posix_lock \<Rightarrow> u64 \<Rightarrow> u64 \<Rightarrow> posix_lock list \<Rightarrow> nat option \<Rightarrow> posix_lock list \<Rightarrow>
     u64 \<times> u64 \<times> posix_lock list \<times> nat option" where
  "posix_lock_set_loop pl s e done prev [] = (s, e, done, prev)"
| "posix_lock_set_loop pl s e done prev (cur # rest) =
     (if pl_pid cur < pl_pid pl then
        posix_lock_set_loop pl s e (done @ [cur]) (Some (length done)) rest
      else if pl_pid pl < pl_pid cur then (s, e, done @ cur # rest, prev)
      else if pl_type cur = pl_type pl then
        (if 0 < s \<and> pl_end cur < s - 1 then
           posix_lock_set_loop pl s e (done @ [cur]) (Some (length done)) rest
         else if e < FS_LOCK_EOF \<and> e + 1 < pl_start cur then
           (s, e, done @ cur # rest, prev)
         else
           posix_lock_set_loop pl (min s (pl_start cur)) (max e (pl_end cur)) done prev rest)
      else
        (if pl_end cur < s then
           posix_lock_set_loop pl s e (done @ [cur]) (Some (length done)) rest
         else if e < pl_start cur then (s, e, done @ cur # rest, prev)
         else if pl_start cur < s \<and> pl_end cur \<le> e then
           posix_lock_set_loop pl s e (done @ [cur\<lparr>pl_end := s - 1\<rparr>]) (Some (length done)) rest
         else if pl_start cur < s \<and> e < pl_end cur then
           (s, e,
            done @ cur\<lparr>pl_end := s - 1\<rparr> #
              \<lparr>pl_type = pl_type cur, pl_start = e + 1, pl_end = pl_end cur, pl_pid = pl_pid cur\<rparr> #
              rest,
            Some (length done))
         else if s \<le> pl_start cur \<and> pl_end cur \<le> e then
           posix_lock_set_loop pl s e done prev rest
         else (s, e, done @ cur\<lparr>pl_start := e + 1\<rparr> # rest, prev)))"

text \<open>
  \<^verbatim>\<open>_posix_lock_set\<close>: both nodes are allocated before anything is changed, so a failed allocation
  leaves the list as it was. The second component of the result is the new list.
\<close>

definition do_posix_lock_set ::
  "allocs \<Rightarrow> posix_lock list \<Rightarrow> posix_lock \<Rightarrow> int \<times> posix_lock list \<times> allocs" where
  "do_posix_lock_set h locks pl =
     (let (new_ok, h1) = (if pl_type pl \<noteq> F_UNLCK then malloc_outcome h else (True, h)) in
      if \<not> new_ok then (- ENOMEM, locks, h1)
      else
        let (extra_ok, h2) = malloc_outcome h1 in
        if \<not> extra_ok then (- ENOMEM, locks, h2)
        else
          let (s, e, locks', prev) =
                posix_lock_set_loop pl (pl_start pl) (pl_end pl) [] None locks
          in (0,
              (if pl_type pl \<noteq> F_UNLCK
               then listp_add_after
                      \<lparr>pl_type = pl_type pl, pl_start = s, pl_end = e, pl_pid = pl_pid pl\<rparr>
                      prev locks'
               else locks'),
              h2))"

section \<open>Meaning and invariant\<close>

definition covers :: "posix_lock \<Rightarrow> u32 \<Rightarrow> u64 \<Rightarrow> bool" where
  "covers l p b \<longleftrightarrow> pl_pid l = p \<and> pl_start l \<le> b \<and> b \<le> pl_end l"

definition lock_at :: "posix_lock list \<Rightarrow> u32 \<Rightarrow> u64 \<Rightarrow> lock_type option" where
  "lock_at locks p b = map_option pl_type (find (\<lambda>l. covers l p b) locks)"

text \<open>
  The order the source keeps: by process and then by position, ranges of one process disjoint and
  ranges of one process and one type not even adjacent (they would have been merged).
\<close>

definition lock_before :: "posix_lock \<Rightarrow> posix_lock \<Rightarrow> bool" where
  "lock_before a b \<longleftrightarrow>
     pl_pid a < pl_pid b \<or>
     pl_pid a = pl_pid b \<and> pl_end a < pl_start b \<and>
       (pl_type a = pl_type b \<longrightarrow> pl_end a < pl_start b - 1)"

definition lock_valid :: "posix_lock \<Rightarrow> bool" where
  "lock_valid l \<longleftrightarrow> pl_start l \<le> pl_end l \<and> pl_type l \<noteq> F_UNLCK"

definition locks_wf :: "posix_lock list \<Rightarrow> bool" where
  "locks_wf locks \<longleftrightarrow> sorted_wrt lock_before locks \<and> (\<forall>l \<in> set locks. lock_valid l)"

text \<open>
  The same reading as a relation, and the position of a lock relative to the target range of the
  loop: before it, or after it, and in neither case mergeable with it.
\<close>

definition holds :: "posix_lock list \<Rightarrow> u32 \<Rightarrow> u64 \<Rightarrow> lock_type \<Rightarrow> bool" where
  "holds locks p b t \<longleftrightarrow> (\<exists>l \<in> set locks. covers l p b \<and> pl_type l = t)"

definition before_target :: "posix_lock \<Rightarrow> u64 \<Rightarrow> posix_lock \<Rightarrow> bool" where
  "before_target pl s a \<longleftrightarrow>
     pl_pid a < pl_pid pl \<or>
     pl_pid a = pl_pid pl \<and> pl_end a < s \<and> (pl_type a = pl_type pl \<longrightarrow> pl_end a < s - 1)"

definition after_target :: "posix_lock \<Rightarrow> u64 \<Rightarrow> posix_lock \<Rightarrow> bool" where
  "after_target pl e b \<longleftrightarrow>
     pl_pid pl < pl_pid b \<or>
     pl_pid b = pl_pid pl \<and> e < pl_start b \<and> (pl_type b = pl_type pl \<longrightarrow> e < pl_start b - 1)"

definition in_range :: "u64 \<Rightarrow> u64 \<Rightarrow> u64 \<Rightarrow> bool" where
  "in_range s e b \<longleftrightarrow> s \<le> b \<and> b \<le> e"

text \<open>
  What the loop leaves behind for the locks it started from: the kept locks split into those before
  and those after the final range, the range widened only over bytes already held with the requested
  type, and no other byte changed.
\<close>

inductive loop_post ::
  "posix_lock \<Rightarrow> u64 \<Rightarrow> u64 \<Rightarrow> posix_lock list \<Rightarrow> u64 \<times> u64 \<times> posix_lock list \<times> nat option \<Rightarrow> bool"
  for pl s e locks where
  loop_postI:
    "locks_wf xs \<Longrightarrow> locks_wf ys \<Longrightarrow>
     \<forall>a \<in> set xs. before_target pl s' a \<Longrightarrow> \<forall>b \<in> set ys. after_target pl e' b \<Longrightarrow>
     s' \<le> s \<Longrightarrow> e \<le> e' \<Longrightarrow>
     (\<And>q b t. holds (xs @ ys) q b t \<longleftrightarrow>
        holds locks q b t \<and> \<not> (q = pl_pid pl \<and> in_range s' e' b)) \<Longrightarrow>
     (\<And>b. in_range s' e' b \<Longrightarrow> in_range s e b \<or> holds locks (pl_pid pl) b (pl_type pl)) \<Longrightarrow>
     loop_post pl s e locks (s', e', xs @ ys, last_pos xs)"

text \<open>
  Write locks are exclusive: a byte one process holds for writing is held by no other. The
  predicate is over the map from process and byte to lock type, not over the list.
\<close>

definition exclusive :: "(u32 \<Rightarrow> u64 \<Rightarrow> lock_type option) \<Rightarrow> bool" where
  "exclusive m \<longleftrightarrow> (\<forall>p q b. p \<noteq> q \<longrightarrow> m p b = Some F_WRLCK \<longrightarrow> m q b = None)"

section \<open>The loop\<close>


lemma after_between:
  fixes e :: u64
  assumes "e < sa" "sa \<le> ea" "ea < sb"
  shows "e < sb" "e < sb - 1"
proof -
  from assms show "e < sb" by order
  from assms have "0 < sb" by (metis word_gt_0 word_not_simps(1))
  with assms have "ea \<le> sb - 1" by (simp add: word_step)
  with assms show "e < sb - 1" by order
qed

lemma after_target_next:
  assumes "lock_before a b" "lock_valid a" "after_target pl e a"
  shows "after_target pl e b"
  using assms by (auto simp: lock_before_def after_target_def lock_valid_def dest: after_between)

lemma before_target_prev:
  assumes "lock_before a b" "lock_valid b" "before_target pl s b"
  shows "before_target pl s a"
  using assms by (auto simp: lock_before_def before_target_def lock_valid_def dest: after_between)

lemma before_after: "before_target pl s a \<Longrightarrow> s \<le> e \<Longrightarrow> after_target pl e b \<Longrightarrow> lock_before a b"
  by (auto simp: lock_before_def after_target_def before_target_def dest: after_between)


lemma holds_simps [simp]:
  "holds [] p b t \<longleftrightarrow> False"
  "holds (x # xs) p b t \<longleftrightarrow> covers x p b \<and> pl_type x = t \<or> holds xs p b t"
  "holds (xs @ ys) p b t \<longleftrightarrow> holds xs p b t \<or> holds ys p b t"
  by (auto simp: holds_def)

lemma locks_wf_append:
  "locks_wf (xs @ ys) \<longleftrightarrow> locks_wf xs \<and> locks_wf ys \<and> (\<forall>a \<in> set xs. \<forall>b \<in> set ys. lock_before a b)"
  by (auto simp: locks_wf_def sorted_wrt_append)

lemma locks_wf_Cons:
  "locks_wf (x # xs) \<longleftrightarrow> lock_valid x \<and> locks_wf xs \<and> (\<forall>b \<in> set xs. lock_before x b)"
  by (auto simp: locks_wf_def)

lemma locks_wf_Nil [simp]: "locks_wf []"
  by (simp add: locks_wf_def)

lemma before_target_not_in:
  "before_target pl s a \<Longrightarrow> covers a (pl_pid pl) b \<Longrightarrow> \<not> in_range s e b"
  by (auto simp: before_target_def covers_def in_range_def)

lemma after_target_not_in:
  "after_target pl e a \<Longrightarrow> covers a (pl_pid pl) b \<Longrightarrow> \<not> in_range s e b"
  by (auto simp: after_target_def covers_def in_range_def)

lemma holds_before_not_in:
  "\<forall>a \<in> set xs. before_target pl s a \<Longrightarrow> holds xs (pl_pid pl) b t \<Longrightarrow> \<not> in_range s e b"
  unfolding holds_def using before_target_not_in by blast

lemma holds_after_not_in:
  "\<forall>a \<in> set xs. after_target pl e a \<Longrightarrow> holds xs (pl_pid pl) b t \<Longrightarrow> \<not> in_range s e b"
  unfolding holds_def using after_target_not_in by blast

lemma loop_post_same:
  assumes "locks_wf (xs @ ys)"
    and xs: "\<forall>a \<in> set xs. before_target pl s a" and ys: "\<forall>b \<in> set ys. after_target pl e b"
  shows "loop_post pl s e (xs @ ys) (s, e, xs @ ys, last_pos xs)"
proof (rule loop_postI)
  show "locks_wf xs" "locks_wf ys" using assms(1) by (simp_all add: locks_wf_append)
  fix q b t
  have "\<not> in_range s e b" if "holds (xs @ ys) (pl_pid pl) b t"
    using that holds_before_not_in [OF xs] holds_after_not_in [OF ys] by auto
  then show "holds (xs @ ys) q b t \<longleftrightarrow>
          holds (xs @ ys) q b t \<and> \<not> (q = pl_pid pl \<and> in_range s e b)" by blast
qed (use xs ys in auto)

text \<open>
  A step of the loop changes the list and widens the range; the postcondition for the rest of the
  loop gives the one for the whole, provided the step removed only bytes of the widened range and
  widened the range only over bytes already locked with the requested type.
\<close>

lemma loop_post_step:
  assumes post: "loop_post pl s1 e1 locks1 r"
    and le: "s1 \<le> s" "e \<le> e1"
    and sub: "\<And>q b t. holds locks1 q b t \<Longrightarrow> holds locks q b t"
    and del: "\<And>q b t. holds locks q b t \<Longrightarrow> \<not> holds locks1 q b t \<Longrightarrow> q = pl_pid pl \<and> in_range s1 e1 b"
    and new: "\<And>b. in_range s1 e1 b \<Longrightarrow> in_range s e b \<or> holds locks (pl_pid pl) b (pl_type pl)"
  shows "loop_post pl s e locks r"
  using post
proof cases
  case (loop_postI as bs s' e')
  have wider: "in_range s1 e1 b \<Longrightarrow> in_range s' e' b" for b
    using loop_postI(6,7) by (auto simp: in_range_def)
  show ?thesis
    unfolding loop_postI(1)
  proof (rule loop_post.loop_postI)
    show "s' \<le> s" "e \<le> e'" using le loop_postI(6,7) by order+
    fix q b t
    show "holds (as @ bs) q b t \<longleftrightarrow>
          holds locks q b t \<and> \<not> (q = pl_pid pl \<and> in_range s' e' b)"
      using loop_postI(8) [of q b t] sub [of q b t] del [of q b t] wider [of b] by blast
    show "in_range s e b \<or> holds locks (pl_pid pl) b (pl_type pl)" if "in_range s' e' b" for b
      using loop_postI(9) [OF that] new [of b] sub [of "pl_pid pl" b "pl_type pl"] by blast
  qed (fact loop_postI)+
qed

lemma locks_wf_shorten_end:
  assumes "locks_wf (cur # rest)" "pl_start cur < s" "s \<le> pl_end cur"
  shows "locks_wf (cur\<lparr>pl_end := s - 1\<rparr> # rest)"
proof -
  have "0 < s" using assms(2) by (metis word_gt_0 word_not_simps(1))
  then have "s - 1 < pl_end cur" "pl_start cur \<le> s - 1"
    using minus_one_less_self [of s] assms by (auto simp: word_step)
  then show ?thesis
    using assms(1) by (fastforce simp: locks_wf_Cons lock_valid_def lock_before_def)
qed

lemma locks_wf_shorten_start:
  assumes "locks_wf (cur # rest)" "e < pl_end cur"
  shows "locks_wf (cur\<lparr>pl_start := e + 1\<rparr> # rest)"
  using assms by (auto simp: locks_wf_Cons lock_valid_def lock_before_def word_step)

lemma after_target_all:
  "locks_wf (cur # rest) \<Longrightarrow> after_target pl e cur \<Longrightarrow> \<forall>b \<in> set (cur # rest). after_target pl e b"
  by (auto simp: locks_wf_Cons intro: after_target_next)

lemma loop_break:
  assumes "locks_wf (xs @ cur # rest)" "\<forall>a \<in> set xs. before_target pl s a" "after_target pl e cur"
  shows "loop_post pl s e (xs @ cur # rest) (s, e, xs @ cur # rest, last_pos xs)"
proof (rule loop_post_same)
  show "\<forall>b \<in> set (cur # rest). after_target pl e b"
    using assms by (intro after_target_all) (auto simp: locks_wf_append)
qed (use assms in auto)

lemma target_of_split:
  assumes "lock_valid cur" "pl_pid cur = pl_pid pl" "pl_type cur \<noteq> pl_type pl" "pl_start cur < s"
  shows "before_target pl s (cur\<lparr>pl_end := s - 1\<rparr>)"
proof -
  have "0 < s" using assms(4) by (metis word_gt_0 word_not_simps(1))
  then show ?thesis using assms by (auto simp: before_target_def minus_one_less_self)
qed

lemma target_of_rest:
  assumes "pl_pid cur = pl_pid pl" "pl_type cur \<noteq> pl_type pl" "e < pl_end cur"
  shows "after_target pl e (cur\<lparr>pl_start := e + 1\<rparr>)"
  using assms by (auto simp: after_target_def word_step)

lemma merged_range:
  assumes "\<not> (0 < s \<and> ec < s - 1)" "\<not> (e < FS_LOCK_EOF \<and> e + 1 < sc)"
    and "in_range (min s sc) (max e ec) b" "\<not> in_range s e b"
  shows "sc \<le> b \<and> b \<le> ec"
proof (cases "b < s")
  case True
  then have s: "0 < s" by (metis word_gt_0 word_not_simps(1))
  with True have "b \<le> s - 1" by (simp add: word_step)
  moreover have "s - 1 \<le> ec" using s assms(1) by (simp add: not_less)
  ultimately have "b \<le> ec" by order
  moreover have "sc \<le> b" using True assms(3) by (auto simp: in_range_def min_def split: if_splits)
  ultimately show ?thesis by simp
next
  case False
  with assms(4) have b: "e < b" by (auto simp: in_range_def)
  with assms(2) have "sc \<le> e + 1" using word_less_top [OF b] by (simp add: FS_LOCK_EOF_def not_less)
  also have "e + 1 \<le> b" using b by (simp add: plus_one_le_iff [OF b])
  finally have "sc \<le> b" .
  moreover have "b \<le> ec" using b assms(3) by (auto simp: in_range_def max_def split: if_splits)
  ultimately show ?thesis by simp
qed

lemma posix_lock_set_loop_merge:
  assumes wf: "locks_wf (done @ cur # rest)" and bef: "\<forall>a \<in> set done. before_target pl s a"
    and same: "pl_pid cur = pl_pid pl" "pl_type cur = pl_type pl"
    and no: "\<not> (0 < s \<and> pl_end cur < s - 1)" "\<not> (e < FS_LOCK_EOF \<and> e + 1 < pl_start cur)"
  shows "\<forall>a \<in> set done. before_target pl (min s (pl_start cur)) a" (is ?bef)
    and "loop_post pl (min s (pl_start cur)) (max e (pl_end cur)) (done @ rest) r \<Longrightarrow>
      loop_post pl s e (done @ cur # rest) r" (is "?post \<Longrightarrow> _")
proof -
  show ?bef
    using wf bef same by (auto simp: locks_wf_append locks_wf_Cons lock_before_def before_target_def min_def)
  show "loop_post pl s e (done @ cur # rest) r" if ?post
  proof (rule loop_post_step [OF that])
    fix q b t
    assume "holds (done @ cur # rest) q b t" "\<not> holds (done @ rest) q b t"
    then show "q = pl_pid pl \<and> in_range (min s (pl_start cur)) (max e (pl_end cur)) b"
      using same by (auto simp: covers_def in_range_def min_le_iff_disj le_max_iff_disj)
  next
    fix b
    assume "in_range (min s (pl_start cur)) (max e (pl_end cur)) b"
    then have "in_range s e b \<or> covers cur (pl_pid pl) b"
      using merged_range [OF no, of b] same by (simp only: covers_def) blast
    then show "in_range s e b \<or> holds (done @ cur # rest) (pl_pid pl) b (pl_type pl)"
      using same by simp blast
  qed auto
qed

lemma loop_post_cut:
  assumes wf: "locks_wf (xs @ cur # rest)" and bef: "\<forall>a \<in> set (xs @ mid). before_target pl s a"
    and cur: "pl_pid cur = pl_pid pl" "e < pl_end cur" "pl_type cur \<noteq> pl_type pl"
    and mid: "locks_wf (xs @ mid)"
      "\<And>q b t. holds mid q b t \<longleftrightarrow> covers cur q b \<and> b < s \<and> pl_type cur = t"
    and se: "s \<le> e" "e \<ge> pl_start cur"
  shows "loop_post pl s e (xs @ cur # rest)
    (s, e, (xs @ mid) @ cur\<lparr>pl_start := e + 1\<rparr> # rest, last_pos (xs @ mid))"
proof (rule loop_postI)
  have "locks_wf (cur # rest)" using wf by (simp add: locks_wf_append)
  then show wf': "locks_wf (cur\<lparr>pl_start := e + 1\<rparr> # rest)"
    using cur(2) by (rule locks_wf_shorten_start)
  show aft: "\<forall>b \<in> set (cur\<lparr>pl_start := e + 1\<rparr> # rest). after_target pl e b"
    using wf' target_of_rest [OF cur(1,3,2)] by (rule after_target_all)
  fix q b t
  have "covers (cur\<lparr>pl_start := e + 1\<rparr>) q b \<longleftrightarrow> covers cur q b \<and> e < b"
    using se cur(2) by (auto simp: covers_def plus_one_le_iff [OF cur(2)])
  moreover have "covers cur q b \<Longrightarrow> q = pl_pid pl" using cur(1) by (simp add: covers_def)
  moreover have "\<not> in_range s e b" if "holds xs (pl_pid pl) b t"
    using holds_before_not_in [of xs pl s b t e] bef that by simp
  moreover have "\<not> in_range s e b" if "holds rest (pl_pid pl) b t"
    using holds_after_not_in [of rest pl e b t s] aft that by simp
  moreover have "in_range s e b \<longleftrightarrow> \<not> b < s \<and> \<not> e < b" by (auto simp: in_range_def)
  ultimately show "holds ((xs @ mid) @ cur\<lparr>pl_start := e + 1\<rparr> # rest) q b t \<longleftrightarrow>
      holds (xs @ cur # rest) q b t \<and> \<not> (q = pl_pid pl \<and> in_range s e b)"
    using mid(2) by auto
qed (use bef mid in auto)

lemma covers_shorten_end:
  assumes "pl_start cur < s" "s \<le> pl_end cur"
  shows "covers (cur\<lparr>pl_end := s - 1\<rparr>) q b \<longleftrightarrow> covers cur q b \<and> b < s"
proof -
  have "0 < s" using assms(1) by (metis word_gt_0 word_not_simps(1))
  with assms show ?thesis by (auto simp: covers_def word_step)
qed

lemma posix_lock_set_loop_post:
  assumes "locks_wf (done @ rest)" "\<forall>a \<in> set done. before_target pl s a" "s \<le> e"
  shows "loop_post pl s e (done @ rest) (posix_lock_set_loop pl s e done (last_pos done) rest)"
  using assms
proof (induction rest arbitrary: s e "done")
  case Nil
  then show ?case using loop_post_same [of "done" "[]" pl s e] by simp
next
  case (Cons cur rest)
  note wf = Cons.prems(1) and bef = Cons.prems(2) and se = Cons.prems(3)
  have wfc: "locks_wf (cur # rest)" and valid: "lock_valid cur"
    and bc: "\<And>a. a \<in> set done \<Longrightarrow> lock_before a cur" and wfd: "locks_wf (done @ rest)"
    using wf by (auto simp: locks_wf_append locks_wf_Cons)
  have keep: "loop_post pl s e (done @ cur # rest)
      (posix_lock_set_loop pl s e (done @ [cur]) (Some (length done)) rest)"
    if "before_target pl s cur"
    using Cons.IH [of "done @ [cur]" s e] wf bef se that by simp
  note stop = loop_break [OF wf bef]
  consider (less) "pl_pid cur < pl_pid pl" | (greater) "pl_pid pl < pl_pid cur"
    | (same) "pl_pid cur = pl_pid pl" "pl_type cur = pl_type pl"
    | (diff) "pl_pid cur = pl_pid pl" "pl_type cur \<noteq> pl_type pl"
    by fastforce
  then show ?case
  proof cases
    case less
    then show ?thesis using keep by (simp add: before_target_def)
  next
    case greater
    then have "after_target pl e cur" by (simp add: after_target_def)
    from stop [OF this] greater show ?thesis by auto
  next
    case same
    consider (left) "0 < s \<and> pl_end cur < s - 1"
      | (right) "\<not> (0 < s \<and> pl_end cur < s - 1)" "e < FS_LOCK_EOF \<and> e + 1 < pl_start cur"
      | (merge) "\<not> (0 < s \<and> pl_end cur < s - 1)" "\<not> (e < FS_LOCK_EOF \<and> e + 1 < pl_start cur)"
      by blast
    then show ?thesis
    proof cases
      case left
      then have "before_target pl s cur"
        using same less_minus_one_less by (auto simp: before_target_def)
      from keep [OF this] same left show ?thesis by simp
    next
      case right
      then have "after_target pl e cur"
        using same less_minus_one_less by (auto simp: after_target_def FS_LOCK_EOF_def word_step)
      from stop [OF this] same right show ?thesis by auto
    next
      case merge
      note m = posix_lock_set_loop_merge [OF wf bef same merge]
      have "min s (pl_start cur) \<le> max e (pl_end cur)" using se by (auto simp: min_def max_def)
      from m(2) [OF Cons.IH [OF wfd m(1) this]] same merge show ?thesis by auto
    qed
  next
    case diff
    let ?cur = "cur\<lparr>pl_end := s - 1\<rparr>"
    have cov: "q = pl_pid pl \<and> pl_start cur \<le> b \<and> b \<le> pl_end cur" if "covers cur q b" for q b
      using that diff by (simp add: covers_def)
    have split: "before_target pl s ?cur" "locks_wf (done @ ?cur # rest)"
      if "pl_start cur < s" "s \<le> pl_end cur"
      using that wf bef target_of_split [OF valid diff] locks_wf_shorten_end [OF wfc]
      by (auto simp: locks_wf_append locks_wf_Cons lock_before_def)
    consider (left) "pl_end cur < s" | (right) "s \<le> pl_end cur" "e < pl_start cur"
      | (shorten) "s \<le> pl_end cur" "pl_start cur \<le> e" "pl_start cur < s" "pl_end cur \<le> e"
      | (inside) "s \<le> pl_end cur" "pl_start cur \<le> e" "pl_start cur < s" "e < pl_end cur"
      | (covered) "s \<le> pl_start cur" "pl_start cur \<le> e" "pl_end cur \<le> e"
      | (over) "s \<le> pl_start cur" "pl_start cur \<le> e" "e < pl_end cur"
      by fastforce
    then show ?thesis
    proof cases
      case left
      then have "before_target pl s cur" using diff by (simp add: before_target_def)
      from keep [OF this] diff left show ?thesis by simp
    next
      case right
      then have "after_target pl e cur" using diff by (simp add: after_target_def)
      from stop [OF this] diff right show ?thesis by auto
    next
      case shorten
      have "loop_post pl s e (done @ ?cur # rest)
          (posix_lock_set_loop pl s e (done @ [?cur]) (Some (length done)) rest)"
        using Cons.IH [of "done @ [?cur]" s e] split shorten bef se by simp
      then have "loop_post pl s e (done @ cur # rest)
          (posix_lock_set_loop pl s e (done @ [?cur]) (Some (length done)) rest)"
        by (rule loop_post_step)
          (use shorten in \<open>auto simp: covers_shorten_end in_range_def dest: cov intro: order_trans\<close>)
      with diff shorten show ?thesis by auto
    next
      case inside
      have "loop_post pl s e (done @ cur # rest)
        (s, e, (done @ [?cur]) @ cur\<lparr>pl_start := e + 1\<rparr> # rest, last_pos (done @ [?cur]))"
        using inside diff wf bef se split
        by (intro loop_post_cut) (auto simp: covers_shorten_end locks_wf_append locks_wf_Cons)
      moreover have "posix_lock_set_loop pl s e done (last_pos done) (cur # rest) =
        (s, e, (done @ [?cur]) @ cur\<lparr>pl_start := e + 1\<rparr> # rest, last_pos (done @ [?cur]))"
        using diff inside by auto
      ultimately show ?thesis by (simp only:)
    next
      case covered
      have "loop_post pl s e (done @ cur # rest)
          (posix_lock_set_loop pl s e done (last_pos done) rest)"
        by (rule loop_post_step [OF Cons.IH [OF wfd bef se]])
          (use covered diff in \<open>auto simp: covers_def in_range_def\<close>)
      moreover have "\<not> pl_end cur < s" using covered valid by (auto simp: lock_valid_def)
      ultimately show ?thesis using diff covered by auto
    next
      case over
      have "loop_post pl s e (done @ cur # rest)
        (s, e, (done @ []) @ cur\<lparr>pl_start := e + 1\<rparr> # rest, last_pos (done @ []))"
        using over diff wf bef se wfd
        by (intro loop_post_cut) (auto simp: covers_def locks_wf_append)
      then show ?thesis using diff over by auto
    qed
  qed
qed

section \<open>The lock list as a map\<close>


lemma loop_initial:
  "locks_wf locks \<Longrightarrow> pl_start pl \<le> pl_end pl \<Longrightarrow>
   loop_post pl (pl_start pl) (pl_end pl) locks
     (posix_lock_set_loop pl (pl_start pl) (pl_end pl) [] None locks)"
  using posix_lock_set_loop_post [of "[]" locks pl] by simp

lemma lock_before_disjoint: "lock_before x y \<Longrightarrow> covers x p b \<Longrightarrow> \<not> covers y p b"
proof
  assume a: "lock_before x y" "covers x p b" "covers y p b"
  then have "pl_end x < pl_start y" by (simp add: lock_before_def covers_def)
  moreover have "b \<le> pl_end x" "pl_start y \<le> b" using a by (simp_all add: covers_def)
  ultimately show False by order
qed

lemma holds_unique:
  assumes "locks_wf locks" "holds locks p b t" "holds locks p b t'"
  shows "t = t'"
proof -
  obtain x y where "x \<in> set locks" "covers x p b" "pl_type x = t"
    "y \<in> set locks" "covers y p b" "pl_type y = t'"
    using assms(2,3) unfolding holds_def by blast
  moreover from this have "x = y"
    using assms(1) sorted_wrt_total [of lock_before locks x y] lock_before_disjoint
    unfolding locks_wf_def by blast
  ultimately show ?thesis by simp
qed

lemma lock_at_None: "lock_at locks p b = None \<longleftrightarrow> (\<forall>t. \<not> holds locks p b t)"
  by (auto simp: lock_at_def find_None_iff holds_def)

lemma lock_at_holds: "lock_at locks p b = Some t \<Longrightarrow> holds locks p b t"
  by (auto simp: lock_at_def find_Some_iff holds_def)

lemma lock_at_Some:
  assumes "locks_wf locks"
  shows "lock_at locks p b = Some t \<longleftrightarrow> holds locks p b t"
proof
  assume h: "holds locks p b t"
  then obtain t' where "lock_at locks p b = Some t'" using lock_at_None [of locks p b] by auto
  with h show "lock_at locks p b = Some t"
    using holds_unique [OF assms h lock_at_holds] by blast
qed (rule lock_at_holds)

lemma lock_at_eqI:
  assumes "locks_wf locks" "\<And>t. x = Some t \<longleftrightarrow> holds locks p b t"
  shows "lock_at locks p b = x"
  using assms lock_at_Some by (cases x) (auto simp: lock_at_None)

lemma locks_wf_insert:
  assumes "locks_wf xs" "locks_wf ys" "\<forall>a \<in> set xs. before_target pl s a"
    "\<forall>b \<in> set ys. after_target pl e b" "s \<le> e" "pl_type pl \<noteq> F_UNLCK"
  shows "locks_wf (xs @ \<lparr>pl_type = pl_type pl, pl_start = s, pl_end = e, pl_pid = pl_pid pl\<rparr> # ys)"
proof -
  let ?n = "\<lparr>pl_type = pl_type pl, pl_start = s, pl_end = e, pl_pid = pl_pid pl\<rparr>"
  have "lock_before a ?n" if "a \<in> set xs" for a
    using that assms(3) by (auto simp: before_target_def lock_before_def)
  moreover have "lock_before ?n b" if "b \<in> set ys" for b
    using that assms(4) by (auto simp: after_target_def lock_before_def)
  moreover have "lock_before a b" if "a \<in> set xs" "b \<in> set ys" for a b
    using that assms(3-5) before_after [of pl s a e b] by simp
  ultimately show ?thesis
    using assms(1,2,5,6) by (auto simp: locks_wf_append locks_wf_Cons lock_valid_def)
qed

lemma locks_wf_join:
  assumes "locks_wf xs" "locks_wf ys" "\<forall>a \<in> set xs. before_target pl s a"
    "\<forall>b \<in> set ys. after_target pl e b" "s \<le> e"
  shows "locks_wf (xs @ ys)"
  using assms before_after [of pl s _ e] by (simp add: locks_wf_append)

text \<open>The list after the loop and the insertion, and what it means.\<close>

lemma set_result:
  assumes wf: "locks_wf locks" and range: "pl_start pl \<le> pl_end pl"
    and loop: "posix_lock_set_loop pl (pl_start pl) (pl_end pl) [] None locks = (s, e, l, prev)"
    and res: "res = (if pl_type pl \<noteq> F_UNLCK
        then listp_add_after \<lparr>pl_type = pl_type pl, pl_start = s, pl_end = e, pl_pid = pl_pid pl\<rparr> prev l
        else l)"
  shows "locks_wf res"
    and "holds res q b t \<longleftrightarrow>
      (if q = pl_pid pl \<and> in_range (pl_start pl) (pl_end pl) b
       then t = pl_type pl \<and> t \<noteq> F_UNLCK else holds locks q b t)"
proof -
  from loop_initial [OF wf range] loop
  have "loop_post pl (pl_start pl) (pl_end pl) locks (s, e, l, prev)" by simp
  then obtain xs ys where l: "l = xs @ ys" "prev = last_pos xs" and w: "locks_wf xs" "locks_wf ys"
    and t: "\<forall>a \<in> set xs. before_target pl s a" "\<forall>b \<in> set ys. after_target pl e b"
    and le: "s \<le> pl_start pl" "pl_end pl \<le> e"
    and h: "\<And>q b t. holds (xs @ ys) q b t \<longleftrightarrow> holds locks q b t \<and> \<not> (q = pl_pid pl \<and> in_range s e b)"
    and ext: "\<And>b. in_range s e b \<Longrightarrow>
      in_range (pl_start pl) (pl_end pl) b \<or> holds locks (pl_pid pl) b (pl_type pl)"
    by cases auto
  have se: "s \<le> e" using le range by order
  show wfr: "locks_wf res"
    using locks_wf_insert [OF w t se] locks_wf_join [OF w t se] by (simp add: res l)
  have sub: "in_range (pl_start pl) (pl_end pl) b \<Longrightarrow> in_range s e b" for b
    using le by (auto simp: in_range_def)
  have unl: "\<not> holds locks q b F_UNLCK" for q b
    using wf by (auto simp: locks_wf_def lock_valid_def holds_def)
  have uniq: "holds locks (pl_pid pl) b t \<Longrightarrow> in_range s e b \<Longrightarrow>
      \<not> in_range (pl_start pl) (pl_end pl) b \<Longrightarrow> t = pl_type pl" for b t
    using ext holds_unique [OF wf] by blast
  show "holds res q b t \<longleftrightarrow>
      (if q = pl_pid pl \<and> in_range (pl_start pl) (pl_end pl) b
       then t = pl_type pl \<and> t \<noteq> F_UNLCK else holds locks q b t)"
  proof (cases "pl_type pl = F_UNLCK")
    case True
    then have "holds res q b t \<longleftrightarrow> holds locks q b t \<and> \<not> (q = pl_pid pl \<and> in_range s e b)"
      using h by (simp add: res l)
    then show ?thesis using True sub [of b] ext [of b] unl [of q b] by auto
  next
    case False
    then have "holds res q b t \<longleftrightarrow> q = pl_pid pl \<and> in_range s e b \<and> t = pl_type pl \<or>
        holds locks q b t \<and> \<not> (q = pl_pid pl \<and> in_range s e b)"
      using h [of q b t] by (auto simp: res l covers_def in_range_def)
    then show ?thesis using False sub [of b] ext [of b] uniq [of b t] by auto
  qed
qed

section \<open>Setting a lock and finding a conflict\<close>


lemma do_posix_lock_set_cases:
  obtains (fail) h' where "do_posix_lock_set h locks pl = (- ENOMEM, locks, h')"
  | (ok) s e l prev h' where
      "posix_lock_set_loop pl (pl_start pl) (pl_end pl) [] None locks = (s, e, l, prev)"
      "do_posix_lock_set h locks pl =
        (0, (if pl_type pl \<noteq> F_UNLCK
             then listp_add_after \<lparr>pl_type = pl_type pl, pl_start = s, pl_end = e, pl_pid = pl_pid pl\<rparr> prev l
             else l), h')"
proof -
  obtain s e l prev where
    loop: "posix_lock_set_loop pl (pl_start pl) (pl_end pl) [] None locks = (s, e, l, prev)"
    by (metis prod_cases4)
  show thesis
  proof (cases "\<exists>h'. do_posix_lock_set h locks pl = (- ENOMEM, locks, h')")
    case True
    then show thesis using fail by blast
  next
    case False
    then show thesis
      using ok [OF loop]
      by (auto simp: do_posix_lock_set_def loop split_def Let_def split: if_splits)
  qed
qed

lemma do_posix_lock_set_ret: "fst (do_posix_lock_set h locks pl) = 0 \<or> fst (do_posix_lock_set h locks pl) = - ENOMEM"
  by (rule do_posix_lock_set_cases [of h locks pl]) auto

lemma do_posix_lock_set_wf:
  assumes "locks_wf locks" "pl_start pl \<le> pl_end pl" "do_posix_lock_set h locks pl = (ret, locks', h')"
  shows "locks_wf locks'"
proof (rule do_posix_lock_set_cases [of h locks pl])
  fix s e l prev h''
  assume loop: "posix_lock_set_loop pl (pl_start pl) (pl_end pl) [] None locks = (s, e, l, prev)"
  assume "do_posix_lock_set h locks pl =
        (0, (if pl_type pl \<noteq> F_UNLCK
             then listp_add_after \<lparr>pl_type = pl_type pl, pl_start = s, pl_end = e, pl_pid = pl_pid pl\<rparr> prev l
             else l), h'')"
  with assms(3) have "locks' = (if pl_type pl \<noteq> F_UNLCK
             then listp_add_after \<lparr>pl_type = pl_type pl, pl_start = s, pl_end = e, pl_pid = pl_pid pl\<rparr> prev l
             else l)" by simp
  then show ?thesis by (rule set_result(1) [OF assms(1,2) loop])
qed (use assms in auto)

lemma do_posix_lock_set_lock_at:
  assumes wf: "locks_wf locks" and range: "pl_start pl \<le> pl_end pl"
    and set: "do_posix_lock_set h locks pl = (ret, locks', h')"
  shows "lock_at locks' q b =
    (if ret = 0 \<and> q = pl_pid pl \<and> pl_start pl \<le> b \<and> b \<le> pl_end pl
     then (if pl_type pl = F_UNLCK then None else Some (pl_type pl))
     else lock_at locks q b)"
proof (rule do_posix_lock_set_cases [of h locks pl])
  fix s e l prev h''
  assume loop: "posix_lock_set_loop pl (pl_start pl) (pl_end pl) [] None locks = (s, e, l, prev)"
  assume "do_posix_lock_set h locks pl =
        (0, (if pl_type pl \<noteq> F_UNLCK
             then listp_add_after \<lparr>pl_type = pl_type pl, pl_start = s, pl_end = e, pl_pid = pl_pid pl\<rparr> prev l
             else l), h'')"
  with set have ret: "ret = 0" and res: "locks' = (if pl_type pl \<noteq> F_UNLCK
             then listp_add_after \<lparr>pl_type = pl_type pl, pl_start = s, pl_end = e, pl_pid = pl_pid pl\<rparr> prev l
             else l)" by simp_all
  note r = set_result [OF wf range loop res]
  show ?thesis
    by (rule lock_at_eqI [OF r(1)]) (use r(2) [of q b] ret lock_at_Some [OF wf] in \<open>auto simp: in_range_def\<close>)
qed (use set in auto)

lemma find_conflict_None:
  "posix_lock_find_conflict locks pl = None \<longleftrightarrow> (\<forall>cur \<in> set locks. \<not> locks_conflict cur pl)"
  by (induction locks) auto

lemma find_conflict_Some:
  "posix_lock_find_conflict locks pl = Some cur \<Longrightarrow> cur \<in> set locks \<and> locks_conflict cur pl"
  by (induction locks) (auto split: if_splits)

lemma locks_conflict_byte:
  assumes "pl_start cur \<le> pl_end cur" "pl_start pl \<le> pl_end pl"
  shows "locks_conflict cur pl \<longleftrightarrow>
    (pl_type cur = F_WRLCK \<or> pl_type pl = F_WRLCK) \<and>
    (\<exists>b. covers cur (pl_pid cur) b \<and> pl_pid cur \<noteq> pl_pid pl \<and> in_range (pl_start pl) (pl_end pl) b)"
    (is "_ \<longleftrightarrow> ?w \<and> ?b")
proof
  assume c: "locks_conflict cur pl"
  have "covers cur (pl_pid cur) (max (pl_start cur) (pl_start pl))"
    "in_range (pl_start pl) (pl_end pl) (max (pl_start cur) (pl_start pl))"
    using c assms by (auto simp: locks_conflict_def covers_def in_range_def)
  with c show "?w \<and> ?b" unfolding locks_conflict_def by blast
next
  assume "?w \<and> ?b"
  then show "locks_conflict cur pl"
    by (auto simp: locks_conflict_def covers_def in_range_def intro: order_trans)
qed

lemma find_conflict_lock_at:
  assumes wf: "locks_wf locks" and range: "pl_start pl \<le> pl_end pl"
  shows "posix_lock_find_conflict locks pl = None \<longleftrightarrow>
    (\<forall>q b t. q \<noteq> pl_pid pl \<longrightarrow> in_range (pl_start pl) (pl_end pl) b \<longrightarrow> lock_at locks q b = Some t \<longrightarrow>
       t \<noteq> F_WRLCK \<and> pl_type pl \<noteq> F_WRLCK)" (is "_ \<longleftrightarrow> ?free")
proof -
  have conf: "locks_conflict cur pl \<longleftrightarrow>
      (pl_type cur = F_WRLCK \<or> pl_type pl = F_WRLCK) \<and>
      (\<exists>b. covers cur (pl_pid cur) b \<and> pl_pid cur \<noteq> pl_pid pl \<and> in_range (pl_start pl) (pl_end pl) b)"
    if "cur \<in> set locks" for cur
    using that wf range by (intro locks_conflict_byte) (auto simp: locks_wf_def lock_valid_def)
  have pid: "pl_pid cur = q" if "covers cur q b" for cur q b using that by (simp add: covers_def)
  show ?thesis
    unfolding find_conflict_None lock_at_Some [OF wf] holds_def
  proof (intro iffI allI impI ballI notI)
    fix q b t
    assume no: "\<forall>cur \<in> set locks. \<not> locks_conflict cur pl" and q: "q \<noteq> pl_pid pl"
      and r: "in_range (pl_start pl) (pl_end pl) b" and "\<exists>l \<in> set locks. covers l q b \<and> pl_type l = t"
    then obtain l where l: "l \<in> set locks" "covers l q b" "pl_type l = t" by blast
    with no conf [OF l(1)] pid [OF l(2)] q r show "t \<noteq> F_WRLCK \<and> pl_type pl \<noteq> F_WRLCK" by blast
  next
    fix cur
    assume free: "\<forall>q b t. q \<noteq> pl_pid pl \<longrightarrow> in_range (pl_start pl) (pl_end pl) b \<longrightarrow>
      (\<exists>l \<in> set locks. covers l q b \<and> pl_type l = t) \<longrightarrow> t \<noteq> F_WRLCK \<and> pl_type pl \<noteq> F_WRLCK"
      and cur: "cur \<in> set locks" "locks_conflict cur pl"
    then show False using conf [OF cur(1)] by blast
  qed
qed

section \<open>The interface the file-lock layer relies on\<close>

text \<open>
  What the code above the lock list needs of it: a map from process and byte to lock type, an
  update of that map on a range that either takes place or reports an error and changes nothing,
  and a conflict test that is exact on the map. Exclusiveness of write locks is proved from these
  laws alone.
\<close>

locale lock_table =
  fixes lookup :: "'l \<Rightarrow> u32 \<Rightarrow> u64 \<Rightarrow> lock_type option"
    and invar :: "'l \<Rightarrow> bool"
    and conflict :: "'l \<Rightarrow> posix_lock \<Rightarrow> bool"
    and update :: "allocs \<Rightarrow> 'l \<Rightarrow> posix_lock \<Rightarrow> int \<times> 'l \<times> allocs"
  assumes invar_update: "invar l \<Longrightarrow> pl_start pl \<le> pl_end pl \<Longrightarrow> update h l pl = (ret, l', h') \<Longrightarrow> invar l'"
    and lookup_update: "invar l \<Longrightarrow> pl_start pl \<le> pl_end pl \<Longrightarrow> update h l pl = (ret, l', h') \<Longrightarrow>
      lookup l' q b =
        (if ret = 0 \<and> q = pl_pid pl \<and> pl_start pl \<le> b \<and> b \<le> pl_end pl
         then (if pl_type pl = F_UNLCK then None else Some (pl_type pl))
         else lookup l q b)"
    and conflict_free: "invar l \<Longrightarrow> pl_start pl \<le> pl_end pl \<Longrightarrow> \<not> conflict l pl \<Longrightarrow>
      q \<noteq> pl_pid pl \<Longrightarrow> pl_start pl \<le> b \<Longrightarrow> b \<le> pl_end pl \<Longrightarrow> lookup l q b = Some t \<Longrightarrow>
      t \<noteq> F_WRLCK \<and> pl_type pl \<noteq> F_WRLCK"
begin

lemma exclusive_update:
  assumes inv: "invar l" "pl_start pl \<le> pl_end pl" and up: "update h l pl = (ret, l', h')"
    and ex: "exclusive (lookup l)" and free: "pl_type pl = F_UNLCK \<or> \<not> conflict l pl"
  shows "exclusive (lookup l')"
  unfolding exclusive_def
proof (intro allI impI)
  fix p q b
  assume pq: "p \<noteq> q" and w: "lookup l' p b = Some F_WRLCK"
  note eq = lookup_update [OF inv up]
  show "lookup l' q b = None"
  proof (cases "ret = 0 \<and> pl_start pl \<le> b \<and> b \<le> pl_end pl \<and> (p = pl_pid pl \<or> q = pl_pid pl)")
    case True
    have no: "lookup l r b = Some t \<Longrightarrow> t \<noteq> F_WRLCK \<and> pl_type pl \<noteq> F_WRLCK"
      if "r \<noteq> pl_pid pl" "pl_type pl \<noteq> F_UNLCK" for r t
      using conflict_free [OF inv _ that(1)] free True that(2) by blast
    show ?thesis
    proof (cases "p = pl_pid pl")
      case p: True
      then have "pl_type pl = F_WRLCK" using True w by (auto simp: eq split: if_splits)
      then have "lookup l q b = None" using no [of q] p pq by (cases "lookup l q b") auto
      then show ?thesis using p pq by (simp add: eq)
    next
      case False
      then have "lookup l p b = Some F_WRLCK" "q = pl_pid pl" using True w by (auto simp: eq)
      then have "pl_type pl = F_UNLCK" using no [OF False] by blast
      then show ?thesis using True \<open>q = pl_pid pl\<close> by (simp add: eq)
    qed
  next
    case False
    then have "lookup l' p b = lookup l p b" "lookup l' q b = lookup l q b" by (auto simp: eq)
    with pq w ex show ?thesis by (auto simp: exclusive_def)
  qed
qed

lemma update_error_unchanged:
  assumes "invar l" "pl_start pl \<le> pl_end pl" "update h l pl = (ret, l', h')" "ret \<noteq> 0"
  shows "lookup l' = lookup l"
  using lookup_update [OF assms(1-3)] assms(4) by (auto simp: fun_eq_iff)

end

interpretation posix: lock_table lock_at locks_wf
    "\<lambda>locks pl. posix_lock_find_conflict locks pl \<noteq> None" do_posix_lock_set
proof
  fix l pl q b t
  assume "locks_wf l" "pl_start pl \<le> pl_end pl" "\<not> posix_lock_find_conflict l pl \<noteq> None"
    "q \<noteq> pl_pid pl" "pl_start pl \<le> b" "b \<le> pl_end pl" "lock_at l q b = Some t"
  then show "t \<noteq> F_WRLCK \<and> pl_type pl \<noteq> F_WRLCK"
    using find_conflict_lock_at [of l pl] unfolding in_range_def by blast
qed (rule do_posix_lock_set_wf do_posix_lock_set_lock_at; assumption)+

end
