(* ===== verification/Fs_Lock.thy ===== *)
theory Fs_Lock
  imports Posix_Lock "HOL-Library.Multiset"
begin

text \<open>
  The file-lock layer of \<^verbatim>\<open>gramine/libos/src/fs/libos_fs_lock.c\<close> above the lock list: the
  \<^verbatim>\<open>struct fs_lock\<close> objects of the locked files, pending requests and their waiters, and the
  operations \<^verbatim>\<open>posix_lock_set\<close>, \<^verbatim>\<open>posix_lock_get\<close> and \<^verbatim>\<open>posix_lock_clear_pid\<close> with
  their IPC variants. A dentry is a number; the field \<^verbatim>\<open>dent->fs_lock\<close> of every dentry is one map,
  and \<^verbatim>\<open>g_fs_lock_list\<close> is the list of the dentries that have an object, in list order. Every
  function runs under \<^verbatim>\<open>g_fs_lock_lock\<close>, so a call is one step; where the source drops the lock
  in the middle, the model has two steps.
\<close>

section \<open>Data\<close>

text \<open>
  The \<^verbatim>\<open>notify\<close> part of a request. \<open>None\<close> in a request stands for fields not yet assigned:
  the object comes from \<^verbatim>\<open>malloc\<close> and the fields are filled in by the caller. The sequence number
  of the structure is an \<^verbatim>\<open>unsigned int\<close>. The pointers \<^verbatim>\<open>event\<close> and \<^verbatim>\<open>result\<close> are always assigned
  together, both or neither null; \<open>nf_event\<close> stands for the two.
\<close>

record notify =
  nf_vmid :: u32
  nf_seq :: u32
  nf_event :: "nat option"

record posix_lock_request =
  req_id :: nat
  req_pl :: posix_lock
  req_notify :: "notify option"

record fs_lock =
  posix_locks :: "posix_lock list"
  posix_lock_requests :: "posix_lock_request list"

text \<open>
  What a waiter is told: an event is set after its result was stored, an IPC response is sent, or
  the unassigned fields of a request are read. \<open>Assert_failed\<close> is a failed assertion on the fields of
  a request.
\<close>

datatype notification =
    Event_set nat int
  | Ipc_response u32 u64 int
  | Indeterminate nat int
  | Assert_failed nat

record lock_state =
  dent_fs_lock :: "nat \<Rightarrow> fs_lock option"
  g_fs_lock_list :: "nat list"
  dent_refs :: "nat \<Rightarrow> nat"
  maybe_has_fs_locks :: "nat \<Rightarrow> bool"
  ls_allocs :: allocs
  ls_next_id :: nat
  ls_trace :: "notification list"

text \<open>
  The parts of the LibOS the file-lock layer calls: the identity of the process leader (0 in the
  leader itself), path lookup, the IPC round trip to the leader and event creation.
\<close>

record lock_env =
  env_leader_vmid :: u32
  env_abs_path :: "nat \<Rightarrow> int + string"
  env_path_lookup :: "string \<Rightarrow> int + nat"
  env_ipc_set :: "string \<Rightarrow> posix_lock \<Rightarrow> bool \<Rightarrow> int"
  env_ipc_get :: "string \<Rightarrow> posix_lock \<Rightarrow> int \<times> posix_lock"
  env_ipc_clear :: "u32 \<Rightarrow> int"
  env_event_create :: "int + nat"

section \<open>Operations\<close>

definition find_fs_lock :: "lock_state \<Rightarrow> nat \<Rightarrow> bool \<Rightarrow> int \<times> lock_state" where
  "find_fs_lock s dent create =
     (if dent_fs_lock s dent = None \<and> create then
        let (ok, h) = malloc_outcome (ls_allocs s) in
        if \<not> ok then (- ENOMEM, s\<lparr>ls_allocs := h\<rparr>)
        else (0, s\<lparr>dent_fs_lock := (dent_fs_lock s)
                      (dent \<mapsto> \<lparr>posix_locks = [], posix_lock_requests = []\<rparr>),
                   g_fs_lock_list := dent # g_fs_lock_list s,
                   dent_refs := (dent_refs s)(dent := dent_refs s dent + 1),
                   ls_allocs := h\<rparr>)
      else (0, s))"

definition fs_lock_gc :: "lock_state \<Rightarrow> nat \<Rightarrow> lock_state" where
  "fs_lock_gc s dent =
     (case dent_fs_lock s dent of
        None \<Rightarrow> s
      | Some fl \<Rightarrow>
          if posix_locks fl = [] \<and> posix_lock_requests fl = [] then
            s\<lparr>dent_fs_lock := (dent_fs_lock s)(dent := None),
              g_fs_lock_list := remove1 dent (g_fs_lock_list s),
              dent_refs := (dent_refs s)(dent := dent_refs s dent - 1)\<rparr>
          else s)"

text \<open>The new request goes to the front of the list; the result is its identity.\<close>

definition posix_lock_add_request ::
  "lock_state \<Rightarrow> nat \<Rightarrow> fs_lock \<Rightarrow> posix_lock \<Rightarrow> int \<times> nat option \<times> lock_state" where
  "posix_lock_add_request s dent fl pl =
     (let (ok, h) = malloc_outcome (ls_allocs s) in
      if \<not> ok then (- ENOMEM, None, s\<lparr>ls_allocs := h\<rparr>)
      else
        let req = \<lparr>req_id = ls_next_id s, req_pl = pl, req_notify = None\<rparr> in
        (0, Some (ls_next_id s),
         s\<lparr>dent_fs_lock := (dent_fs_lock s)
              (dent \<mapsto> fl\<lparr>posix_lock_requests := req # posix_lock_requests fl\<rparr>),
           ls_next_id := ls_next_id s + 1, ls_allocs := h\<rparr>))"

definition notify_waiter :: "posix_lock_request \<Rightarrow> int \<Rightarrow> notification" where
  "notify_waiter req result =
     (case req_notify req of
        None \<Rightarrow> Indeterminate (req_id req) result
      | Some n \<Rightarrow>
          if nf_vmid n = 0 then
            (case nf_event n of None \<Rightarrow> Assert_failed (req_id req) | Some ev \<Rightarrow> Event_set ev result)
          else
            (case nf_event n of
               None \<Rightarrow> Ipc_response (nf_vmid n) (ucast (nf_seq n)) result
             | Some ev \<Rightarrow> Assert_failed (req_id req)))"

text \<open>
  One pass over the pending requests: the locks, the requests left, the notifications sent, the
  allocation outcomes left and whether a request was processed.
\<close>

fun process_pass ::
  "allocs \<Rightarrow> posix_lock list \<Rightarrow> posix_lock_request list \<Rightarrow>
     posix_lock list \<times> posix_lock_request list \<times> notification list \<times> allocs \<times> bool" where
  "process_pass h locks [] = (locks, [], [], h, False)"
| "process_pass h locks (req # rest) =
     (if posix_lock_find_conflict locks (req_pl req) \<noteq> None then
        (let (locks', reqs', out, h', changed) = process_pass h locks rest
         in (locks', req # reqs', out, h', changed))
      else
        (let (result, locks1, h1) = do_posix_lock_set h locks (req_pl req);
             (locks', reqs', out, h', changed) = process_pass h1 locks1 rest
         in (locks', reqs', notify_waiter req result # out, h', True)))"

lemma process_pass_length:
  "process_pass h locks reqs = (locks', reqs', out, h', changed) \<Longrightarrow>
   length reqs' \<le> length reqs \<and> (changed \<longrightarrow> length reqs' < length reqs)"
  by (induction h locks reqs arbitrary: locks' reqs' out h' changed rule: process_pass.induct)
    (fastforce split: if_splits prod.splits)+

function posix_lock_process_requests ::
  "allocs \<Rightarrow> posix_lock list \<Rightarrow> posix_lock_request list \<Rightarrow>
     posix_lock list \<times> posix_lock_request list \<times> notification list \<times> allocs" where
  "posix_lock_process_requests h locks reqs =
     (let (locks', reqs', out, h', changed) = process_pass h locks reqs in
      if changed then
        (let (locks'', reqs'', out', h'') = posix_lock_process_requests h' locks' reqs'
         in (locks'', reqs'', out @ out', h''))
      else (locks', reqs', out, h'))"
  by pat_completeness auto
termination
  by (relation "measure (\<lambda>(h, locks, reqs). length reqs)") (simp_all, metis process_pass_length)

declare posix_lock_process_requests.simps [simp del]

text \<open>Process the requests of the object of a dentry and store what is left.\<close>

definition process_dentry :: "lock_state \<Rightarrow> nat \<Rightarrow> fs_lock \<Rightarrow> lock_state" where
  "process_dentry s dent fl =
     (let (locks, reqs, out, h) =
            posix_lock_process_requests (ls_allocs s) (posix_locks fl) (posix_lock_requests fl)
      in s\<lparr>dent_fs_lock := (dent_fs_lock s)
              (dent \<mapsto> fl\<lparr>posix_locks := locks, posix_lock_requests := reqs\<rparr>),
           ls_allocs := h, ls_trace := ls_trace s @ out\<rparr>)"

definition posix_lock_set_or_add_request ::
  "lock_state \<Rightarrow> nat \<Rightarrow> posix_lock \<Rightarrow> bool \<Rightarrow> int \<times> nat option \<times> lock_state" where
  "posix_lock_set_or_add_request s dent pl wait =
     (let (ret, s1) = find_fs_lock s dent (pl_type pl \<noteq> F_UNLCK) in
      if ret < 0 then (ret, None, s1)
      else case dent_fs_lock s1 dent of
        None \<Rightarrow> (0, None, s1)
      | Some fl \<Rightarrow>
          if pl_type pl \<noteq> F_UNLCK \<and> posix_lock_find_conflict (posix_locks fl) pl \<noteq> None then
            (if \<not> wait then (- EAGAIN, None, fs_lock_gc s1 dent)
             else
               let (ret, req, s2) = posix_lock_add_request s1 dent fl pl
               in (ret, req, fs_lock_gc s2 dent))
          else
            (let (ret, locks, h) = do_posix_lock_set (ls_allocs s1) (posix_locks fl) pl;
                 s2 = s1\<lparr>ls_allocs := h\<rparr>;
                 fl' = fl\<lparr>posix_locks := locks\<rparr>
             in if ret < 0 then
                  (ret, None, fs_lock_gc (s2\<lparr>dent_fs_lock := (dent_fs_lock s2)(dent \<mapsto> fl')\<rparr>) dent)
                else (0, None, fs_lock_gc (process_dentry s2 dent fl') dent)))"

definition set_notify :: "nat \<Rightarrow> notify \<Rightarrow> lock_state \<Rightarrow> nat \<Rightarrow> lock_state" where
  "set_notify rid n s dent =
     (case dent_fs_lock s dent of
        None \<Rightarrow> s
      | Some fl \<Rightarrow>
          s\<lparr>dent_fs_lock := (dent_fs_lock s)
              (dent \<mapsto> fl\<lparr>posix_lock_requests :=
                 map (\<lambda>r. if req_id r = rid then r\<lparr>req_notify := Some n\<rparr> else r)
                   (posix_lock_requests fl)\<rparr>)\<rparr>)"

text \<open>
  \<^verbatim>\<open>posix_lock_set\<close>. The call returns, or the thread waits for its event with the lock released;
  what it returns then is \<open>posix_lock_set_after_wait\<close> of the result of the wait and the result the
  notifier stored.
\<close>

datatype set_outcome = Returned int | Waiting nat

definition posix_lock_set_client ::
  "lock_env \<Rightarrow> lock_state \<Rightarrow> nat \<Rightarrow> posix_lock \<Rightarrow> bool \<Rightarrow> int \<times> lock_state" where
  "posix_lock_set_client env s dent pl wait =
     (let s1 = (if pl_type pl = F_RDLCK \<or> pl_type pl = F_WRLCK
                then s\<lparr>maybe_has_fs_locks := (maybe_has_fs_locks s)(dent := True)\<rparr> else s) in
      if \<not> (pl_type pl = F_RDLCK \<or> pl_type pl = F_WRLCK) \<and> \<not> maybe_has_fs_locks s dent
      then (0, s1)
      else case env_abs_path env dent of
        Inl ret \<Rightarrow> (ret, s1)
      | Inr path \<Rightarrow> (env_ipc_set env path pl wait, s1))"

definition posix_lock_set ::
  "lock_env \<Rightarrow> lock_state \<Rightarrow> nat \<Rightarrow> posix_lock \<Rightarrow> bool \<Rightarrow> set_outcome \<times> lock_state" where
  "posix_lock_set env s dent pl wait =
     (if env_leader_vmid env \<noteq> 0 then
        (let (ret, s') = posix_lock_set_client env s dent pl wait in (Returned ret, s'))
      else
        let (ret, req, s1) = posix_lock_set_or_add_request s dent pl wait in
        if ret < 0 then (Returned ret, s1)
        else case req of
          None \<Rightarrow> (Returned 0, s1)
        | Some rid \<Rightarrow>
            (case env_event_create env of
               Inl ret \<Rightarrow> (Returned ret, s1)
             | Inr ev \<Rightarrow>
                 (Waiting ev,
                  set_notify rid \<lparr>nf_vmid = 0, nf_seq = 0, nf_event = Some ev\<rparr> s1 dent)))"

definition posix_lock_set_after_wait :: "int \<Rightarrow> int \<Rightarrow> int" where
  "posix_lock_set_after_wait wait_ret result = (if wait_ret < 0 then wait_ret else result)"

text \<open>
  \<^verbatim>\<open>posix_lock_set_from_ipc\<close> in its two critical parts: the call to
  \<^verbatim>\<open>posix_lock_set_or_add_request\<close> under the lock, and what follows after the lock is released.
  The first part returns the dentry and request to be filled in, if any, and otherwise sends the
  response.
\<close>

definition set_from_ipc_locked ::
  "lock_env \<Rightarrow> lock_state \<Rightarrow> string \<Rightarrow> posix_lock \<Rightarrow> bool \<Rightarrow> u32 \<Rightarrow> u64 \<Rightarrow>
     (nat \<times> nat) option \<times> lock_state" where
  "set_from_ipc_locked env s path pl wait vmid seq =
     (case env_path_lookup env path of
        Inl ret \<Rightarrow> (None, s\<lparr>ls_trace := ls_trace s @ [Ipc_response vmid seq ret]\<rparr>)
      | Inr dent \<Rightarrow>
          (let (ret, req, s1) = posix_lock_set_or_add_request s dent pl wait in
           case req of
             Some rid \<Rightarrow> (Some (dent, rid), s1)
           | None \<Rightarrow> (None, s1\<lparr>ls_trace := ls_trace s1 @ [Ipc_response vmid seq ret]\<rparr>)))"

definition set_from_ipc_notify ::
  "lock_state \<Rightarrow> (nat \<times> nat) option \<Rightarrow> u32 \<Rightarrow> u64 \<Rightarrow> lock_state" where
  "set_from_ipc_notify s pending vmid seq =
     (case pending of
        None \<Rightarrow> s
      | Some (dent, rid) \<Rightarrow>
          set_notify rid \<lparr>nf_vmid = vmid, nf_seq = ucast seq, nf_event = None\<rparr> s dent)"

definition posix_lock_set_from_ipc ::
  "lock_env \<Rightarrow> lock_state \<Rightarrow> string \<Rightarrow> posix_lock \<Rightarrow> bool \<Rightarrow> u32 \<Rightarrow> u64 \<Rightarrow> lock_state" where
  "posix_lock_set_from_ipc env s path pl wait vmid seq =
     (let (pending, s1) = set_from_ipc_locked env s path pl wait vmid seq
      in set_from_ipc_notify s1 pending vmid seq)"

definition posix_lock_get ::
  "lock_env \<Rightarrow> lock_state \<Rightarrow> nat \<Rightarrow> posix_lock \<Rightarrow> posix_lock \<Rightarrow> int \<times> posix_lock \<times> lock_state" where
  "posix_lock_get env s dent pl out_pl =
     (if env_leader_vmid env \<noteq> 0 then
        (case env_abs_path env dent of
           Inl ret \<Rightarrow> (ret, out_pl, s)
         | Inr path \<Rightarrow>
             (let (ret, pl') = env_ipc_get env path pl
              in (ret, (if ret = 0 then pl' else out_pl), s)))
      else
        let (ret, s1) = find_fs_lock s dent False in
        if ret < 0 then (ret, out_pl, fs_lock_gc s1 dent)
        else
          let conflict = (case dent_fs_lock s1 dent of
                None \<Rightarrow> None | Some fl \<Rightarrow> posix_lock_find_conflict (posix_locks fl) pl)
          in (0,
              (case conflict of
                 Some c \<Rightarrow> out_pl\<lparr>pl_type := pl_type c, pl_start := pl_start c,
                                  pl_end := pl_end c, pl_pid := pl_pid c\<rparr>
               | None \<Rightarrow> out_pl\<lparr>pl_type := F_UNLCK\<rparr>),
              fs_lock_gc s1 dent))"

definition posix_lock_get_from_ipc ::
  "lock_env \<Rightarrow> lock_state \<Rightarrow> string \<Rightarrow> posix_lock \<Rightarrow> posix_lock \<Rightarrow> int \<times> posix_lock \<times> lock_state" where
  "posix_lock_get_from_ipc env s path pl out_pl =
     (case env_path_lookup env path of
        Inl ret \<Rightarrow> (ret, out_pl, s)
      | Inr dent \<Rightarrow> posix_lock_get env s dent pl out_pl)"

text \<open>The assertion that a request that is dropped has no event.\<close>

definition assert_no_event :: "posix_lock_request \<Rightarrow> notification list" where
  "assert_no_event req =
     (case req_notify req of
        None \<Rightarrow> [Indeterminate (req_id req) 0]
      | Some n \<Rightarrow> if nf_event n \<noteq> None then [Assert_failed (req_id req)] else [])"

definition posix_lock_clear_pid_from_dentry :: "lock_state \<Rightarrow> nat \<Rightarrow> u32 \<Rightarrow> int \<times> lock_state" where
  "posix_lock_clear_pid_from_dentry s dent pid =
     (let (ret, s1) = find_fs_lock s dent False in
      if ret < 0 then (ret, s1)
      else case dent_fs_lock s1 dent of
        None \<Rightarrow> (0, s1)
      | Some fl \<Rightarrow>
          (let changed = (\<exists>l \<in> set (posix_locks fl). pl_pid l = pid);
               fl' = fl\<lparr>posix_locks := filter (\<lambda>l. pl_pid l \<noteq> pid) (posix_locks fl),
                       posix_lock_requests :=
                         filter (\<lambda>r. pl_pid (req_pl r) \<noteq> pid) (posix_lock_requests fl)\<rparr>;
               out = concat (map assert_no_event
                       (filter (\<lambda>r. pl_pid (req_pl r) = pid) (posix_lock_requests fl)));
               s2 = s1\<lparr>dent_fs_lock := (dent_fs_lock s1)(dent \<mapsto> fl'), ls_trace := ls_trace s1 @ out\<rparr>
           in if changed then (0, fs_lock_gc (process_dentry s2 dent fl') dent)
              else (0, s2)))"

fun clear_pid_loop :: "lock_state \<Rightarrow> u32 \<Rightarrow> nat list \<Rightarrow> int \<times> lock_state" where
  "clear_pid_loop s pid [] = (0, s)"
| "clear_pid_loop s pid (dent # dents) =
     (let (ret, s') = posix_lock_clear_pid_from_dentry s dent pid
      in if ret < 0 then (ret, s') else clear_pid_loop s' pid dents)"

definition posix_lock_clear_pid :: "lock_env \<Rightarrow> lock_state \<Rightarrow> u32 \<Rightarrow> int \<times> lock_state" where
  "posix_lock_clear_pid env s pid =
     (if env_leader_vmid env \<noteq> 0 then (env_ipc_clear env pid, s)
      else clear_pid_loop s pid (g_fs_lock_list s))"

section \<open>Invariant\<close>

definition request_ok :: "posix_lock_request \<Rightarrow> bool" where
  "request_ok r \<longleftrightarrow> pl_start (req_pl r) \<le> pl_end (req_pl r) \<and> pl_type (req_pl r) \<noteq> F_UNLCK"

definition requests_blocked :: "posix_lock list \<Rightarrow> posix_lock_request list \<Rightarrow> bool" where
  "requests_blocked locks reqs \<longleftrightarrow>
     (\<forall>r \<in> set reqs. posix_lock_find_conflict locks (req_pl r) \<noteq> None)"

definition table_ok :: "posix_lock list \<Rightarrow> posix_lock_request list \<Rightarrow> bool" where
  "table_ok locks reqs \<longleftrightarrow>
     locks_wf locks \<and> exclusive (lock_at locks) \<and> (\<forall>r \<in> set reqs. request_ok r)"

definition fs_lock_ok :: "fs_lock \<Rightarrow> bool" where
  "fs_lock_ok fl \<longleftrightarrow> table_ok (posix_locks fl) (posix_lock_requests fl) \<and>
     requests_blocked (posix_locks fl) (posix_lock_requests fl)"

definition objects_ok :: "lock_state \<Rightarrow> bool" where
  "objects_ok s \<longleftrightarrow> distinct (g_fs_lock_list s) \<and> set (g_fs_lock_list s) = dom (dent_fs_lock s) \<and>
     dent_refs s = (\<lambda>d. of_bool (d \<in> dom (dent_fs_lock s)))"

definition lock_inv :: "lock_state \<Rightarrow> bool" where
  "lock_inv s \<longleftrightarrow> objects_ok s \<and>
     (\<forall>d fl. dent_fs_lock s d = Some fl \<longrightarrow> fs_lock_ok fl \<and> posix_locks fl \<noteq> [])"

section \<open>Processing requests\<close>

lemma table_ok_set:
  assumes "table_ok locks reqs" "pl_start pl \<le> pl_end pl"
    and "pl_type pl = F_UNLCK \<or> posix_lock_find_conflict locks pl = None"
    and "do_posix_lock_set h locks pl = (ret, locks', h')"
  shows "table_ok locks' reqs"
  using assms posix.invar_update [OF _ assms(2,4)] posix.exclusive_update [OF _ assms(2,4)]
  by (auto simp: table_ok_def)

lemma table_ok_Cons: "table_ok locks (r # reqs) \<longleftrightarrow> request_ok r \<and> table_ok locks reqs"
  by (auto simp: table_ok_def)

lemma process_pass_ok:
  assumes "table_ok locks reqs" "process_pass h locks reqs = (locks', reqs', out, h', changed)"
  shows "table_ok locks' reqs'" and "\<not> changed \<Longrightarrow> locks' = locks \<and> requests_blocked locks' reqs'"
proof -
  have "table_ok locks' reqs' \<and> (\<not> changed \<longrightarrow> locks' = locks \<and> requests_blocked locks' reqs')"
    using assms
  proof (induction h locks reqs arbitrary: locks' reqs' out h' changed rule: process_pass.induct)
    case (1 h locks)
    then show ?case by (simp add: requests_blocked_def)
  next
    case (2 h locks req rest)
    have ok: "request_ok req" "table_ok locks rest" using "2.prems"(1) by (simp_all add: table_ok_Cons)
    show ?case
    proof (cases "posix_lock_find_conflict locks (req_pl req) = None")
      case False
      obtain l r n g c where p: "process_pass h locks rest = (l, r, n, g, c)"
        by (metis prod_cases5)
      have ih: "table_ok l r \<and> (\<not> c \<longrightarrow> l = locks \<and> requests_blocked l r)"
        using "2.IH"(1) [OF False ok(2) p] .
      have res: "locks' = l" "reqs' = req # r" "changed = c"
        using "2.prems"(2) False p by auto
      show ?thesis using ih ok False by (auto simp: res table_ok_Cons requests_blocked_def)
    next
      case True
      obtain ret l1 h1 where d: "do_posix_lock_set h locks (req_pl req) = (ret, l1, h1)"
        by (metis prod_cases3)
      obtain l r n g c where p: "process_pass h1 l1 rest = (l, r, n, g, c)"
        by (metis prod_cases5)
      have "table_ok l1 rest" 
        by (rule table_ok_set [OF ok(2) _ _ d]) (use ok(1) True in \<open>simp_all add: request_ok_def\<close>)
      then have "table_ok l r" using "2.IH"(2) [OF _ d [symmetric] refl refl, of l r n g c] True p by simp
      moreover have "locks' = l" "reqs' = r" "changed"
        using "2.prems"(2) True d p by auto
      ultimately show ?thesis by simp
    qed
  qed
  then show "table_ok locks' reqs'" and "\<not> changed \<Longrightarrow> locks' = locks \<and> requests_blocked locks' reqs'"
    by auto
qed

lemma process_requests_ok:
  assumes "table_ok locks reqs" "posix_lock_process_requests h locks reqs = (locks', reqs', out, h')"
  shows "table_ok locks' reqs' \<and> requests_blocked locks' reqs'"
  using assms
proof (induction h locks reqs arbitrary: locks' reqs' out h' rule: posix_lock_process_requests.induct)
  case (1 h locks reqs)
  obtain l r n g c where p: "process_pass h locks reqs = (l, r, n, g, c)" by (metis prod_cases5)
  note ok = process_pass_ok [OF "1.prems"(1) p]
  show ?case
  proof (cases c)
    case True
    obtain l2 r2 n2 g2 where q: "posix_lock_process_requests g l r = (l2, r2, n2, g2)"
      by (metis prod_cases4)
    have "table_ok l2 r2 \<and> requests_blocked l2 r2"
      using "1.IH" [OF p [symmetric] refl refl refl refl True ok(1) q] .
    moreover have "locks' = l2" "reqs' = r2"
      using "1.prems"(2) p q True by (auto simp: posix_lock_process_requests.simps [of h])
    ultimately show ?thesis by simp
  next
    case False
    then have "locks' = l" "reqs' = r"
      using "1.prems"(2) p by (auto simp: posix_lock_process_requests.simps [of h])
    with ok False show ?thesis by auto
  qed
qed

definition answers :: "posix_lock_request \<Rightarrow> notification \<Rightarrow> bool" where
  "answers r n \<longleftrightarrow> n = notify_waiter r 0 \<or> n = notify_waiter r (- ENOMEM)"

lemma do_set_answers:
  "do_posix_lock_set h locks pl = (ret, locks', h') \<Longrightarrow> answers r (notify_waiter r ret)"
  using do_posix_lock_set_ret [of h locks pl] by (auto simp: answers_def)

lemma process_pass_answers:
  assumes "process_pass h locks reqs = (locks', reqs', out, h', changed)"
  shows "\<exists>answered. mset reqs = mset answered + mset reqs' \<and> list_all2 answers answered out"
  using assms
proof (induction h locks reqs arbitrary: locks' reqs' out h' changed rule: process_pass.induct)
  case (1 h locks)
  then show ?case by simp
next
  case (2 h locks req rest)
  show ?case
  proof (cases "posix_lock_find_conflict locks (req_pl req) = None")
    case False
    obtain l r n g c where p: "process_pass h locks rest = (l, r, n, g, c)" by (metis prod_cases5)
    obtain a where "mset rest = mset a + mset r" "list_all2 answers a n"
      using "2.IH"(1) [of l r n g c] False p by auto
    moreover have "reqs' = req # r" "out = n" using "2.prems" False p by auto
    ultimately show ?thesis by (intro exI [of _ a]) simp
  next
    case True
    obtain ret l1 h1 where d: "do_posix_lock_set h locks (req_pl req) = (ret, l1, h1)"
      by (metis prod_cases3)
    obtain l r n g c where p: "process_pass h1 l1 rest = (l, r, n, g, c)" by (metis prod_cases5)
    obtain a where "mset rest = mset a + mset r" "list_all2 answers a n"
      using "2.IH"(2) [OF _ d [symmetric] refl refl, of l r n g c] True p by auto
    moreover have "reqs' = r" "out = notify_waiter req ret # n" using "2.prems" True d p by auto
    ultimately show ?thesis
      using do_set_answers [OF d, of req] by (intro exI [of _ "req # a"]) simp
  qed
qed

lemma process_requests_answers:
  assumes "posix_lock_process_requests h locks reqs = (locks', reqs', out, h')"
  shows "\<exists>answered. mset reqs = mset answered + mset reqs' \<and> list_all2 answers answered out"
  using assms
proof (induction h locks reqs arbitrary: locks' reqs' out h' rule: posix_lock_process_requests.induct)
  case (1 h locks reqs)
  obtain l r n g c where p: "process_pass h locks reqs = (l, r, n, g, c)" by (metis prod_cases5)
  obtain a where a: "mset reqs = mset a + mset r" "list_all2 answers a n"
    using process_pass_answers [OF p] by blast
  show ?case
  proof (cases c)
    case True
    obtain l2 r2 n2 g2 where q: "posix_lock_process_requests g l r = (l2, r2, n2, g2)"
      by (metis prod_cases4)
    obtain b where b: "mset r = mset b + mset r2" "list_all2 answers b n2"
      using "1.IH" [OF p [symmetric] refl refl refl refl True q] by blast
    have "reqs' = r2" "out = n @ n2"
      using "1.prems" p q True by (auto simp: posix_lock_process_requests.simps [of h])
    with a b show ?thesis by (intro exI [of _ "a @ b"]) (auto intro: list_all2_appendI)
  next
    case False
    then have "reqs' = r" "out = n"
      using "1.prems" p by (auto simp: posix_lock_process_requests.simps [of h])
    with a show ?thesis by blast
  qed
qed

section \<open>The operations keep the invariant\<close>

text \<open>
  While an operation works on the object of one dentry, that object may have no lock; the garbage
  collection at the end of the operation removes it if it has no request either.
\<close>

definition lock_inv_at :: "nat \<Rightarrow> lock_state \<Rightarrow> bool" where
  "lock_inv_at dent s \<longleftrightarrow> objects_ok s \<and>
     (\<forall>d fl. dent_fs_lock s d = Some fl \<longrightarrow> fs_lock_ok fl \<and> (d \<noteq> dent \<longrightarrow> posix_locks fl \<noteq> []))"

lemma lock_inv_at: "lock_inv s \<Longrightarrow> lock_inv_at dent s"
  by (auto simp: lock_inv_def lock_inv_at_def)

lemma blocked_needs_lock: "requests_blocked [] reqs \<Longrightarrow> reqs = []"
  by (cases reqs) (auto simp: requests_blocked_def)

lemma objects_ok_frame [simp]:
  "objects_ok (s\<lparr>ls_allocs := h\<rparr>) = objects_ok s"
  "objects_ok (s\<lparr>ls_trace := t\<rparr>) = objects_ok s"
  "objects_ok (s\<lparr>ls_next_id := i\<rparr>) = objects_ok s"
  "objects_ok (s\<lparr>maybe_has_fs_locks := m\<rparr>) = objects_ok s"
  by (simp_all add: objects_ok_def)

lemma objects_ok_add:
  "objects_ok s \<Longrightarrow> dent_fs_lock s dent = None \<Longrightarrow>
   objects_ok (s\<lparr>dent_fs_lock := (dent_fs_lock s)(dent \<mapsto> fl),
     g_fs_lock_list := dent # g_fs_lock_list s,
     dent_refs := (dent_refs s)(dent := dent_refs s dent + 1)\<rparr>)"
  by (auto simp: objects_ok_def fun_eq_iff domIff)

lemma objects_ok_update:
  "objects_ok s \<Longrightarrow> dent_fs_lock s dent = Some fl0 \<Longrightarrow>
   objects_ok (s\<lparr>dent_fs_lock := (dent_fs_lock s)(dent \<mapsto> fl)\<rparr>)"
  by (auto simp: objects_ok_def fun_eq_iff insert_absorb domI)

lemma objects_ok_remove:
  "objects_ok s \<Longrightarrow> dent_fs_lock s dent = Some fl0 \<Longrightarrow>
   objects_ok (s\<lparr>dent_fs_lock := (dent_fs_lock s)(dent := None),
     g_fs_lock_list := remove1 dent (g_fs_lock_list s),
     dent_refs := (dent_refs s)(dent := dent_refs s dent - 1)\<rparr>)"
  by (auto simp: objects_ok_def fun_eq_iff domI)

lemma fs_lock_gc_inv:
  assumes "lock_inv_at dent s"
  shows "lock_inv (fs_lock_gc s dent)"
proof (cases "\<exists>fl. dent_fs_lock s dent = Some fl \<and> posix_locks fl = []")
  case True
  then obtain fl where fl: "dent_fs_lock s dent = Some fl" "posix_locks fl = []" by blast
  have "requests_blocked (posix_locks fl) (posix_lock_requests fl)"
    using assms fl(1) by (simp add: lock_inv_at_def fs_lock_ok_def)
  then have "posix_lock_requests fl = []" using fl(2) blocked_needs_lock by simp
  with fl assms objects_ok_remove [OF _ fl(1)] show ?thesis
    by (auto simp: fs_lock_gc_def lock_inv_at_def lock_inv_def split: if_splits)
next
  case False
  then have "fs_lock_gc s dent = s" by (auto simp: fs_lock_gc_def split: option.splits)
  with False assms show ?thesis by (auto simp: lock_inv_at_def lock_inv_def)
qed

lemma fs_lock_gc_id: "lock_inv s \<Longrightarrow> fs_lock_gc s dent = s"
  by (auto simp: fs_lock_gc_def lock_inv_def split: option.splits)

lemma lock_inv_frame [simp]:
  "lock_inv (s\<lparr>ls_allocs := h\<rparr>) = lock_inv s"
  "lock_inv (s\<lparr>ls_trace := t\<rparr>) = lock_inv s"
  "lock_inv (s\<lparr>maybe_has_fs_locks := m\<rparr>) = lock_inv s"
  "lock_inv_at dent (s\<lparr>ls_allocs := h\<rparr>) = lock_inv_at dent s"
  "lock_inv_at dent (s\<lparr>ls_trace := t\<rparr>) = lock_inv_at dent s"
  "lock_inv_at dent (s\<lparr>ls_next_id := i\<rparr>) = lock_inv_at dent s"
  by (simp_all add: lock_inv_def lock_inv_at_def)

lemma find_fs_lock_inv:
  assumes "lock_inv s" "find_fs_lock s dent create = (ret, s')"
  shows "lock_inv_at dent s'" and "ret < 0 \<Longrightarrow> lock_inv s'" and "\<not> create \<Longrightarrow> s' = s \<and> ret = 0"
proof -
  have "table_ok [] []" by (simp add: table_ok_def exclusive_def lock_at_def)
  then have "fs_lock_ok \<lparr>posix_locks = [], posix_lock_requests = []\<rparr>"
    by (simp add: fs_lock_ok_def requests_blocked_def)
  then show "lock_inv_at dent s'"
    using assms objects_ok_add [of s dent]
    by (auto simp: find_fs_lock_def lock_inv_at_def lock_inv_def split: if_splits prod.splits)
  show "ret < 0 \<Longrightarrow> lock_inv s'" and "\<not> create \<Longrightarrow> s' = s \<and> ret = 0"
    using assms by (auto simp: find_fs_lock_def split: if_splits prod.splits)
qed

lemma lock_inv_at_update:
  assumes "lock_inv_at dent s" "dent_fs_lock s dent = Some fl0" "fs_lock_ok fl"
  shows "lock_inv_at dent (s\<lparr>dent_fs_lock := (dent_fs_lock s)(dent \<mapsto> fl)\<rparr>)"
  using assms objects_ok_update [OF _ assms(2)] by (auto simp: lock_inv_at_def)

lemma process_dentry_inv:
  assumes inv: "lock_inv_at dent s" and fl0: "dent_fs_lock s dent = Some fl0"
    and ok: "table_ok (posix_locks fl) (posix_lock_requests fl)"
  shows "lock_inv_at dent (process_dentry s dent fl)"
proof -
  obtain l r n h where p:
    "posix_lock_process_requests (ls_allocs s) (posix_locks fl) (posix_lock_requests fl) = (l, r, n, h)"
    by (metis prod_cases4)
  have "fs_lock_ok (fl\<lparr>posix_locks := l, posix_lock_requests := r\<rparr>)"
    using process_requests_ok [OF ok p] by (simp add: fs_lock_ok_def)
  from lock_inv_at_update [OF inv fl0 this] show ?thesis
    by (simp add: process_dentry_def p lock_inv_at_def)
qed

lemma add_request_inv:
  assumes inv: "lock_inv_at dent s" and fl: "dent_fs_lock s dent = Some fl"
    and pl: "pl_start pl \<le> pl_end pl" "pl_type pl \<noteq> F_UNLCK"
      "posix_lock_find_conflict (posix_locks fl) pl \<noteq> None"
    and add: "posix_lock_add_request s dent fl pl = (ret, req, s')"
  shows "lock_inv_at dent s'"
proof -
  obtain ok h where m: "malloc_outcome (ls_allocs s) = (ok, h)" by fastforce
  let ?req = "\<lparr>req_id = ls_next_id s, req_pl = pl, req_notify = None\<rparr>"
  let ?fl = "fl\<lparr>posix_lock_requests := ?req # posix_lock_requests fl\<rparr>"
  have "fs_lock_ok fl" using inv fl by (simp add: lock_inv_at_def)
  then have "fs_lock_ok ?fl"
    using pl by (auto simp: fs_lock_ok_def table_ok_def requests_blocked_def request_ok_def)
  from lock_inv_at_update [OF inv fl this] add inv show ?thesis
    by (auto simp: posix_lock_add_request_def m lock_inv_at_def split: if_splits)
qed

lemma set_or_add_request_inv:
  assumes inv: "lock_inv s" and range: "pl_start pl \<le> pl_end pl"
    and set: "posix_lock_set_or_add_request s dent pl wait = (ret, req, s')"
  shows "lock_inv s'"
proof -
  obtain r1 s1 where f: "find_fs_lock s dent (pl_type pl \<noteq> F_UNLCK) = (r1, s1)" by fastforce
  note find = find_fs_lock_inv [OF inv f]
  note set' = set [unfolded posix_lock_set_or_add_request_def f Let_def prod.case]
  show ?thesis
  proof (cases "r1 < 0 \<or> dent_fs_lock s1 dent = None")
    case True
    have "lock_inv s1" if "dent_fs_lock s1 dent = None"
      using find(1) that unfolding lock_inv_at_def lock_inv_def by (metis option.distinct(1))
    then show ?thesis
      using True set' find(2) by (auto split: if_splits)
  next
    case False
    then obtain fl where fl: "dent_fs_lock s1 dent = Some fl" by blast
    have ok: "table_ok (posix_locks fl) (posix_lock_requests fl)"
      "requests_blocked (posix_locks fl) (posix_lock_requests fl)"
      using find(1) fl by (auto simp: lock_inv_at_def fs_lock_ok_def)
    show ?thesis
    proof (cases "pl_type pl \<noteq> F_UNLCK \<and> posix_lock_find_conflict (posix_locks fl) pl \<noteq> None")
      case True
      obtain r2 q2 s2 where a: "posix_lock_add_request s1 dent fl pl = (r2, q2, s2)"
        by (metis prod_cases3)
      have "lock_inv_at dent s2" using True by (intro add_request_inv [OF find(1) fl range _ _ a]) auto
      then show ?thesis
        using set' False fl True find(1) a fs_lock_gc_inv by (auto split: if_splits)
    next
      case no: False
      obtain r2 l h where d: "do_posix_lock_set (ls_allocs s1) (posix_locks fl) pl = (r2, l, h)"
        by (metis prod_cases3)
      have t: "table_ok l (posix_lock_requests fl)"
        using no by (intro table_ok_set [OF ok(1) range _ d]) auto
      have "lock_inv_at dent (s1\<lparr>ls_allocs := h, dent_fs_lock := (dent_fs_lock s1)
          (dent \<mapsto> fl\<lparr>posix_locks := l\<rparr>)\<rparr>)" if "r2 < 0"
      proof -
        have "l = posix_locks fl"
          using d that by (rule_tac do_posix_lock_set_cases [of "ls_allocs s1" "posix_locks fl" pl]) auto
        then have "fs_lock_ok (fl\<lparr>posix_locks := l\<rparr>)" using ok by (simp add: fs_lock_ok_def)
        then show ?thesis
          using lock_inv_at_update [of dent "s1\<lparr>ls_allocs := h\<rparr>" fl] find(1) fl by simp
      qed
      moreover have "lock_inv_at dent (process_dentry (s1\<lparr>ls_allocs := h\<rparr>) dent (fl\<lparr>posix_locks := l\<rparr>))"
        using t find(1) fl by (intro process_dentry_inv) auto
      ultimately show ?thesis
        using set' False fl no d fs_lock_gc_inv by (auto split: if_splits)
    qed
  qed
qed

lemma set_notify_inv:
  assumes "lock_inv s"
  shows "lock_inv (set_notify rid n s dent)"
proof (cases "dent_fs_lock s dent")
  case None
  with assms show ?thesis by (simp add: set_notify_def)
next
  case (Some fl)
  let ?fl = "fl\<lparr>posix_lock_requests :=
    map (\<lambda>r. if req_id r = rid then r\<lparr>req_notify := Some n\<rparr> else r) (posix_lock_requests fl)\<rparr>"
  have "fs_lock_ok fl" "posix_locks fl \<noteq> []" using assms Some by (auto simp: lock_inv_def)
  then have "fs_lock_ok ?fl"
    by (auto simp: fs_lock_ok_def table_ok_def requests_blocked_def request_ok_def)
  then show ?thesis
    using assms Some objects_ok_update [of s dent fl ?fl] \<open>posix_locks fl \<noteq> []\<close>
    by (auto simp: lock_inv_def set_notify_def)
qed

lemma posix_lock_set_inv:
  assumes "lock_inv s" "pl_start pl \<le> pl_end pl" "posix_lock_set env s dent pl wait = (r, s')"
  shows "lock_inv s'"
proof -
  obtain ret req s1 where q: "posix_lock_set_or_add_request s dent pl wait = (ret, req, s1)"
    by (metis prod_cases3)
  have "lock_inv s1" using set_or_add_request_inv [OF assms(1,2) q] .
  with assms q show ?thesis
    by (auto simp: posix_lock_set_def posix_lock_set_client_def Let_def set_notify_inv
        split: if_splits prod.splits option.splits sum.splits)
qed

lemma set_from_ipc_locked_inv:
  assumes "lock_inv s" "pl_start pl \<le> pl_end pl"
    "set_from_ipc_locked env s path pl wait vmid seq = (pending, s')"
  shows "lock_inv s'"
proof (cases "env_path_lookup env path")
  case (Inl ret)
  with assms show ?thesis by (auto simp: set_from_ipc_locked_def)
next
  case (Inr dent)
  obtain ret req s1 where q: "posix_lock_set_or_add_request s dent pl wait = (ret, req, s1)"
    by (metis prod_cases3)
  have "lock_inv s1" using set_or_add_request_inv [OF assms(1,2) q] .
  with assms q Inr show ?thesis by (auto simp: set_from_ipc_locked_def split: option.splits)
qed

lemma set_from_ipc_notify_inv: "lock_inv s \<Longrightarrow> lock_inv (set_from_ipc_notify s pending vmid seq)"
  by (auto simp: set_from_ipc_notify_def set_notify_inv split: option.splits)

lemma posix_lock_get_state:
  "lock_inv s \<Longrightarrow> posix_lock_get env s dent pl out_pl = (ret, pl', s') \<Longrightarrow> s' = s"
  using find_fs_lock_inv(3) [of s dent False]
  by (auto simp: posix_lock_get_def Let_def fs_lock_gc_id split: if_splits sum.splits prod.splits)

text \<open>Removing the locks of one process from the list.\<close>

lemma lock_at_filter:
  "lock_at (filter (\<lambda>l. pl_pid l \<noteq> pid) locks) q b = (if q = pid then None else lock_at locks q b)"
  by (induction locks) (auto simp: lock_at_def covers_def)

lemma locks_wf_filter: "locks_wf locks \<Longrightarrow> locks_wf (filter P locks)"
  by (auto simp: locks_wf_def sorted_wrt_filter)

lemma table_ok_filter:
  "table_ok locks reqs \<Longrightarrow> table_ok (filter (\<lambda>l. pl_pid l \<noteq> pid) locks) (filter P reqs)"
  by (auto simp: table_ok_def locks_wf_filter exclusive_def lock_at_filter)

definition pid_free :: "u32 \<Rightarrow> posix_lock list \<Rightarrow> posix_lock_request list \<Rightarrow> bool" where
  "pid_free pid locks reqs \<longleftrightarrow>
     (\<forall>l \<in> set locks. pl_pid l \<noteq> pid) \<and> (\<forall>r \<in> set reqs. pl_pid (req_pl r) \<noteq> pid)"

lemma pid_free_lock_at:
  assumes "locks_wf locks"
  shows "(\<forall>l \<in> set locks. pl_pid l \<noteq> pid) \<longleftrightarrow> (\<forall>b. lock_at locks pid b = None)"
proof
  assume none: "\<forall>b. lock_at locks pid b = None"
  show "\<forall>l \<in> set locks. pl_pid l \<noteq> pid"
  proof
    fix l assume l: "l \<in> set locks"
    then have "covers l (pl_pid l) (pl_start l)"
      using assms by (auto simp: locks_wf_def lock_valid_def covers_def)
    with l none show "pl_pid l \<noteq> pid" unfolding lock_at_None holds_def by blast
  qed
qed (auto simp: lock_at_None holds_def covers_def)

lemma pid_free_set:
  assumes "table_ok locks reqs" "pl_start pl \<le> pl_end pl" "pl_pid pl \<noteq> pid"
    and "\<forall>l \<in> set locks. pl_pid l \<noteq> pid" and d: "do_posix_lock_set h locks pl = (ret, locks', h')"
  shows "\<forall>l \<in> set locks'. pl_pid l \<noteq> pid"
proof -
  have wf: "locks_wf locks" "locks_wf locks'"
    using assms posix.invar_update [OF _ assms(2) d] by (auto simp: table_ok_def)
  have "lock_at locks' pid b = None" for b
    using posix.lookup_update [OF wf(1) assms(2) d] assms(3,4) pid_free_lock_at [OF wf(1)] by auto
  then show ?thesis using pid_free_lock_at [OF wf(2)] by blast
qed

lemma process_pass_pid_free:
  assumes "table_ok locks reqs" "pid_free pid locks reqs"
    "process_pass h locks reqs = (locks', reqs', out, h', changed)"
  shows "pid_free pid locks' reqs'"
  using assms
proof (induction h locks reqs arbitrary: locks' reqs' out h' changed rule: process_pass.induct)
  case (1 h locks)
  then show ?case by simp
next
  case (2 h locks req rest)
  have ok: "request_ok req" "table_ok locks rest" "pid_free pid locks rest" "pl_pid (req_pl req) \<noteq> pid"
    using "2.prems"(1,2) by (simp_all add: table_ok_Cons pid_free_def)
  show ?case
  proof (cases "posix_lock_find_conflict locks (req_pl req) = None")
    case False
    obtain l r n g c where p: "process_pass h locks rest = (l, r, n, g, c)" by (metis prod_cases5)
    have "pid_free pid l r" using "2.IH"(1) [OF False ok(2,3) p] .
    moreover have "locks' = l" "reqs' = req # r" using "2.prems"(3) False p by auto
    ultimately show ?thesis using ok by (simp add: pid_free_def)
  next
    case True
    obtain ret l1 h1 where d: "do_posix_lock_set h locks (req_pl req) = (ret, l1, h1)"
      by (metis prod_cases3)
    obtain l r n g c where p: "process_pass h1 l1 rest = (l, r, n, g, c)" by (metis prod_cases5)
    have range: "pl_start (req_pl req) \<le> pl_end (req_pl req)" using ok(1) by (simp add: request_ok_def)
    have t: "table_ok l1 rest" by (rule table_ok_set [OF ok(2) range _ d]) (use True in simp)
    have f: "pid_free pid l1 rest"
      using pid_free_set [OF ok(2) range ok(4) _ d] ok(3) by (simp add: pid_free_def)
    have "pid_free pid l r" using "2.IH"(2) [OF _ d [symmetric] refl refl t f p] True by simp
    moreover have "locks' = l" "reqs' = r" using "2.prems"(3) True d p by auto
    ultimately show ?thesis by simp
  qed
qed

lemma process_requests_pid_free:
  assumes "table_ok locks reqs" "pid_free pid locks reqs"
    "posix_lock_process_requests h locks reqs = (locks', reqs', out, h')"
  shows "pid_free pid locks' reqs'"
  using assms
proof (induction h locks reqs arbitrary: locks' reqs' out h' rule: posix_lock_process_requests.induct)
  case (1 h locks reqs)
  obtain l r n g c where p: "process_pass h locks reqs = (l, r, n, g, c)" by (metis prod_cases5)
  note ok = process_pass_ok(1) [OF "1.prems"(1) p] process_pass_pid_free [OF "1.prems"(1,2) p]
  show ?case
  proof (cases c)
    case True
    obtain l2 r2 n2 g2 where q: "posix_lock_process_requests g l r = (l2, r2, n2, g2)"
      by (metis prod_cases4)
    have "pid_free pid l2 r2" using "1.IH" [OF p [symmetric] refl refl refl refl True ok q] .
    moreover have "locks' = l2" "reqs' = r2"
      using "1.prems"(3) p q True by (auto simp: posix_lock_process_requests.simps [of h])
    ultimately show ?thesis by simp
  next
    case False
    then have "locks' = l" "reqs' = r"
      using "1.prems"(3) p by (auto simp: posix_lock_process_requests.simps [of h])
    with ok show ?thesis by simp
  qed
qed

lemma process_dentry_lookup:
  assumes "posix_lock_process_requests (ls_allocs s) (posix_locks fl) (posix_lock_requests fl) = (l, r, n, h)"
  shows "dent_fs_lock (process_dentry s dent fl) =
    (dent_fs_lock s)(dent \<mapsto> fl\<lparr>posix_locks := l, posix_lock_requests := r\<rparr>)"
  by (simp add: process_dentry_def assms)

lemma fs_lock_gc_lookup:
  "d \<noteq> dent \<Longrightarrow> dent_fs_lock (fs_lock_gc s dent) d = dent_fs_lock s d"
  "dent_fs_lock (fs_lock_gc s dent) dent = Some fl \<Longrightarrow> dent_fs_lock s dent = Some fl"
  by (auto simp: fs_lock_gc_def split: option.splits if_splits)

lemma clear_pid_from_dentry_spec:
  assumes inv: "lock_inv s" and clear: "posix_lock_clear_pid_from_dentry s dent pid = (ret, s')"
  shows "ret = 0" and "lock_inv s'"
    and "d \<noteq> dent \<Longrightarrow> dent_fs_lock s' d = dent_fs_lock s d"
    and "dent_fs_lock s' dent = Some fl' \<Longrightarrow> pid_free pid (posix_locks fl') (posix_lock_requests fl')"
proof -
  have find: "find_fs_lock s dent False = (0, s)" by (simp add: find_fs_lock_def)
  have "ret = 0 \<and> lock_inv s' \<and> (\<forall>d. d \<noteq> dent \<longrightarrow> dent_fs_lock s' d = dent_fs_lock s d) \<and>
    (\<forall>fl'. dent_fs_lock s' dent = Some fl' \<longrightarrow> pid_free pid (posix_locks fl') (posix_lock_requests fl'))"
  proof (cases "dent_fs_lock s dent")
    case None
    with clear inv find show ?thesis by (auto simp: posix_lock_clear_pid_from_dentry_def)
  next
    case (Some fl)
    define fl1 where "fl1 = fl\<lparr>posix_locks := filter (\<lambda>l. pl_pid l \<noteq> pid) (posix_locks fl),
      posix_lock_requests := filter (\<lambda>r. pl_pid (req_pl r) \<noteq> pid) (posix_lock_requests fl)\<rparr>"
    define s0 where "s0 = s\<lparr>ls_trace := ls_trace s @ concat (map assert_no_event
      (filter (\<lambda>r. pl_pid (req_pl r) = pid) (posix_lock_requests fl)))\<rparr>"
    define s1 where "s1 = s\<lparr>dent_fs_lock := (dent_fs_lock s)(dent \<mapsto> fl1), ls_trace := ls_trace s0\<rparr>"
    have s0: "lock_inv s0" "dent_fs_lock s0 = dent_fs_lock s" using inv by (simp_all add: s0_def)
    have ok: "fs_lock_ok fl" "posix_locks fl \<noteq> []" using inv Some by (auto simp: lock_inv_def)
    have t1: "table_ok (posix_locks fl1) (posix_lock_requests fl1)"
      using ok by (simp add: fl1_def fs_lock_ok_def table_ok_filter)
    have free1: "pid_free pid (posix_locks fl1) (posix_lock_requests fl1)"
      by (auto simp: fl1_def pid_free_def)
    show ?thesis
    proof (cases "\<exists>l \<in> set (posix_locks fl). pl_pid l = pid")
      case True
      obtain l r n h where p: "posix_lock_process_requests (ls_allocs s1) (posix_locks fl1)
          (posix_lock_requests fl1) = (l, r, n, h)" by (metis prod_cases4)
      let ?fl = "fl1\<lparr>posix_locks := l, posix_lock_requests := r\<rparr>"
      have s': "ret = 0" "s' = fs_lock_gc (process_dentry s1 dent fl1) dent"
        using clear find Some True by (auto simp: posix_lock_clear_pid_from_dentry_def Let_def s1_def s0_def fl1_def)
      have dent: "process_dentry s1 dent fl1 = process_dentry s0 dent fl1"
        by (simp add: process_dentry_def s1_def split_def Let_def s0_def)
      have "lock_inv_at dent (process_dentry s0 dent fl1)"
        by (rule process_dentry_inv [OF lock_inv_at [OF s0(1)] _ t1]) (simp add: s0(2) Some)
      then have "lock_inv s'" using s'(2) fs_lock_gc_inv dent by simp
      moreover have "pid_free pid l r" using process_requests_pid_free [OF t1 free1 p] .
      moreover have "dent_fs_lock s' d = dent_fs_lock s d" if "d \<noteq> dent" for d
        using that unfolding s'(2) fs_lock_gc_lookup(1) [OF that] process_dentry_lookup [OF p]
        by (simp add: s1_def)
      moreover have "fl' = ?fl" if "dent_fs_lock s' dent = Some fl'" for fl'
        using fs_lock_gc_lookup(2) [of "process_dentry s1 dent fl1" dent fl'] that
        unfolding s'(2) process_dentry_lookup [OF p] by simp
      ultimately show ?thesis using s'(1) by auto
    next
      case False
      have s': "ret = 0" "s' = s1"
        using clear find Some False by (auto simp: posix_lock_clear_pid_from_dentry_def Let_def s1_def s0_def fl1_def)
      have same: "posix_locks fl1 = posix_locks fl"
        using False by (simp add: fl1_def filter_id_conv)
      have "fs_lock_ok fl1"
        using ok t1 same by (auto simp: fs_lock_ok_def requests_blocked_def fl1_def)
      then have "lock_inv s1"
        using inv ok same Some objects_ok_update [of s dent fl fl1] by (auto simp: lock_inv_def s1_def)
      with s' free1 show ?thesis by (auto simp: s1_def)
    qed
  qed
  then show "ret = 0" "lock_inv s'" "d \<noteq> dent \<Longrightarrow> dent_fs_lock s' d = dent_fs_lock s d"
    "dent_fs_lock s' dent = Some fl' \<Longrightarrow> pid_free pid (posix_locks fl') (posix_lock_requests fl')"
    by auto
qed

lemma clear_pid_loop_spec:
  assumes "lock_inv s" "clear_pid_loop s pid dents = (ret, s')"
    and "\<And>d fl. dent_fs_lock s d = Some fl \<Longrightarrow> d \<notin> set dents \<Longrightarrow>
          pid_free pid (posix_locks fl) (posix_lock_requests fl)"
  shows "ret = 0 \<and> lock_inv s' \<and>
    (\<forall>d fl. dent_fs_lock s' d = Some fl \<longrightarrow> pid_free pid (posix_locks fl) (posix_lock_requests fl))"
  using assms
proof (induction dents arbitrary: s)
  case Nil
  then show ?case by auto
next
  case (Cons dent dents)
  obtain r1 s1 where c: "posix_lock_clear_pid_from_dentry s dent pid = (r1, s1)" by fastforce
  note spec = clear_pid_from_dentry_spec [OF Cons.prems(1) c]
  have loop: "clear_pid_loop s1 pid dents = (ret, s')" using Cons.prems(2) c spec(1) by simp
  show ?case
  proof (rule Cons.IH [OF spec(2) loop])
    fix d fl assume d: "dent_fs_lock s1 d = Some fl" "d \<notin> set dents"
    show "pid_free pid (posix_locks fl) (posix_lock_requests fl)"
    proof (cases "d = dent")
      case True
      with d spec(4) show ?thesis by simp
    next
      case False
      with d spec(3) Cons.prems(3) [of d fl] show ?thesis by simp
    qed
  qed
qed

lemma posix_lock_clear_pid_spec:
  assumes inv: "lock_inv s" and leader: "env_leader_vmid env = 0"
    and clear: "posix_lock_clear_pid env s pid = (ret, s')"
  shows "ret = 0 \<and> lock_inv s' \<and>
    (\<forall>d fl. dent_fs_lock s' d = Some fl \<longrightarrow> pid_free pid (posix_locks fl) (posix_lock_requests fl))"
proof (rule clear_pid_loop_spec [OF inv])
  show "clear_pid_loop s pid (g_fs_lock_list s) = (ret, s')"
    using clear leader by (simp add: posix_lock_clear_pid_def)
  fix d fl assume "dent_fs_lock s d = Some fl" "d \<notin> set (g_fs_lock_list s)"
  then show "pid_free pid (posix_locks fl) (posix_lock_requests fl)"
    using inv by (auto simp: lock_inv_def objects_ok_def)
qed

section \<open>Runs\<close>

text \<open>
  A run of the leader process: the calls of its own threads and of the IPC worker in any order.
  The second part of an IPC request happens outside the lock, so it is a step of its own that may
  come at any later point, for any request.
\<close>

definition init_lock_state :: "allocs \<Rightarrow> lock_state" where
  "init_lock_state h =
     \<lparr>dent_fs_lock = Map.empty, g_fs_lock_list = [], dent_refs = (\<lambda>_. 0),
      maybe_has_fs_locks = (\<lambda>_. False), ls_allocs = h, ls_next_id = 0, ls_trace = []\<rparr>"

inductive lock_step :: "lock_env \<Rightarrow> lock_state \<Rightarrow> lock_state \<Rightarrow> bool" for env where
  step_set: "pl_start pl \<le> pl_end pl \<Longrightarrow> posix_lock_set env s dent pl wait = (r, s') \<Longrightarrow>
    lock_step env s s'"
| step_set_ipc: "pl_start pl \<le> pl_end pl \<Longrightarrow>
    set_from_ipc_locked env s path pl wait vmid seq = (pending, s') \<Longrightarrow> lock_step env s s'"
| step_notify: "lock_step env s (set_from_ipc_notify s pending vmid seq)"
| step_get: "posix_lock_get env s dent pl out_pl = (ret, pl', s') \<Longrightarrow> lock_step env s s'"
| step_clear: "posix_lock_clear_pid env s pid = (ret, s') \<Longrightarrow> lock_step env s s'"

inductive lock_reachable :: "lock_env \<Rightarrow> lock_state \<Rightarrow> bool" for env where
  reach_init: "lock_reachable env (init_lock_state h)"
| reach_step: "lock_reachable env s \<Longrightarrow> lock_step env s s' \<Longrightarrow> lock_reachable env s'"

lemma lock_inv_init: "lock_inv (init_lock_state h)"
  by (simp add: lock_inv_def objects_ok_def init_lock_state_def)

lemma lock_step_inv:
  assumes "lock_step env s s'" "lock_inv s"
  shows "lock_inv s'"
  using assms
proof cases
  case (step_clear pid ret)
  then show ?thesis
    using posix_lock_clear_pid_spec [OF assms(2), of env pid ret s'] assms(2)
    by (cases "env_leader_vmid env = 0") (auto simp: posix_lock_clear_pid_def)
next
  case (step_get dent pl out_pl ret pl')
  then show ?thesis using posix_lock_get_state [OF assms(2)] assms(2) by blast
qed (use assms(2) posix_lock_set_inv set_from_ipc_locked_inv set_from_ipc_notify_inv in blast)+

lemma lock_reachable_inv: "lock_reachable env s \<Longrightarrow> lock_inv s"
  by (induction rule: lock_reachable.induct) (auto intro: lock_inv_init lock_step_inv)

section \<open>The file-lock layer as a map\<close>

text \<open>The abstract contents: the type of lock a process holds on a byte of a file.\<close>

definition file_lock :: "lock_state \<Rightarrow> nat \<Rightarrow> u32 \<Rightarrow> u64 \<Rightarrow> lock_type option" where
  "file_lock s d p b =
     (case dent_fs_lock s d of None \<Rightarrow> None | Some fl \<Rightarrow> lock_at (posix_locks fl) p b)"

lemma file_lock_frame [simp]:
  "file_lock (s\<lparr>ls_allocs := h\<rparr>) = file_lock s"
  by (simp add: file_lock_def fun_eq_iff)

lemma file_lock_gc [simp]: "file_lock (fs_lock_gc s dent) d p b = file_lock s d p b"
  by (auto simp: file_lock_def fs_lock_gc_def lock_at_def split: option.splits)

lemma file_lock_update [simp]:
  "file_lock (s\<lparr>dent_fs_lock := (dent_fs_lock s)(dent \<mapsto> fl)\<rparr>) d p b =
     (if d = dent then lock_at (posix_locks fl) p b else file_lock s d p b)"
  by (simp add: file_lock_def)

lemma find_fs_lock_file_lock:
  "find_fs_lock s dent create = (ret, s') \<Longrightarrow> file_lock s' d p b = file_lock s d p b"
  by (auto simp: find_fs_lock_def file_lock_def lock_at_def split: if_splits prod.splits option.splits)

lemma find_fs_lock_cases:
  assumes "find_fs_lock s dent create = (ret, s')"
  shows "ret = 0 \<or> ret = - ENOMEM"
    and "ret = 0 \<Longrightarrow> create \<Longrightarrow> \<exists>fl. dent_fs_lock s' dent = Some fl"
    and "dent_fs_lock s' dent = Some fl \<Longrightarrow>
      dent_fs_lock s dent = Some fl \<or> dent_fs_lock s dent = None \<and> posix_locks fl = [] \<and> posix_lock_requests fl = []"
    and "False \<notin> set (ls_allocs s) \<Longrightarrow> ret = 0 \<and> False \<notin> set (ls_allocs s')"
    and "ret \<noteq> 0 \<Longrightarrow> dent_fs_lock s' dent = None \<and> dent_fs_lock s dent = None"
  using assms by (cases "ls_allocs s"; auto simp: find_fs_lock_def split: if_splits prod.splits)+

lemma process_requests_Nil [simp]: "posix_lock_process_requests h locks [] = (locks, [], [], h)"
  by (simp add: posix_lock_process_requests.simps)

lemma process_dentry_Nil:
  "posix_lock_requests fl = [] \<Longrightarrow>
   process_dentry s dent fl = s\<lparr>dent_fs_lock := (dent_fs_lock s)(dent \<mapsto> fl)\<rparr>"
  by (cases fl) (simp add: process_dentry_def)

lemma do_posix_lock_set_no_failure:
  "False \<notin> set h \<Longrightarrow> do_posix_lock_set h locks pl = (ret, l, h') \<Longrightarrow> ret = 0"
  by (cases h; cases "tl h") (auto simp: do_posix_lock_set_def Let_def split: if_splits prod.splits)

text \<open>
  Setting a lock without waiting, on a file with no pending requests: success, \<open>-EAGAIN\<close> exactly
  when another process holds an incompatible lock on a byte of the range, or \<open>-ENOMEM\<close>; and
  only success changes the map, on the range of the caller.
\<close>

lemma set_nowait_spec:
  assumes inv: "lock_inv s" and range: "pl_start pl \<le> pl_end pl"
    and idle: "\<And>fl. dent_fs_lock s dent = Some fl \<Longrightarrow> posix_lock_requests fl = []"
    and set: "posix_lock_set_or_add_request s dent pl False = (ret, req, s')"
  shows "req = None" and "ret = 0 \<or> ret = - EAGAIN \<or> ret = - ENOMEM"
    and "ret = - EAGAIN \<longleftrightarrow> pl_type pl \<noteq> F_UNLCK \<and>
      (\<exists>q b t. q \<noteq> pl_pid pl \<and> in_range (pl_start pl) (pl_end pl) b \<and> file_lock s dent q b = Some t \<and>
        (t = F_WRLCK \<or> pl_type pl = F_WRLCK))"
    and "file_lock s' d p b =
      (if ret = 0 \<and> d = dent \<and> p = pl_pid pl \<and> in_range (pl_start pl) (pl_end pl) b
       then (if pl_type pl = F_UNLCK then None else Some (pl_type pl)) else file_lock s d p b)"
    and "False \<notin> set (ls_allocs s) \<Longrightarrow> ret \<noteq> - ENOMEM"
proof -
  obtain r1 s1 where f: "find_fs_lock s dent (pl_type pl \<noteq> F_UNLCK) = (r1, s1)" by fastforce
  note find = find_fs_lock_inv [OF inv f] and cases = find_fs_lock_cases [OF f]
    and keep = find_fs_lock_file_lock [OF f]
  note set' = set [unfolded posix_lock_set_or_add_request_def f Let_def prod.case]
  let ?busy = "\<exists>q b t. q \<noteq> pl_pid pl \<and> in_range (pl_start pl) (pl_end pl) b \<and>
    file_lock s dent q b = Some t \<and> (t = F_WRLCK \<or> pl_type pl = F_WRLCK)"
  let ?upd = "\<lambda>ret d p b. if ret = 0 \<and> d = dent \<and> p = pl_pid pl \<and> in_range (pl_start pl) (pl_end pl) b
       then (if pl_type pl = F_UNLCK then None else Some (pl_type pl)) else file_lock s d p b"
  have "req = None \<and> (ret = 0 \<or> ret = - EAGAIN \<or> ret = - ENOMEM) \<and>
    (ret = - EAGAIN \<longleftrightarrow> pl_type pl \<noteq> F_UNLCK \<and> ?busy) \<and>
    (\<forall>d p b. file_lock s' d p b = ?upd ret d p b) \<and>
    (False \<notin> set (ls_allocs s) \<longrightarrow> ret \<noteq> - ENOMEM)"
  proof (cases "dent_fs_lock s1 dent")
    case None
    then have r: "req = None" "ret = r1" "s' = s1"
      using set' cases(1) by (auto split: if_splits)
    have none: "file_lock s dent q b = None" for q b
      using keep [of dent q b] None by (simp add: file_lock_def)
    have "r1 = 0 \<Longrightarrow> pl_type pl = F_UNLCK" using None cases(2) by auto
    then show ?thesis using r cases(1,4) keep none by auto
  next
    case (Some fl)
    then have r1: "r1 = 0" using cases(1,5) by auto
    have ok: "table_ok (posix_locks fl) (posix_lock_requests fl)"
      using find(1) Some by (auto simp: lock_inv_at_def fs_lock_ok_def)
    have reqs: "posix_lock_requests fl = []" using cases(3) [OF Some] idle by blast
    have wf: "locks_wf (posix_locks fl)" using ok by (simp add: table_ok_def)
    have look: "file_lock s dent q b = lock_at (posix_locks fl) q b" for q b
      using keep [of dent q b] Some by (simp add: file_lock_def)
    have conf: "posix_lock_find_conflict (posix_locks fl) pl \<noteq> None \<longleftrightarrow> ?busy"
      unfolding look find_conflict_lock_at [OF wf range] by blast
    show ?thesis
    proof (cases "pl_type pl \<noteq> F_UNLCK \<and> posix_lock_find_conflict (posix_locks fl) pl \<noteq> None")
      case True
      then have "ret = - EAGAIN" "req = None" "s' = fs_lock_gc s1 dent"
        using set' Some r1 by (auto split: if_splits)
      then show ?thesis using True conf keep by auto
    next
      case False
      obtain r2 l h where d: "do_posix_lock_set (ls_allocs s1) (posix_locks fl) pl = (r2, l, h)"
        by (metis prod_cases3)
      note ret = do_posix_lock_set_ret [of "ls_allocs s1" "posix_locks fl" pl, unfolded d fst_conv]
      have s': "ret = r2" "req = None" "s' = fs_lock_gc (s1\<lparr>ls_allocs := h,
          dent_fs_lock := (dent_fs_lock s1)(dent \<mapsto> fl\<lparr>posix_locks := l\<rparr>)\<rparr>) dent"
        using set' Some r1 False d ret reqs by (auto simp: process_dentry_Nil split: if_splits)
      have upd: "lock_at l p b = ?upd r2 dent p b" for p b
        using do_posix_lock_set_lock_at [OF wf range d, of p b] look by (simp add: in_range_def)
      have fl': "file_lock s' d p b = (if d = dent then lock_at l p b else file_lock s d p b)" for d p b
        using file_lock_update [of "s1\<lparr>ls_allocs := h\<rparr>" dent "fl\<lparr>posix_locks := l\<rparr>" d p b] keep
        unfolding s'(3) by simp
      have "False \<notin> set (ls_allocs s) \<Longrightarrow> r2 = 0"
        using do_posix_lock_set_no_failure [OF _ d] cases(4) by blast
      then show ?thesis
        using s'(1,2) ret False conf fl' upd by auto
    qed
  qed
  then show "req = None" and "ret = 0 \<or> ret = - EAGAIN \<or> ret = - ENOMEM"
    and "ret = - EAGAIN \<longleftrightarrow> pl_type pl \<noteq> F_UNLCK \<and> ?busy"
    and "file_lock s' d p b = ?upd ret d p b"
    and "False \<notin> set (ls_allocs s) \<Longrightarrow> ret \<noteq> - ENOMEM"
    by blast+
qed

end
