(* ===== verification/Fs_Lock_Props.thy ===== *)
theory Fs_Lock_Props
  imports Fs_Lock
begin

text \<open>
  Properties of the file-lock layer: the notifications of serial runs, and the theorems of the
  development about \<^verbatim>\<open>libos_fs_lock.c\<close> with concrete instances of each.
\<close>

section \<open>Waiters are always told\<close>

text \<open>
  When every call fills in its request before another call runs, and events can be created, no
  notification ever reads unassigned fields or fails an assertion. The step relation is the one above
  with the IPC handler as a single step and without failing event creation. The IPC identifiers of
  other processes are not 0, and the locks of a process are cleared when no thread waits for one.
\<close>

definition env_events :: "lock_env \<Rightarrow> bool" where
  "env_events env \<longleftrightarrow> (\<exists>ev. env_event_create env = Inr ev)"

definition no_waiter :: "u32 \<Rightarrow> lock_state \<Rightarrow> bool" where
  "no_waiter pid s \<longleftrightarrow> (\<forall>d fl r n. dent_fs_lock s d = Some fl \<longrightarrow> r \<in> set (posix_lock_requests fl) \<longrightarrow>
     pl_pid (req_pl r) = pid \<longrightarrow> req_notify r = Some n \<longrightarrow> nf_event n = None)"

inductive lock_step_serial :: "lock_env \<Rightarrow> lock_state \<Rightarrow> lock_state \<Rightarrow> bool" for env where
  serial_set: "posix_lock_set env s dent pl wait = (r, s') \<Longrightarrow> lock_step_serial env s s'"
| serial_set_ipc: "vmid \<noteq> 0 \<Longrightarrow> lock_step_serial env s (posix_lock_set_from_ipc env s path pl wait vmid seq)"
| serial_get: "posix_lock_get env s dent pl out_pl = (ret, pl', s') \<Longrightarrow> lock_step_serial env s s'"
| serial_clear: "no_waiter pid s \<Longrightarrow> posix_lock_clear_pid env s pid = (ret, s') \<Longrightarrow> lock_step_serial env s s'"

inductive lock_reachable_serial :: "lock_env \<Rightarrow> lock_state \<Rightarrow> bool" for env where
  serial_init: "lock_reachable_serial env (init_lock_state h)"
| serial_step: "lock_reachable_serial env s \<Longrightarrow> lock_step_serial env s s' \<Longrightarrow>
    lock_reachable_serial env s'"

definition is_determinate :: "lock_env \<Rightarrow> notification \<Rightarrow> bool" where
  "is_determinate env n \<longleftrightarrow>
     (case n of Event_set ev result \<Rightarrow> env_event_create env = Inr ev | Ipc_response vmid seq result \<Rightarrow> vmid \<noteq> 0
      | _ \<Rightarrow> False)"

definition filled :: "lock_env \<Rightarrow> posix_lock_request \<Rightarrow> bool" where
  "filled env r \<longleftrightarrow>
     (case req_notify r of
        None \<Rightarrow> False
      | Some n \<Rightarrow> if nf_vmid n = 0 then \<exists>ev. nf_event n = Some ev \<and> env_event_create env = Inr ev else nf_event n = None)"

text \<open>Every request but possibly the one named is filled in, and so is every past notification.\<close>

definition filled_but :: "lock_env \<Rightarrow> (nat \<times> nat) set \<Rightarrow> lock_state \<Rightarrow> bool" where
  "filled_but env open s \<longleftrightarrow>
     (\<forall>d fl r. dent_fs_lock s d = Some fl \<longrightarrow> r \<in> set (posix_lock_requests fl) \<longrightarrow>
        (d, req_id r) \<notin> open \<longrightarrow> filled env r) \<and>
     (\<forall>n \<in> set (ls_trace s). is_determinate env n)"

lemma notify_waiter_determinate: "filled env r \<Longrightarrow> is_determinate env (notify_waiter r ret)"
  by (auto simp: notify_waiter_def is_determinate_def filled_def split: option.splits if_splits)

lemma list_all2_answers_determinate:
  "list_all2 answers rs ns \<Longrightarrow> (\<And>r. r \<in> set rs \<Longrightarrow> filled env r) \<Longrightarrow> n \<in> set ns \<Longrightarrow>
   is_determinate env n"
  by (induction rs ns rule: list_all2_induct) (auto simp: answers_def notify_waiter_determinate)

lemma process_dentry_filled:
  assumes filled: "filled_but env {} s"
    and fl: "\<And>r. r \<in> set (posix_lock_requests fl) \<Longrightarrow> filled env r"
  shows "filled_but env {} (process_dentry s dent fl)"
proof -
  obtain l r n h where p:
    "posix_lock_process_requests (ls_allocs s) (posix_locks fl) (posix_lock_requests fl) = (l, r, n, h)"
    by (metis prod_cases4)
  obtain a where a: "mset (posix_lock_requests fl) = mset a + mset r" "list_all2 answers a n"
    using process_requests_answers [OF p] by blast
  then have sub: "set a \<subseteq> set (posix_lock_requests fl)" "set r \<subseteq> set (posix_lock_requests fl)"
    by (metis set_mset_mset set_mset_union Un_upper1 Un_upper2)+
  have "is_determinate env m" if "m \<in> set n" for m
    using list_all2_answers_determinate [OF a(2) _ that] sub(1) fl by blast
  then show ?thesis
    using filled fl sub(2) by (auto simp: filled_but_def process_dentry_def p split: if_splits)
qed

lemma fs_lock_gc_filled: "filled_but env open s \<Longrightarrow> filled_but env open (fs_lock_gc s dent)"
  by (auto simp: filled_but_def fs_lock_gc_def split: option.splits if_splits)

lemma find_fs_lock_filled:
  "find_fs_lock s dent create = (ret, s') \<Longrightarrow> filled_but env open s \<Longrightarrow> filled_but env open s'"
  by (auto simp: filled_but_def find_fs_lock_def split: if_splits prod.splits)

lemma add_request_filled:
  assumes filled: "filled_but env {} s" "dent_fs_lock s dent = Some fl"
    and add: "posix_lock_add_request s dent fl pl = (ret, req, s')"
  shows "filled_but env (Pair dent ` set_option req) s'" and "req \<noteq> None \<Longrightarrow> ret = 0"
proof -
  obtain ok h where m: "malloc_outcome (ls_allocs s) = (ok, h)" by fastforce
  have old: "filled env r"
    if "dent_fs_lock s d = Some fl'" "r \<in> set (posix_lock_requests fl')" for d fl' r
    using filled(1) that by (auto simp: filled_but_def)
  have tr: "\<forall>n \<in> set (ls_trace s). is_determinate env n" using filled(1) by (simp add: filled_but_def)
  show "filled_but env (Pair dent ` set_option req) s'"
    using add old old [OF filled(2)] tr
    by (auto simp: filled_but_def posix_lock_add_request_def m Let_def split: if_splits)
  show "req \<noteq> None \<Longrightarrow> ret = 0"
    using add by (auto simp: posix_lock_add_request_def m Let_def split: if_splits)
qed

lemma set_or_add_request_filled:
  assumes filled: "filled_but env {} s"
    and set: "posix_lock_set_or_add_request s dent pl wait = (ret, req, s')"
  shows "filled_but env (Pair dent ` set_option req) s'" and "req \<noteq> None \<Longrightarrow> ret = 0"
proof -
  obtain r1 s1 where f: "find_fs_lock s dent (pl_type pl \<noteq> F_UNLCK) = (r1, s1)" by fastforce
  have f1: "filled_but env {} s1" by (rule find_fs_lock_filled [OF f filled])
  note set' = set [unfolded posix_lock_set_or_add_request_def f Let_def prod.case]
  have "filled_but env (Pair dent ` set_option req) s' \<and> (req \<noteq> None \<longrightarrow> ret = 0)"
  proof (cases "r1 < 0 \<or> dent_fs_lock s1 dent = None")
    case True
    with set' f1 show ?thesis by (auto split: if_splits)
  next
    case False
    then obtain fl where fl: "dent_fs_lock s1 dent = Some fl" by blast
    have reqs: "filled env r" if "r \<in> set (posix_lock_requests fl)" for r
      using f1 fl that by (auto simp: filled_but_def)
    obtain r2 q2 s2 where a: "posix_lock_add_request s1 dent fl pl = (r2, q2, s2)"
      by (metis prod_cases3)
    obtain r3 l h where d: "do_posix_lock_set (ls_allocs s1) (posix_locks fl) pl = (r3, l, h)"
      by (metis prod_cases3)
    have f2: "filled_but env {} (s1\<lparr>ls_allocs := h\<rparr>)" using f1 by (simp add: filled_but_def)
    have "filled_but env {} (process_dentry (s1\<lparr>ls_allocs := h\<rparr>) dent (fl\<lparr>posix_locks := l\<rparr>))"
      by (rule process_dentry_filled [OF f2]) (use reqs in simp)
    moreover have "filled_but env {} (s1\<lparr>ls_allocs := h, dent_fs_lock := (dent_fs_lock s1)
        (dent \<mapsto> fl\<lparr>posix_locks := l\<rparr>)\<rparr>)"
      using f1 reqs by (auto simp: filled_but_def split: if_splits)
    ultimately show ?thesis
      using set' False fl d a f1 add_request_filled [OF f1 fl a]
      by (auto intro!: fs_lock_gc_filled split: if_splits)
  qed
  then show "filled_but env (Pair dent ` set_option req) s'" and "req \<noteq> None \<Longrightarrow> ret = 0" by auto
qed

lemma set_notify_filled:
  "filled_but env {(dent, rid)} s \<Longrightarrow> (\<And>r. filled env (r\<lparr>req_notify := Some n\<rparr>)) \<Longrightarrow>
   filled_but env {} (set_notify rid n s dent)"
  by (cases "dent_fs_lock s dent")
    (fastforce simp: filled_but_def set_notify_def split: if_splits)+

lemma filled_but_trace:
  "filled_but env open s \<Longrightarrow> is_determinate env n \<Longrightarrow> filled_but env open (s\<lparr>ls_trace := ls_trace s @ [n]\<rparr>)"
  by (auto simp: filled_but_def)

lemma posix_lock_set_filled:
  assumes ev: "env_events env" and filled: "filled_but env {} s"
    and set: "posix_lock_set env s dent pl wait = (r, s')"
  shows "filled_but env {} s'"
proof (cases "env_leader_vmid env = 0")
  case True
  obtain ret req s1 where q: "posix_lock_set_or_add_request s dent pl wait = (ret, req, s1)"
    by (metis prod_cases3)
  note f = set_or_add_request_filled [OF filled q]
  show ?thesis
  proof (cases req)
    case None
    with set True q f show ?thesis by (auto simp: posix_lock_set_def split: if_splits)
  next
    case (Some rid)
    then have "filled_but env {(dent, rid)} s1" "ret = 0" using f by auto
    with set True q Some ev show ?thesis
      by (auto simp: posix_lock_set_def env_events_def filled_def intro!: set_notify_filled)
  qed
next
  case False
  have "filled_but env {} (s\<lparr>maybe_has_fs_locks := m\<rparr>)" for m using filled by (simp add: filled_but_def)
  with set False filled show ?thesis
    by (auto simp: posix_lock_set_def posix_lock_set_client_def Let_def split: if_splits sum.splits)
qed

lemma posix_lock_set_from_ipc_filled:
  assumes filled: "filled_but env {} s" and vmid: "vmid \<noteq> 0"
  shows "filled_but env {} (posix_lock_set_from_ipc env s path pl wait vmid seq)"
proof (cases "env_path_lookup env path")
  case (Inl ret)
  with filled_but_trace [OF filled] vmid show ?thesis
    by (simp add: posix_lock_set_from_ipc_def set_from_ipc_locked_def set_from_ipc_notify_def
        is_determinate_def)
next
  case (Inr dent)
  obtain ret req s1 where q: "posix_lock_set_or_add_request s dent pl wait = (ret, req, s1)"
    by (metis prod_cases3)
  note f = set_or_add_request_filled(1) [OF filled q]
  show ?thesis
  proof (cases req)
    case None
    with f filled_but_trace [of env "{}" s1 "Ipc_response vmid seq ret"] vmid Inr q show ?thesis
      by (simp add: posix_lock_set_from_ipc_def set_from_ipc_locked_def set_from_ipc_notify_def
          is_determinate_def)
  next
    case (Some rid)
    with f Inr q vmid show ?thesis
      by (simp add: posix_lock_set_from_ipc_def set_from_ipc_locked_def set_from_ipc_notify_def
          set_notify_filled filled_def)
  qed
qed

lemma posix_lock_get_filled:
  "posix_lock_get env s dent pl out_pl = (ret, pl', s') \<Longrightarrow> filled_but env {} s \<Longrightarrow> filled_but env {} s'"
  by (auto simp: posix_lock_get_def Let_def intro: fs_lock_gc_filled find_fs_lock_filled
      split: if_splits sum.splits prod.splits)

lemma process_dentry_requests:
  assumes "dent_fs_lock (process_dentry s dent fl) d = Some fl'" "r \<in> set (posix_lock_requests fl')"
  shows "if d = dent then r \<in> set (posix_lock_requests fl)
    else \<exists>fl0. dent_fs_lock s d = Some fl0 \<and> r \<in> set (posix_lock_requests fl0)"
proof -
  obtain l q n h where p:
    "posix_lock_process_requests (ls_allocs s) (posix_locks fl) (posix_lock_requests fl) = (l, q, n, h)"
    by (metis prod_cases4)
  obtain a where "mset (posix_lock_requests fl) = mset a + mset q"
    using process_requests_answers [OF p] by blast
  then have "set q \<subseteq> set (posix_lock_requests fl)" by (metis set_mset_mset set_mset_union Un_upper2)
  then show ?thesis using assms by (auto simp: process_dentry_def p split: if_splits)
qed

text \<open>The assertion on dropped requests holds when none of them has an event.\<close>

lemma assert_no_event_nil:
  assumes "filled env r" "\<And>n. req_notify r = Some n \<Longrightarrow> nf_event n = None"
  shows "assert_no_event r = []"
  using assms by (auto simp: assert_no_event_def filled_def split: option.splits)

lemma clear_pid_from_dentry_filled:
  assumes clear: "posix_lock_clear_pid_from_dentry s dent pid = (ret, s')"
    and "filled_but env {} s" "no_waiter pid s"
  shows "filled_but env {} s'" and "no_waiter pid s'"
proof -
  have "filled_but env {} s' \<and> no_waiter pid s'"
  proof (cases "dent_fs_lock s dent")
    case None
    with assms show ?thesis
      by (auto simp: posix_lock_clear_pid_from_dentry_def find_fs_lock_def)
  next
    case (Some fl)
    define fl1 where "fl1 = fl\<lparr>posix_locks := filter (\<lambda>l. pl_pid l \<noteq> pid) (posix_locks fl),
        posix_lock_requests := filter (\<lambda>r. pl_pid (req_pl r) \<noteq> pid) (posix_lock_requests fl)\<rparr>"
    define s1 where "s1 = s\<lparr>dent_fs_lock := (dent_fs_lock s)(dent \<mapsto> fl1)\<rparr>"
    have "assert_no_event r = []" if "r \<in> set (posix_lock_requests fl)" "pl_pid (req_pl r) = pid" for r
      using assms(2,3) Some that by (intro assert_no_event_nil [of env]) (auto simp: filled_but_def no_waiter_def)
    then have out: "concat (map assert_no_event (filter (\<lambda>r. pl_pid (req_pl r) = pid) (posix_lock_requests fl))) = []"
      by auto
    have reqs: "filled env r" if "r \<in> set (posix_lock_requests fl1)" for r
      using that assms(2) Some by (auto simp: fl1_def filled_but_def)
    then have f1: "filled_but env {} s1" using assms(2) by (auto simp: s1_def filled_but_def)
    have n1: "no_waiter pid s1" using assms(3) by (auto simp: no_waiter_def s1_def fl1_def)
    have "no_waiter pid (process_dentry s1 dent fl1)"
      unfolding no_waiter_def
    proof (intro allI impI)
      fix d fl' r n
      assume r: "dent_fs_lock (process_dentry s1 dent fl1) d = Some fl'" "r \<in> set (posix_lock_requests fl')"
        "pl_pid (req_pl r) = pid" "req_notify r = Some n"
      have "r \<notin> set (posix_lock_requests fl1)" using r(3) by (simp add: fl1_def)
      then obtain fl0 where "dent_fs_lock s1 d = Some fl0" "r \<in> set (posix_lock_requests fl0)"
        using process_dentry_requests [OF r(1,2)] by (auto split: if_splits)
      then show "nf_event n = None" using n1 r(3,4) by (simp add: no_waiter_def)
    qed
    then have "no_waiter pid (fs_lock_gc (process_dentry s1 dent fl1) dent)"
      by (auto simp: no_waiter_def fs_lock_gc_def split: option.splits if_splits)
    moreover have "s' = s1 \<or> s' = fs_lock_gc (process_dentry s1 dent fl1) dent"
      using clear Some out
      by (auto simp: posix_lock_clear_pid_from_dentry_def find_fs_lock_def Let_def s1_def fl1_def
          split: if_splits)
    ultimately show ?thesis using f1 n1 process_dentry_filled [OF f1 reqs] fs_lock_gc_filled by blast
  qed
  then show "filled_but env {} s'" and "no_waiter pid s'" by auto
qed

lemma clear_pid_loop_filled:
  "clear_pid_loop s pid dents = (ret, s') \<Longrightarrow> filled_but env {} s \<Longrightarrow> no_waiter pid s \<Longrightarrow> filled_but env {} s'"
  by (induction dents arbitrary: s)
    (auto dest: clear_pid_from_dentry_filled split: prod.splits if_splits)

lemma lock_reachable_serial_filled:
  assumes "lock_reachable_serial env s" "env_events env"
  shows "filled_but env {} s"
  using assms(1)
proof induction
  case (serial_init h)
  then show ?case by (simp add: filled_but_def init_lock_state_def)
next
  case (serial_step s s')
  from serial_step(2) show ?case
  proof cases
    case (serial_clear pid ret)
    then show ?thesis
      using serial_step.IH by (auto simp: posix_lock_clear_pid_def clear_pid_loop_filled split: if_splits)
  next
    case (serial_get dent pl out_pl ret pl')
    then show ?thesis using serial_step.IH by (rule posix_lock_get_filled)
  qed (use serial_step.IH assms(2) posix_lock_set_filled posix_lock_set_from_ipc_filled in blast)+
qed

section \<open>Properties\<close>

text \<open>
  The states the witnesses use: a process leader whose paths all name the file with dentry 0 and
  whose events have handle 7; process 1 takes a write lock on ten bytes; process 2 waits for one
  of them.
\<close>

definition leader_env :: lock_env where
  "leader_env =
     \<lparr>env_leader_vmid = 0, env_abs_path = (\<lambda>_. Inr ''/f''), env_path_lookup = (\<lambda>_. Inr 0),
      env_ipc_set = (\<lambda>_ _ _. 0), env_ipc_get = (\<lambda>_ pl. (0, pl)), env_ipc_clear = (\<lambda>_. 0),
      env_event_create = Inr 7\<rparr>"

abbreviation lock_of :: "lock_type \<Rightarrow> u64 \<Rightarrow> u64 \<Rightarrow> u32 \<Rightarrow> posix_lock" where
  "lock_of t s e p \<equiv> \<lparr>pl_type = t, pl_start = s, pl_end = e, pl_pid = p\<rparr>"

abbreviation one_lock :: lock_state where
  "one_lock \<equiv> snd (posix_lock_set leader_env (init_lock_state []) 0 (lock_of F_WRLCK 0 9 1) False)"

abbreviation one_waiter :: lock_state where
  "one_waiter \<equiv> snd (posix_lock_set leader_env one_lock 0 (lock_of F_WRLCK 5 5 2) True)"

lemma one_lock_reachable: "lock_reachable leader_env one_lock"
  by (rule reach_step [OF reach_init step_set]) (auto simp: prod_eq_iff)

lemma one_waiter_reachable: "lock_reachable leader_env one_waiter"
  by (rule reach_step [OF one_lock_reachable step_set]) (auto simp: prod_eq_iff)

text \<open>
  (C11) Setting or removing a lock is an update of the map from process and byte to lock type: on
  success exactly the bytes of the requested range change, for the requesting process only, to the
  requested type or to unlocked; splitting and merging of ranges never shows. The list stays sorted,
  disjoint and maximally merged.
\<close>

theorem posix_lock_set_updates_map:
  assumes "locks_wf locks" "pl_start pl \<le> pl_end pl"
    and "do_posix_lock_set h locks pl = (ret, locks', h')"
  shows "locks_wf locks' \<and>
    (\<forall>q b. lock_at locks' q b =
      (if ret = 0 \<and> q = pl_pid pl \<and> pl_start pl \<le> b \<and> b \<le> pl_end pl
       then (if pl_type pl = F_UNLCK then None else Some (pl_type pl))
       else lock_at locks q b))"
  using posix.invar_update [OF assms] posix.lookup_update [OF assms] by blast

theorem posix_lock_set_updates_map_witness:
  "lock_at (fst (snd (do_posix_lock_set [] [lock_of F_RDLCK 0 9 1] (lock_of F_UNLCK 3 5 1)))) 1 4 = None"
proof -
  have wf: "locks_wf [lock_of F_RDLCK 0 9 1]" by code_simp
  have set: "do_posix_lock_set [] [lock_of F_RDLCK 0 9 1] (lock_of F_UNLCK 3 5 1) =
    (0, [lock_of F_RDLCK 0 2 1, lock_of F_RDLCK 6 9 1], [])"
    by code_simp
  show ?thesis
    using posix_lock_set_updates_map [OF wf _ set] by (simp add: set)
qed

text \<open>
  (C17) Setting a lock fails only when an allocation fails, with \<open>-ENOMEM\<close>, and then the list of
  locks is the one it started from: both nodes are allocated before the first change.
\<close>

theorem posix_lock_set_failure_atomic:
  assumes "do_posix_lock_set h locks pl = (ret, locks', h')" "ret \<noteq> 0"
  shows "ret = - ENOMEM \<and> locks' = locks \<and> False \<in> set h"
proof -
  have "ret = - ENOMEM \<and> locks' = locks"
    using assms by (rule_tac do_posix_lock_set_cases [of h locks pl]) auto
  moreover have "False \<in> set h" using do_posix_lock_set_no_failure [OF _ assms(1)] assms(2) by blast
  ultimately show ?thesis by blast
qed

theorem posix_lock_set_failure_atomic_witness:
  "fst (snd (do_posix_lock_set [True, False] [lock_of F_RDLCK 0 9 1] (lock_of F_WRLCK 3 5 1))) =
     [lock_of F_RDLCK 0 9 1]"
proof -
  have set: "do_posix_lock_set [True, False] [lock_of F_RDLCK 0 9 1] (lock_of F_WRLCK 3 5 1) =
    (- ENOMEM, [lock_of F_RDLCK 0 9 1], [])" by code_simp
  show ?thesis using posix_lock_set_failure_atomic [OF set] by (simp add: set)
qed

text \<open>
  The conflict test is exact: it finds no lock if and only if no other process holds a byte of
  the requested range with a lock incompatible with the requested one (two locks on a byte are
  compatible only when both are read locks).
\<close>

theorem find_conflict_exact:
  assumes "locks_wf locks" "pl_start pl \<le> pl_end pl"
  shows "posix_lock_find_conflict locks pl = None \<longleftrightarrow>
    (\<forall>q b. q \<noteq> pl_pid pl \<and> pl_start pl \<le> b \<and> b \<le> pl_end pl \<longrightarrow>
       (case lock_at locks q b of
          None \<Rightarrow> True | Some t \<Rightarrow> t \<noteq> F_WRLCK \<and> pl_type pl \<noteq> F_WRLCK))"
  unfolding find_conflict_lock_at [OF assms] in_range_def by (auto split: option.splits)

theorem find_conflict_exact_witness:
  "case lock_at [lock_of F_RDLCK 0 9 1] 1 4 of
     None \<Rightarrow> True | Some t \<Rightarrow> t \<noteq> F_WRLCK \<and> pl_type (lock_of F_RDLCK 3 5 2) \<noteq> F_WRLCK"
proof -
  let ?pl = "lock_of F_RDLCK 3 5 2"
  have wf: "locks_wf [lock_of F_RDLCK 0 9 1]" by code_simp
  have none: "posix_lock_find_conflict [lock_of F_RDLCK 0 9 1] ?pl = None" by code_simp
  have range: "pl_start ?pl \<le> pl_end ?pl" "pl_start ?pl \<le> 4" "4 \<le> pl_end ?pl" "1 \<noteq> pl_pid ?pl"
    by simp_all
  from none range(2-4) show ?thesis unfolding find_conflict_exact [OF wf range(1)] by blast
qed

text \<open>
  (C10) Mutual exclusion: in every state the leader process can reach, under any pattern of allocation
  failures and any interleaving of local calls and IPC requests, a byte of a file that one process
  holds with a write lock is not locked by any other process.
\<close>

theorem write_locks_exclusive:
  assumes "lock_reachable env s" "p \<noteq> q" "file_lock s d p b = Some F_WRLCK"
  shows "file_lock s d q b = None"
proof (cases "dent_fs_lock s d")
  case (Some fl)
  then have "exclusive (lock_at (posix_locks fl))"
    using lock_reachable_inv [OF assms(1)] by (auto simp: lock_inv_def fs_lock_ok_def table_ok_def)
  with assms(2,3) Some show ?thesis by (auto simp: file_lock_def exclusive_def)
qed (simp add: file_lock_def)

theorem write_locks_exclusive_witness: "file_lock one_waiter 0 2 5 = None"
proof -
  have held: "file_lock one_waiter 0 1 5 = Some F_WRLCK" by code_simp
  show ?thesis
    by (rule write_locks_exclusive [OF one_waiter_reachable _ held]) simp
qed

text \<open>
  (C13) No lost wake-ups: in every reachable state, each pending request is blocked by a lock that
  another process holds on a byte of its range. A request that could be granted is never left
  waiting after a call returns.
\<close>

theorem pending_requests_blocked:
  assumes "lock_reachable env s" "dent_fs_lock s d = Some fl" "r \<in> set (posix_lock_requests fl)"
  shows "\<exists>q b t. q \<noteq> pl_pid (req_pl r) \<and> pl_start (req_pl r) \<le> b \<and> b \<le> pl_end (req_pl r) \<and>
    file_lock s d q b = Some t \<and> (t = F_WRLCK \<or> pl_type (req_pl r) = F_WRLCK)"
proof -
  have ok: "fs_lock_ok fl" using lock_reachable_inv [OF assms(1)] assms(2) by (simp add: lock_inv_def)
  then have wf: "locks_wf (posix_locks fl)" and range: "pl_start (req_pl r) \<le> pl_end (req_pl r)"
    and "posix_lock_find_conflict (posix_locks fl) (req_pl r) \<noteq> None"
    using assms(3) by (auto simp: fs_lock_ok_def table_ok_def request_ok_def requests_blocked_def)
  then show ?thesis
    using assms(2) unfolding find_conflict_lock_at [OF wf range] in_range_def
    by (auto simp: file_lock_def)
qed

theorem pending_requests_blocked_witness:
  "\<exists>q b t. q \<noteq> 2 \<and> 5 \<le> b \<and> b \<le> 5 \<and> file_lock one_waiter 0 q b = Some t \<and>
     (t = F_WRLCK \<or> F_WRLCK = F_WRLCK)"
proof -
  define r where "r = \<lparr>req_id = 0, req_pl = lock_of F_WRLCK 5 5 2,
    req_notify = Some \<lparr>nf_vmid = 0, nf_seq = 0, nf_event = Some 7\<rparr>\<rparr>"
  have "map_option posix_lock_requests (dent_fs_lock one_waiter 0) = Some [r]"
    unfolding r_def by code_simp
  then obtain fl where fl: "dent_fs_lock one_waiter 0 = Some fl" "posix_lock_requests fl = [r]" by blast
  from pending_requests_blocked [OF one_waiter_reachable fl(1), of r] fl(2) show ?thesis
    unfolding r_def by simp
qed

text \<open>
  (C14) Processing requests terminates and answers exactly the requests it removes: those requests,
  each once, in the order of the notifications, with 0 or \<open>-ENOMEM\<close>; the others stay pending.
\<close>

theorem requests_answered_once:
  assumes "posix_lock_process_requests h locks reqs = (locks', reqs', out, h')"
  shows "\<exists>answered. mset reqs = mset answered + mset reqs' \<and>
    list_all2 (\<lambda>r n. n = notify_waiter r 0 \<or> n = notify_waiter r (- ENOMEM)) answered out"
  using process_requests_answers [OF assms] unfolding answers_def .

theorem requests_answered_once_witness:
  "\<exists>answered. mset [\<lparr>req_id = 3, req_pl = lock_of F_RDLCK 0 1 1, req_notify = None\<rparr>] =
     mset answered + mset [] \<and>
   list_all2 (\<lambda>r n. n = notify_waiter r 0 \<or> n = notify_waiter r (- ENOMEM)) answered
     [Indeterminate 3 0]"
proof -
  have "posix_lock_process_requests [] [] [\<lparr>req_id = 3, req_pl = lock_of F_RDLCK 0 1 1, req_notify = None\<rparr>]
    = ([lock_of F_RDLCK 0 1 1], [], [Indeterminate 3 0], [])" by code_simp
  from requests_answered_once [OF this] show ?thesis .
qed

text \<open>
  (C12) \<open>fcntl(F_SETLK)\<close> in the leader, on a file with no pending requests, meets its contract: it
  always returns, with 0, \<open>-EAGAIN\<close> or \<open>-ENOMEM\<close>; it returns \<open>-EAGAIN\<close> exactly when the
  request is for a lock and another process holds an incompatible one on the range; it changes the
  locks of no file unless it returns 0, and then exactly the caller's range of this file; and it
  cannot return \<open>-ENOMEM\<close> unless an allocation fails.
\<close>

theorem posix_lock_set_nowait:
  assumes "lock_reachable env s" "env_leader_vmid env = 0" "pl_start pl \<le> pl_end pl"
    and "\<And>fl. dent_fs_lock s dent = Some fl \<Longrightarrow> posix_lock_requests fl = []"
  shows "\<exists>ret s'. posix_lock_set env s dent pl False = (Returned ret, s') \<and>
    (ret = 0 \<or> ret = - EAGAIN \<or> ret = - ENOMEM) \<and>
    (ret = - EAGAIN \<longleftrightarrow> pl_type pl \<noteq> F_UNLCK \<and>
      (\<exists>q b t. q \<noteq> pl_pid pl \<and> pl_start pl \<le> b \<and> b \<le> pl_end pl \<and> file_lock s dent q b = Some t \<and>
        (t = F_WRLCK \<or> pl_type pl = F_WRLCK))) \<and>
    (\<forall>d p b. file_lock s' d p b =
      (if ret = 0 \<and> d = dent \<and> p = pl_pid pl \<and> pl_start pl \<le> b \<and> b \<le> pl_end pl
       then (if pl_type pl = F_UNLCK then None else Some (pl_type pl)) else file_lock s d p b)) \<and>
    (ret = - ENOMEM \<longrightarrow> False \<in> set (ls_allocs s))"
proof -
  obtain ret req s' where q: "posix_lock_set_or_add_request s dent pl False = (ret, req, s')"
    by (metis prod_cases3)
  note spec = set_nowait_spec [OF lock_reachable_inv [OF assms(1)] assms(3,4) q, unfolded in_range_def]
  have "posix_lock_set env s dent pl False = (Returned ret, s')"
    using spec(1,2) assms(2) q by (auto simp: posix_lock_set_def)
  then show ?thesis using spec(2-5) by blast
qed

theorem posix_lock_set_nowait_witness:
  "\<exists>ret s'. posix_lock_set leader_env one_lock 0 (lock_of F_RDLCK 4 20 2) False = (Returned ret, s') \<and>
    ret = - EAGAIN"
proof -
  have "map_option posix_lock_requests (dent_fs_lock one_lock 0) = Some []" by code_simp
  then have idle: "posix_lock_requests fl = []" if "dent_fs_lock one_lock 0 = Some fl" for fl
    using that by simp
  have busy: "file_lock one_lock 0 1 5 = Some F_WRLCK" by code_simp
  have leader: "env_leader_vmid leader_env = 0" by (simp add: leader_env_def)
  from posix_lock_set_nowait [OF one_lock_reachable leader, of "lock_of F_RDLCK 4 20 2" 0] idle
  obtain ret s' where r: "posix_lock_set leader_env one_lock 0 (lock_of F_RDLCK 4 20 2) False = (Returned ret, s')"
    "ret = - EAGAIN \<longleftrightarrow> F_RDLCK \<noteq> F_UNLCK \<and>
      (\<exists>q b t. q \<noteq> 2 \<and> 4 \<le> b \<and> b \<le> 20 \<and> file_lock one_lock 0 q b = Some t \<and>
        (t = F_WRLCK \<or> F_RDLCK = F_WRLCK))"
    by auto
  have "ret = - EAGAIN" unfolding r(2) using busy by (intro conjI exI [of _ 1] exI [of _ 5]) auto
  with r(1) show ?thesis by blast
qed

text \<open>
  (C15) When a process exits, \<open>posix_lock_clear_pid\<close> in the leader succeeds and leaves no lock and
  no pending request of that process on any file; what remains still satisfies the invariant.
\<close>

theorem clear_pid_releases_everything:
  assumes "lock_reachable env s" "env_leader_vmid env = 0" "posix_lock_clear_pid env s pid = (ret, s')"
  shows "ret = 0 \<and> lock_inv s' \<and> (\<forall>d b. file_lock s' d pid b = None) \<and>
    (\<forall>d fl r. dent_fs_lock s' d = Some fl \<longrightarrow> r \<in> set (posix_lock_requests fl) \<longrightarrow>
       pl_pid (req_pl r) \<noteq> pid)"
proof -
  have spec: "ret = 0" "lock_inv s'" "\<And>d fl. dent_fs_lock s' d = Some fl \<Longrightarrow>
      pid_free pid (posix_locks fl) (posix_lock_requests fl)"
    using posix_lock_clear_pid_spec [OF lock_reachable_inv [OF assms(1)] assms(2,3)] by auto
  have "file_lock s' d pid b = None" for d b
    using spec(3) [of d] spec(2) pid_free_lock_at
    by (auto simp: file_lock_def pid_free_def lock_inv_def fs_lock_ok_def table_ok_def
        split: option.splits)
  then show ?thesis using spec unfolding pid_free_def by blast
qed

theorem clear_pid_releases_everything_witness:
  "file_lock (snd (posix_lock_clear_pid leader_env one_waiter 1)) 0 1 5 = None \<and>
   file_lock (snd (posix_lock_clear_pid leader_env one_waiter 1)) 0 2 5 = Some F_WRLCK"
proof -
  have leader: "env_leader_vmid leader_env = 0" by (simp add: leader_env_def)
  have "file_lock (snd (posix_lock_clear_pid leader_env one_waiter 1)) 0 2 5 = Some F_WRLCK" by code_simp
  then show ?thesis
    using clear_pid_releases_everything [OF one_waiter_reachable leader, of 1] by (metis prod.collapse)
qed

text \<open>
  (C16) Bookkeeping of the \<open>fs_lock\<close> objects: in every reachable state the global list names each
  dentry that has an object exactly once, the layer holds one dentry reference per object and none
  otherwise, and every object has a lock, so no object outlives its last lock.
\<close>

theorem lock_objects_balanced:
  assumes "lock_reachable env s"
  shows "distinct (g_fs_lock_list s) \<and> set (g_fs_lock_list s) = dom (dent_fs_lock s) \<and>
    (\<forall>d. dent_refs s d = (if d \<in> set (g_fs_lock_list s) then 1 else 0)) \<and>
    (\<forall>d fl. dent_fs_lock s d = Some fl \<longrightarrow> posix_locks fl \<noteq> [])"
  using lock_reachable_inv [OF assms] by (auto simp: lock_inv_def objects_ok_def)

theorem lock_objects_balanced_witness:
  "dent_refs one_waiter 0 = (if 0 \<in> set (g_fs_lock_list one_waiter) then 1 else 0)"
  using lock_objects_balanced [OF one_waiter_reachable] by blast

text \<open>
  (C19) The response to an IPC lock request that had to wait carries the sequence number of the
  request modulo \<open>2 ^ 32\<close>, because the pending request stores it in an \<open>unsigned int\<close>: it is
  the number the requester waits for if and only if that number is below \<open>2 ^ 32\<close>.
\<close>

theorem deferred_response_seq:
  assumes "dent_fs_lock s dent = Some fl" "r \<in> set (posix_lock_requests fl)" "req_id r = rid" "vmid \<noteq> 0"
  shows "\<exists>fl' r'. dent_fs_lock (set_from_ipc_notify s (Some (dent, rid)) vmid seq) dent = Some fl' \<and>
    r' \<in> set (posix_lock_requests fl') \<and> req_id r' = rid \<and>
    notify_waiter r' result = Ipc_response vmid (seq mod 2 ^ 32) result \<and>
    (seq mod 2 ^ 32 = seq \<longleftrightarrow> seq < 2 ^ 32)"
proof -
  let ?r = "r\<lparr>req_notify := Some \<lparr>nf_vmid = vmid, nf_seq = ucast seq, nf_event = None\<rparr>\<rparr>"
  let ?fl = "fl\<lparr>posix_lock_requests := map (\<lambda>r. if req_id r = rid
    then r\<lparr>req_notify := Some \<lparr>nf_vmid = vmid, nf_seq = ucast seq, nf_event = None\<rparr>\<rparr> else r)
    (posix_lock_requests fl)\<rparr>"
  have "req_id ?r = rid" "?r \<in> set (posix_lock_requests ?fl)" using assms(2,3) by force+
  moreover have "notify_waiter ?r result = Ipc_response vmid (seq mod 2 ^ 32) result"
    using assms(4) trunc32 [of seq] by (simp add: notify_waiter_def)
  moreover have "dent_fs_lock (set_from_ipc_notify s (Some (dent, rid)) vmid seq) dent = Some ?fl"
    using assms(1) by (simp add: set_from_ipc_notify_def set_notify_def)
  ultimately show ?thesis using trunc32_id [of seq] by blast
qed

abbreviation ipc_waiter :: lock_state where
  "ipc_waiter \<equiv> snd (set_from_ipc_locked leader_env one_lock ''/f'' (lock_of F_WRLCK 5 5 2) True 3 4294967303)"

theorem deferred_response_seq_witness:
  "\<exists>fl' r'. dent_fs_lock (set_from_ipc_notify ipc_waiter (Some (0, 0)) 3 4294967303) 0 = Some fl' \<and>
    r' \<in> set (posix_lock_requests fl') \<and> notify_waiter r' 0 = Ipc_response 3 7 0"
proof -
  define r where "r = \<lparr>req_id = 0, req_pl = lock_of F_WRLCK 5 5 2, req_notify = None\<rparr>"
  have "map_option posix_lock_requests (dent_fs_lock ipc_waiter 0) = Some [r]"
    unfolding r_def by code_simp
  then obtain fl where fl: "dent_fs_lock ipc_waiter 0 = Some fl" "posix_lock_requests fl = [r]" by blast
  have "(4294967303 :: u64) mod 2 ^ 32 = 7" by simp
  then show ?thesis
    using deferred_response_seq [OF fl(1), of r 0 3 4294967303 0] fl(2) by (auto simp: r_def)
qed

text \<open>
  (C18) If every call fills in the notification fields of its request before the next call runs, events
  can be created, other processes have IPC identifiers other than 0, and the locks of a process are
  cleared only when none of its threads waits, then no waiter is ever notified through unassigned
  fields and no assertion on them fails: every notification sets an event that was created for it or
  sends an IPC response to another process.
\<close>

theorem serial_runs_determinate:
  assumes "lock_reachable_serial env s" "env_events env" "n \<in> set (ls_trace s)"
  shows "(\<exists>ev result. n = Event_set ev result \<and> env_event_create env = Inr ev) \<or>
    (\<exists>vmid seq result. n = Ipc_response vmid seq result \<and> vmid \<noteq> 0)"
  using lock_reachable_serial_filled [OF assms(1,2)] assms(3)
  by (cases n) (auto simp: filled_but_def is_determinate_def)

theorem serial_runs_determinate_witness:
  "\<exists>n \<in> set (ls_trace (snd (posix_lock_clear_pid leader_env one_waiter 1))).
     \<exists>ev result. n = Event_set ev result \<and> env_event_create leader_env = Inr ev"
proof -
  let ?s = "snd (posix_lock_clear_pid leader_env one_waiter 1)"
  have r1: "lock_reachable_serial leader_env one_lock"
    by (rule serial_step [OF serial_init serial_set]) (auto simp: prod_eq_iff)
  have r2: "lock_reachable_serial leader_env one_waiter"
    by (rule serial_step [OF r1 serial_set]) (auto simp: prod_eq_iff)
  have reqs: "map_option (map (pl_pid \<circ> req_pl) \<circ> posix_lock_requests) (dent_fs_lock one_waiter 0) = Some [2]"
    and list: "g_fs_lock_list one_waiter = [0]" by code_simp+
  have "objects_ok one_waiter" using lock_reachable_inv [OF one_waiter_reachable] by (simp add: lock_inv_def)
  then have dom: "dom (dent_fs_lock one_waiter) = {0}" using list by (simp add: objects_ok_def)
  have "pl_pid (req_pl r) \<noteq> 1" if "dent_fs_lock one_waiter d = Some fl" "r \<in> set (posix_lock_requests fl)" for d fl r
  proof -
    have "d = 0" using dom that(1) by blast
    then have "map (pl_pid \<circ> req_pl) (posix_lock_requests fl) = [2]" using reqs that(1) by simp
    then show ?thesis using that(2) by auto
  qed
  then have "no_waiter 1 one_waiter" unfolding no_waiter_def by blast
  then have r3: "lock_reachable_serial leader_env ?s"
    by (intro serial_step [OF r2 serial_clear]) (auto simp: prod_eq_iff)
  have ev: "env_events leader_env" by (simp add: env_events_def leader_env_def)
  have "ls_trace ?s = [Event_set 7 0]" by code_simp
  then show ?thesis using serial_runs_determinate [OF r3 ev, of "Event_set 7 0"] by auto
qed

text \<open>
  (C20) The IPC handler fills in the notification fields only after it released the lock. Between the
  two, another call may process the request: there is a reachable state in which a notification has
  read unassigned fields. The comment of \<open>posix_lock_add_request\<close> asks callers to fill them in
  before the lock is released.
\<close>

theorem ipc_notification_race:
  "\<exists>s. lock_reachable leader_env s \<and> Indeterminate 0 0 \<in> set (ls_trace s)"
proof -
  let ?s = "snd (posix_lock_clear_pid leader_env ipc_waiter 1)"
  have r1: "lock_reachable leader_env ipc_waiter"
    by (rule reach_step [OF one_lock_reachable step_set_ipc]) (auto simp: prod_eq_iff)
  have r2: "lock_reachable leader_env ?s"
    by (rule reach_step [OF r1 step_clear]) (auto simp: prod_eq_iff)
  have "ls_trace ?s = [Indeterminate 0 0]" by code_simp
  with r2 show ?thesis by (intro exI [of _ ?s]) simp
qed

end
