(* ===== verification/Avl_Tree.thy ===== *)
theory Avl_Tree
  imports Main
begin

text \<open>
  The AVL tree of \<^verbatim>\<open>gramine/common/src/avl_tree.c\<close>, on which the memory bookkeeping of the LibOS
  keeps its areas. The C nodes carry a parent pointer and a balance field and the algorithms move
  up and down along the pointers. A pointer to a node is modelled by the node's position: the
  subtree it is the root of and the path of parents up to the root of the tree, innermost first.
  Following \<^verbatim>\<open>node->parent\<close> removes a frame from the path, \<^verbatim>\<open>fixup_link\<close> puts another subtree
  below the same path. An \<^verbatim>\<open>assert\<close> that fails, or a null pointer that is followed, is the value
  \<^const>\<open>None\<close>; the lemmas show that a balanced tree never leads there.
\<close>

section \<open>Nodes and positions\<close>

datatype 'a avl = Null | Node "'a avl" 'a int "'a avl"

datatype side = LEFT | RIGHT

datatype 'a frame = Frame (fside: side) 'a int "'a avl"

type_synonym 'a path = "'a frame list"
type_synonym 'a node = "'a path \<times> 'a avl"

text \<open>A frame is a parent node without the child on its side; \<open>link\<close> puts the child back.\<close>

fun link :: "'a frame \<Rightarrow> 'a avl \<Rightarrow> 'a avl" where
  "link (Frame LEFT x b sib) t = Node t x b sib"
| "link (Frame RIGHT x b sib) t = Node sib x b t"

fun plug :: "'a path \<Rightarrow> 'a avl \<Rightarrow> 'a avl" where
  "plug [] t = t"
| "plug (f # p) t = plug p (link f t)"

fun avl_elem :: "'a avl \<Rightarrow> 'a option" where
  "avl_elem Null = None"
| "avl_elem (Node l x b r) = Some x"

section \<open>Rotations\<close>

fun rot1L :: "'a avl \<Rightarrow> 'a avl option" where
  "rot1L (Node pl p pb (Node ql q qb qr)) =
     (if (qb = 1 \<or> qb = 0) \<and> pb = 2
      then Some (if qb = 1 then Node (Node pl p 0 ql) q 0 qr
                 else Node (Node pl p 1 ql) q (- 1) qr)
      else None)"
| "rot1L t = None"

fun rot1R :: "'a avl \<Rightarrow> 'a avl option" where
  "rot1R (Node (Node ql q qb qr) p pb pr) =
     (if (qb = - 1 \<or> qb = 0) \<and> pb = - 2
      then Some (if qb = - 1 then Node ql q 0 (Node qr p 0 pr)
                 else Node ql q 1 (Node qr p (- 1) pr))
      else None)"
| "rot1R t = None"

fun rot2RL :: "'a avl \<Rightarrow> 'a avl option" where
  "rot2RL (Node pl p pb (Node (Node rl r rb rr) q qb qr)) =
     (if qb = - 1 \<and> pb = 2 \<and> - 1 \<le> rb \<and> rb \<le> 1
      then let (pb', qb') = (if rb = - 1 then (0, 1) else if rb = 0 then (0, 0) else (- 1, 0))
           in Some (Node (Node pl p pb' rl) r 0 (Node rr q qb' qr))
      else None)"
| "rot2RL t = None"

fun rot2LR :: "'a avl \<Rightarrow> 'a avl option" where
  "rot2LR (Node (Node ql q qb (Node rl r rb rr)) p pb pr) =
     (if qb = 1 \<and> pb = - 2 \<and> - 1 \<le> rb \<and> rb \<le> 1
      then let (qb', pb') = (if rb = - 1 then (0, 1) else if rb = 0 then (0, 0) else (- 1, 0))
           in Some (Node (Node ql q qb' rl) r 0 (Node rr p pb' pr))
      else None)"
| "rot2LR t = None"

text \<open>The new root of the subtree, and whether its height might have changed.\<close>

fun avl_tree_do_balance :: "'a avl \<Rightarrow> ('a avl \<times> bool) option" where
  "avl_tree_do_balance Null = None"
| "avl_tree_do_balance (Node l x b r) =
     (if b \<noteq> - 2 \<and> b \<noteq> 2 then None
      else if b < 0
      then (case l of
              Null \<Rightarrow> None
            | Node ll lx lb lr \<Rightarrow>
                (if lb = 1 then map_option (\<lambda>t. (t, True)) (rot2LR (Node l x b r))
                 else map_option (\<lambda>t. (t, lb \<noteq> 0)) (rot1R (Node l x b r))))
      else (case r of
              Null \<Rightarrow> None
            | Node rl rx rb rr \<Rightarrow>
                (if rb \<ge> 0 then map_option (\<lambda>t. (t, rb \<noteq> 0)) (rot1L (Node l x b r))
                 else map_option (\<lambda>t. (t, True)) (rot2RL (Node l x b r)))))"

text \<open>
  One round of the loop of \<^verbatim>\<open>avl_tree_balance\<close>: the balance of the node after the height of the
  child on that side went up or down, the rotation if it is needed, and whether the height of the
  subtree changed.
\<close>

fun balance_step :: "side \<Rightarrow> bool \<Rightarrow> 'a avl \<Rightarrow> ('a avl \<times> bool) option" where
  "balance_step side height_increased Null = None"
| "balance_step side height_increased (Node l x b r) =
     (let (height_changed, b') =
            (case side of
               LEFT \<Rightarrow> (if height_increased then (b \<le> 0, b - 1) else (b < 0, b + 1))
             | RIGHT \<Rightarrow> (if height_increased then (b \<ge> 0, b + 1) else (b > 0, b - 1)))
      in if \<not> (- 2 \<le> b' \<and> b' \<le> 2) then None
         else if b' = - 2 \<or> b' = 2
         then map_option (\<lambda>(t, c). (t, if height_increased then False else c))
                (avl_tree_do_balance (Node l x b' r))
         else Some (Node l x b' r, height_changed))"

fun avl_tree_balance :: "'a avl \<Rightarrow> side \<Rightarrow> bool \<Rightarrow> 'a path \<Rightarrow> 'a avl option" where
  "avl_tree_balance node side height_increased [] =
     map_option fst (balance_step side height_increased node)"
| "avl_tree_balance node side height_increased (f # p) =
     (case balance_step side height_increased node of
        None \<Rightarrow> None
      | Some (t, height_changed) \<Rightarrow>
          (if \<not> height_changed then Some (plug (f # p) t)
           else avl_tree_balance (link f t) (fside f) height_increased p))"

section \<open>Insertion\<close>

text \<open>The path to the place of the new node; its innermost frame is the node's parent.\<close>

fun avl_tree_insert_unbalanced ::
  "('a \<Rightarrow> 'a \<Rightarrow> bool) \<Rightarrow> 'a \<Rightarrow> 'a avl \<Rightarrow> 'a path \<Rightarrow> 'a path" where
  "avl_tree_insert_unbalanced cmp new Null p = p"
| "avl_tree_insert_unbalanced cmp new (Node l x b r) p =
     (if cmp new x then avl_tree_insert_unbalanced cmp new l (Frame LEFT x b r # p)
      else avl_tree_insert_unbalanced cmp new r (Frame RIGHT x b l # p))"

definition avl_tree_init_node :: "'a \<Rightarrow> 'a avl" where
  "avl_tree_init_node x = Node Null x 0 Null"

definition avl_tree_insert :: "('a \<Rightarrow> 'a \<Rightarrow> bool) \<Rightarrow> 'a \<Rightarrow> 'a avl \<Rightarrow> 'a avl option" where
  "avl_tree_insert cmp new t =
     (if t = Null then Some (avl_tree_init_node new)
      else (case avl_tree_insert_unbalanced cmp new t [] of
              [] \<Rightarrow> None
            | f # p \<Rightarrow> avl_tree_balance (link f (avl_tree_init_node new)) (fside f) True p))"

section \<open>Walking the tree\<close>

fun descend_left :: "'a path \<Rightarrow> 'a avl \<Rightarrow> 'a node" where
  "descend_left p (Node (Node ll lx lb lr) x b r) =
     descend_left (Frame LEFT x b r # p) (Node ll lx lb lr)"
| "descend_left p t = (p, t)"

fun descend_right :: "'a path \<Rightarrow> 'a avl \<Rightarrow> 'a node" where
  "descend_right p (Node l x b (Node rl rx rb rr)) =
     descend_right (Frame RIGHT x b l # p) (Node rl rx rb rr)"
| "descend_right p t = (p, t)"

text \<open>Up while the node is the right (left) child, then the parent.\<close>

fun climb_right :: "'a path \<Rightarrow> 'a avl \<Rightarrow> 'a node option" where
  "climb_right [] t = None"
| "climb_right (Frame RIGHT x b sib # p) t = climb_right p (Node sib x b t)"
| "climb_right (Frame LEFT x b sib # p) t = Some (p, Node t x b sib)"

fun climb_left :: "'a path \<Rightarrow> 'a avl \<Rightarrow> 'a node option" where
  "climb_left [] t = None"
| "climb_left (Frame LEFT x b sib # p) t = climb_left p (Node t x b sib)"
| "climb_left (Frame RIGHT x b sib # p) t = Some (p, Node sib x b t)"

fun avl_tree_next :: "'a node \<Rightarrow> 'a node option" where
  "avl_tree_next (p, Null) = None"
| "avl_tree_next (p, Node l x b r) =
     (if r \<noteq> Null then Some (descend_left (Frame RIGHT x b l # p) r)
      else climb_right p (Node l x b r))"

fun avl_tree_prev :: "'a node \<Rightarrow> 'a node option" where
  "avl_tree_prev (p, Null) = None"
| "avl_tree_prev (p, Node l x b r) =
     (if l \<noteq> Null then Some (descend_right (Frame LEFT x b r # p) l)
      else climb_left p (Node l x b r))"

definition avl_tree_first :: "'a avl \<Rightarrow> 'a node option" where
  "avl_tree_first t = (if t = Null then None else Some (descend_left [] t))"

definition avl_tree_last :: "'a avl \<Rightarrow> 'a node option" where
  "avl_tree_last t = (if t = Null then None else Some (descend_right [] t))"

section \<open>Deletion and replacement\<close>

text \<open>The node has at most one child, which takes its place.\<close>

definition unlink_node :: "'a path \<Rightarrow> 'a avl \<Rightarrow> 'a avl option" where
  "unlink_node p child =
     (case p of
        [] \<Rightarrow> Some child
      | f # q \<Rightarrow> avl_tree_balance (link f child) (fside f) False q)"

fun avl_tree_delete :: "'a node \<Rightarrow> 'a avl option" where
  "avl_tree_delete (p, Null) = None"
| "avl_tree_delete (p, Node l x b r) =
     (if l \<noteq> Null \<and> r \<noteq> Null
      then (case descend_left [] r of
              (q, Node Null y c yr) \<Rightarrow>
                (if (c = 0 \<or> c = 1) \<and>
                    (case yr of Null \<Rightarrow> True | Node a z d e \<Rightarrow> d = 0 \<and> a = Null \<and> e = Null)
                 then unlink_node (q @ Frame RIGHT y b l # p) yr
                 else None)
            | _ \<Rightarrow> None)
      else unlink_node p (if l \<noteq> Null then l else r))"

fun avl_tree_swap_node :: "('a \<Rightarrow> 'a \<Rightarrow> bool) \<Rightarrow> 'a node \<Rightarrow> 'a \<Rightarrow> 'a avl option" where
  "avl_tree_swap_node cmp (p, Null) new = None"
| "avl_tree_swap_node cmp (p, Node l old b r) new =
     (if cmp old new \<and> cmp new old then Some (plug p (Node l new b r)) else None)"

section \<open>Searching\<close>

fun avl_tree_find_fn_to ::
  "('k \<Rightarrow> 'a \<Rightarrow> bool) \<Rightarrow> ('a \<Rightarrow> 'k \<Rightarrow> bool) \<Rightarrow> 'k \<Rightarrow> 'a path \<Rightarrow> 'a avl \<Rightarrow> 'a node option" where
  "avl_tree_find_fn_to le ge k p Null = None"
| "avl_tree_find_fn_to le ge k p (Node l x b r) =
     (if le k x
      then (if ge x k then Some (p, Node l x b r)
            else avl_tree_find_fn_to le ge k (Frame LEFT x b r # p) l)
      else avl_tree_find_fn_to le ge k (Frame RIGHT x b l # p) r)"

definition avl_tree_find :: "('a \<Rightarrow> 'a \<Rightarrow> bool) \<Rightarrow> 'a avl \<Rightarrow> 'a \<Rightarrow> 'a node option" where
  "avl_tree_find cmp t arg = avl_tree_find_fn_to cmp cmp arg [] t"

fun lower_bound_loop ::
  "('k \<Rightarrow> 'a \<Rightarrow> bool) \<Rightarrow> 'k \<Rightarrow> 'a node option \<Rightarrow> 'a path \<Rightarrow> 'a avl \<Rightarrow> 'a node option" where
  "lower_bound_loop cmp arg ret p Null = ret"
| "lower_bound_loop cmp arg ret p (Node l x b r) =
     (if cmp arg x
      then lower_bound_loop cmp arg (Some (p, Node l x b r)) (Frame LEFT x b r # p) l
      else lower_bound_loop cmp arg ret (Frame RIGHT x b l # p) r)"

definition avl_tree_lower_bound_fn ::
  "('k \<Rightarrow> 'a \<Rightarrow> bool) \<Rightarrow> 'k \<Rightarrow> 'a avl \<Rightarrow> 'a node option" where
  "avl_tree_lower_bound_fn cmp arg t = lower_bound_loop cmp arg None [] t"

definition avl_tree_lower_bound :: "('a \<Rightarrow> 'a \<Rightarrow> bool) \<Rightarrow> 'a \<Rightarrow> 'a avl \<Rightarrow> 'a node option" where
  "avl_tree_lower_bound cmp arg t = avl_tree_lower_bound_fn cmp arg t"

section \<open>The debug check\<close>

fun avl_tree_is_balanced_size :: "'a avl \<Rightarrow> bool \<times> nat" where
  "avl_tree_is_balanced_size Null = (True, 0)"
| "avl_tree_is_balanced_size (Node l x b r) =
     (let (ret_l, m) = avl_tree_is_balanced_size l;
          (ret_r, n) = avl_tree_is_balanced_size r
      in if m < n then (ret_l \<and> ret_r \<and> n - m = 1 \<and> b = 1, n + 1)
         else if m = n then (ret_l \<and> ret_r \<and> b = 0, m + 1)
         else (ret_l \<and> ret_r \<and> m - n = 1 \<and> b = - 1, m + 1))"

definition debug_avl_tree_is_balanced :: "'a avl \<Rightarrow> bool" where
  "debug_avl_tree_is_balanced t = fst (avl_tree_is_balanced_size t)"

section \<open>Order of the elements and balance\<close>

named_theorems avl_simps

fun inorder :: "'a avl \<Rightarrow> 'a list" where
  "inorder Null = []"
| "inorder (Node l x b r) = inorder l @ x # inorder r"

fun height :: "'a avl \<Rightarrow> nat" where
  "height Null = 0"
| "height (Node l x b r) = Suc (max (height l) (height r))"

fun balanced :: "'a avl \<Rightarrow> bool" where
  "balanced Null = True"
| "balanced (Node l x b r) =
     (balanced l \<and> balanced r \<and> b = int (height r) - int (height l) \<and> - 1 \<le> b \<and> b \<le> 1)"

text \<open>The elements in front of and behind the place a path leads to.\<close>

fun before_path :: "'a path \<Rightarrow> 'a list" where
  "before_path [] = []"
| "before_path (Frame LEFT x b sib # p) = before_path p"
| "before_path (Frame RIGHT x b sib # p) = before_path p @ inorder sib @ [x]"

fun after_path :: "'a path \<Rightarrow> 'a list" where
  "after_path [] = []"
| "after_path (Frame LEFT x b sib # p) = x # inorder sib @ after_path p"
| "after_path (Frame RIGHT x b sib # p) = after_path p"

text \<open>A path that is balanced around a subtree of height \<open>h\<close>.\<close>

fun balanced_path :: "'a path \<Rightarrow> nat \<Rightarrow> bool" where
  "balanced_path [] h = True"
| "balanced_path (Frame s x b sib # p) h =
     (balanced sib \<and>
      b = (case s of LEFT \<Rightarrow> int (height sib) - int h | RIGHT \<Rightarrow> int h - int (height sib)) \<and>
      - 1 \<le> b \<and> b \<le> 1 \<and> balanced_path p (Suc (max h (height sib))))"

lemma inorder_plug [avl_simps]:
  "inorder (plug p t) = before_path p @ inorder t @ after_path p"
proof (induction p arbitrary: t)
  case (Cons f p)
  then show ?case by (cases f; cases "fside f") (auto)
qed simp

lemma inorder_link [avl_simps]:
  "before_path p @ inorder (link f t) @ after_path p =
   before_path (f # p) @ inorder t @ after_path (f # p)"
  using inorder_plug [of "f # p" t] inorder_plug [of p "link f t"] by simp

lemma balanced_plug [avl_simps]:
  "balanced (plug p t) \<longleftrightarrow> balanced t \<and> balanced_path p (height t)"
proof (induction p arbitrary: t)
  case (Cons f p)
  then show ?case by (cases f; cases "fside f") (auto simp: max.commute)
qed simp

lemma path_append [avl_simps]:
  "before_path (p @ q) = before_path q @ before_path p"
  "after_path (p @ q) = after_path p @ after_path q"
  by (induction p rule: before_path.induct) auto

lemma plug_append [avl_simps]: "plug (p @ q) t = plug q (plug p t)"
  by (induction p arbitrary: t) auto

lemma height_zero_iff [simp]: "height t = 0 \<longleftrightarrow> t = Null"
  by (cases t) auto

lemma inorder_Nil_iff [simp]: "inorder t = [] \<longleftrightarrow> t = Null"
  by (cases t) auto

subsection \<open>One rebalancing round\<close>

text \<open>
  What a round finds: the subtree on one side has become one higher or one lower than the recorded
  balance says. \<open>old_height\<close> is the height of the node's subtree before that change.
\<close>

definition disturbed :: "side \<Rightarrow> bool \<Rightarrow> 'a avl \<Rightarrow> nat \<Rightarrow> bool" where
  "disturbed s inc t h =
     (case t of
        Null \<Rightarrow> False
      | Node l x b r \<Rightarrow> balanced l \<and> balanced r \<and> - 1 \<le> b \<and> b \<le> 1 \<and>
          (\<exists>hl hr. b = int hr - int hl \<and> h = Suc (max hl hr) \<and>
             (case s of
                LEFT \<Rightarrow> hr = height r \<and> (if inc then height l = Suc hl else hl = Suc (height l))
              | RIGHT \<Rightarrow> hl = height l \<and> (if inc then height r = Suc hr else hr = Suc (height r)))))"

text \<open>
  When the new height differs from the old one it is by one, in the direction of the change, and
  then the step reports it. An insertion that raises a leaf needs one fact more: a higher child is
  never evenly balanced unless it is the new leaf, whose parent then has no other child.
\<close>

definition leaning :: "'a avl \<Rightarrow> bool" where
  "leaning t = (case t of Null \<Rightarrow> False | Node l x b r \<Rightarrow> b \<noteq> 0 \<or> l = Null \<and> r = Null)"

definition rebalanced :: "bool \<Rightarrow> 'a avl \<Rightarrow> nat \<Rightarrow> 'a avl \<times> bool \<Rightarrow> bool" where
  "rebalanced inc t h = (\<lambda>(t', changed).
     balanced t' \<and> inorder t' = inorder t \<and>
     (if \<not> changed then height t' = h
      else if inc then height t' = Suc h \<and> leaning t' else h = Suc (height t')))"

text \<open>A node whose left subtree is two higher than the right one, and its mirror image.\<close>

lemma do_balance_left:
  assumes "balanced l" "balanced r" "height l = Suc (Suc (height r))"
  shows "\<exists>t' c. avl_tree_do_balance (Node l x (- 2) r) = Some (t', c) \<and> balanced t' \<and>
    inorder t' = inorder l @ x # inorder r \<and>
    height t' = (if c then height l else Suc (height l)) \<and>
    (c \<longleftrightarrow> (case l of Null \<Rightarrow> False | Node a y b e \<Rightarrow> b \<noteq> 0))"
proof (cases l)
  case (Node a y b e)
  have b: "b = int (height e) - int (height a)" "- 1 \<le> b" "b \<le> 1"
    using assms Node by auto
  consider "b = 1" | "b = 0" | "b = -1" using b by linarith
  then show ?thesis
  proof cases
    case 1
    with b have "e \<noteq> Null" by auto
    then obtain a' z d e' where e: "e = Node a' z d e'" by (cases e) auto
    have "d = -1 \<or> d = 0 \<or> d = 1" using assms Node e by auto
    then show ?thesis using 1 b assms Node e by (auto simp: max_def split: if_splits)
  qed (use b assms Node in \<open>auto simp: max_def split: if_splits\<close>)
qed (use assms in simp)

lemma do_balance_right:
  assumes "balanced l" "balanced r" "height r = Suc (Suc (height l))"
  shows "\<exists>t' c. avl_tree_do_balance (Node l x 2 r) = Some (t', c) \<and> balanced t' \<and>
    inorder t' = inorder l @ x # inorder r \<and>
    height t' = (if c then height r else Suc (height r)) \<and>
    (c \<longleftrightarrow> (case r of Null \<Rightarrow> False | Node a y b e \<Rightarrow> b \<noteq> 0))"
proof (cases r)
  case (Node a y b e)
  have b: "b = int (height e) - int (height a)" "- 1 \<le> b" "b \<le> 1"
    using assms Node by auto
  consider "b = 1" | "b = 0" | "b = -1" using b by linarith
  then show ?thesis
  proof cases
    case 3
    with b have "a \<noteq> Null" by auto
    then obtain a' z d e' where a: "a = Node a' z d e'" by (cases a) auto
    have "d = -1 \<or> d = 0 \<or> d = 1" using assms Node a by auto
    then show ?thesis using 3 b assms Node a by (auto simp: max_def split: if_splits)
  qed (use b assms Node in \<open>auto simp: max_def split: if_splits\<close>)
qed (use assms in simp)

text \<open>A node that is off by two, after the balance field has been updated.\<close>

lemma do_balance_rebalanced:
  assumes "balanced l" "balanced r" "b = int (height r) - int (height l)" "b = - 2 \<or> b = 2"
    and "inc \<longrightarrow> leaning (if b = 2 then r else l)"
    and "h = (if inc then Suc (Suc (min (height l) (height r))) else Suc (max (height l) (height r)))"
  shows "\<exists>t' c. avl_tree_do_balance (Node l x b r) = Some (t', c) \<and>
    rebalanced inc (Node l x b r) h (t', if inc then False else c)"
proof (cases "b = 2")
  case True
  then have "height r = Suc (Suc (height l))" using assms(3) by linarith
  from do_balance_right [OF assms(1,2) this, of x] obtain t' c where
    "avl_tree_do_balance (Node l x 2 r) = Some (t', c)" "balanced t'"
    "inorder t' = inorder l @ x # inorder r" "height t' = (if c then height r else Suc (height r))"
    "c \<longleftrightarrow> (case r of Null \<Rightarrow> False | Node a y b e \<Rightarrow> b \<noteq> 0)" by blast
  moreover have "inc \<Longrightarrow> c"
    using assms(5) True calculation(5) \<open>height r = _\<close> by (auto simp: leaning_def split: avl.splits)
  ultimately show ?thesis using True assms(6) \<open>height r = _\<close>
    by (auto simp: rebalanced_def split: if_splits)
next
  case False
  then have b: "b = - 2" using assms(4) by simp
  then have "height l = Suc (Suc (height r))" using assms(3) by linarith
  from do_balance_left [OF assms(1,2) this, of x] obtain t' c where
    "avl_tree_do_balance (Node l x (- 2) r) = Some (t', c)" "balanced t'"
    "inorder t' = inorder l @ x # inorder r" "height t' = (if c then height l else Suc (height l))"
    "c \<longleftrightarrow> (case l of Null \<Rightarrow> False | Node a y b e \<Rightarrow> b \<noteq> 0)" by blast
  moreover have "inc \<Longrightarrow> c"
    using assms(5) b calculation(5) \<open>height l = _\<close> by (auto simp: leaning_def split: avl.splits)
  ultimately show ?thesis using b assms(6) \<open>height l = _\<close>
    by (auto simp: rebalanced_def split: if_splits)
qed

fun child_on :: "side \<Rightarrow> 'a avl \<Rightarrow> 'a avl" where
  "child_on s Null = Null"
| "child_on LEFT (Node l x b r) = l"
| "child_on RIGHT (Node l x b r) = r"

lemma balance_step_rebalanced:
  assumes "disturbed s inc t h" "inc \<Longrightarrow> leaning (child_on s t)"
  shows "\<exists>t' c. balance_step s inc t = Some (t', c) \<and> rebalanced inc t h (t', c)"
proof (cases t)
  case (Node l x b r)
  define b' where "b' = (if (s = LEFT) = inc then b - 1 else b + 1)"
  have b': "b' = int (height r) - int (height l)" "- 2 \<le> b'" "b' \<le> 2"
    using assms Node by (cases s; cases inc; auto simp: disturbed_def b'_def)+
  have bal: "balanced l" "balanced r" using assms(1) Node by (auto simp: disturbed_def)
  show ?thesis
  proof (cases "b' = - 2 \<or> b' = 2")
    case True
    have "\<exists>t' c. avl_tree_do_balance (Node l x b' r) = Some (t', c) \<and>
        rebalanced inc (Node l x b' r) h (t', if inc then False else c)"
      using assms Node True bal b'(1)
      by (intro do_balance_rebalanced; cases s; cases inc) (auto simp: disturbed_def b'_def)
    with True Node show ?thesis
      by (cases s; cases inc) (auto simp: b'_def rebalanced_def)
  next
    case False
    with Node assms bal b' show ?thesis
      by (cases s; cases inc)
        (auto simp: b'_def rebalanced_def disturbed_def leaning_def Let_def max_def split: if_splits)
  qed
qed (use assms in \<open>simp add: disturbed_def\<close>)

subsection \<open>The walk to the root\<close>

lemma disturbed_link:
  assumes "balanced t" "balanced_path (f # p) h"
    and "if inc then height t = Suc h else h = Suc (height t)"
  shows "\<exists>h'. disturbed (fside f) inc (link f t) h' \<and> balanced_path p h'"
proof (cases f)
  case (Frame s x b sib)
  show ?thesis
    using assms Frame
    by (intro exI [of _ "Suc (max h (height sib))"]; cases s)
      (auto simp: disturbed_def max.commute split: if_splits)
qed

lemma child_on_link [simp]: "child_on (fside f) (link f t) = t"
  by (cases f; cases "fside f") auto

lemma avl_tree_balance_ok:
  assumes "disturbed s inc t h" "inc \<Longrightarrow> leaning (child_on s t)" "balanced_path p h"
  shows "\<exists>t'. avl_tree_balance t s inc p = Some t' \<and> balanced t' \<and>
    inorder t' = before_path p @ inorder t @ after_path p"
  using assms
proof (induction p arbitrary: t s h)
  case Nil
  from balance_step_rebalanced [OF Nil(1,2)] show ?case by (auto simp: rebalanced_def)
next
  case (Cons f p)
  from balance_step_rebalanced [OF Cons.prems(1,2)] obtain t' c where
    step: "balance_step s inc t = Some (t', c)" "rebalanced inc t h (t', c)" by blast
  show ?case
  proof (cases c)
    case True
    then have "if inc then height t' = Suc h else h = Suc (height t')" "balanced t'"
      using step(2) by (auto simp: rebalanced_def)
    from disturbed_link [OF this(2) Cons.prems(3) this(1)] obtain h' where
      "disturbed (fside f) inc (link f t') h'" "balanced_path p h'" by blast
    from Cons.IH [OF this(1) _ this(2)] show ?thesis
      using step True by (auto simp: rebalanced_def avl_simps split: if_splits)
  next
    case False
    then have "balanced (plug (f # p) t')"
      using step(2) Cons.prems(3) by (simp only: balanced_plug) (simp add: rebalanced_def)
    then show ?thesis
      using step False inorder_plug [of "f # p" t'] by (auto simp: rebalanced_def)
  qed
qed

section \<open>Insertion keeps balance and order\<close>

lemma plug_insert_unbalanced:
  "plug (avl_tree_insert_unbalanced cmp x t p) Null = plug p t"
  by (induction cmp x t p rule: avl_tree_insert_unbalanced.induct) auto

lemma insert_unbalanced_ne: "p \<noteq> [] \<Longrightarrow> avl_tree_insert_unbalanced cmp x t p \<noteq> []"
  by (induction cmp x t p rule: avl_tree_insert_unbalanced.induct) auto

text \<open>A total order on the elements, as the header of the tree demands it of \<^verbatim>\<open>cmp\<close>.\<close>

locale tree_order =
  fixes cmp :: "'a \<Rightarrow> 'a \<Rightarrow> bool"
  assumes cmp_total: "cmp x y \<or> cmp y x"
    and cmp_trans: "cmp x y \<Longrightarrow> cmp y z \<Longrightarrow> cmp x z"
begin

lemma insert_unbalanced_path:
  assumes "sorted_wrt cmp (inorder t)"
  shows "before_path (avl_tree_insert_unbalanced cmp x t p) =
      before_path p @ takeWhile (\<lambda>y. \<not> cmp x y) (inorder t)
    \<and> after_path (avl_tree_insert_unbalanced cmp x t p) =
      dropWhile (\<lambda>y. \<not> cmp x y) (inorder t) @ after_path p"
  using assms
proof (induction t arbitrary: p)
  case (Node l y b r)
  show ?case
  proof (cases "cmp x y")
    case True
    then show ?thesis using Node
      by (auto simp: sorted_wrt_append takeWhile_append dropWhile_append)
  next
    case False
    then have "\<forall>z \<in> set (inorder l). \<not> cmp x z"
      using Node.prems cmp_trans by (fastforce simp: sorted_wrt_append)
    then show ?thesis using Node False
      by (auto simp: sorted_wrt_append takeWhile_append dropWhile_append)
  qed
qed simp

lemma insert_sorted:
  assumes "sorted_wrt cmp xs"
  shows "sorted_wrt cmp (takeWhile (\<lambda>y. \<not> cmp x y) xs @ x # dropWhile (\<lambda>y. \<not> cmp x y) xs)"
  using assms
proof (induction xs)
  case (Cons y ys)
  then show ?case using cmp_total cmp_trans
    by (auto dest: set_takeWhileD set_dropWhileD)
qed simp

end

lemma disturbed_new_child:
  assumes "balanced_path (f # p) 0"
  shows "\<exists>h. disturbed (fside f) True (link f (avl_tree_init_node x)) h \<and> balanced_path p h"
  by (rule disturbed_link) (use assms in \<open>auto simp: avl_tree_init_node_def\<close>)

lemma avl_tree_insert_balanced:
  assumes "balanced t"
  shows "\<exists>t'. avl_tree_insert cmp x t = Some t' \<and> balanced t' \<and>
    inorder t' = before_path (avl_tree_insert_unbalanced cmp x t []) @ x #
      after_path (avl_tree_insert_unbalanced cmp x t [])"
proof (cases "t = Null")
  case False
  then have "avl_tree_insert_unbalanced cmp x t [] \<noteq> []"
    by (cases t) (auto simp: insert_unbalanced_ne)
  then obtain f p where fp: "avl_tree_insert_unbalanced cmp x t [] = f # p"
    by (cases "avl_tree_insert_unbalanced cmp x t []") auto
  then have "plug (f # p) Null = t" using plug_insert_unbalanced [of cmp x t "[]"] by simp
  then have "balanced_path (f # p) 0"
    using assms balanced_plug [of "f # p" Null] by simp
  from disturbed_new_child [OF this, of x] obtain h where
    "disturbed (fside f) True (link f (avl_tree_init_node x)) h" "balanced_path p h" by blast
  from avl_tree_balance_ok [OF this(1) _ this(2)] show ?thesis
    using fp False inorder_link [of p f "avl_tree_init_node x"]
    by (simp add: avl_tree_insert_def avl_tree_init_node_def leaning_def)
qed (simp add: avl_tree_insert_def avl_tree_init_node_def)

section \<open>Deletion keeps balance and order\<close>

lemma plug_descend_left: "descend_left p t = (q, u) \<Longrightarrow> plug q u = plug p t"
  by (induction p t rule: descend_left.induct) auto

lemma descend_left_place:
  assumes "descend_left p t = (q, u)" "t \<noteq> Null"
  shows "before_path q = before_path p \<and> (\<exists>y c r. u = Node Null y c r)"
  using assms by (induction p t rule: descend_left.induct) auto

lemma descend_left_append: "descend_left (p @ q) t = (case descend_left p t of (r, u) \<Rightarrow> (r @ q, u))"
proof (induction p t rule: descend_left.induct)
  case (1 p ll lx lb lr x b r)
  then show ?case by simp
qed auto

lemma unlink_node_ok:
  assumes "balanced_path p (Suc (height t))" "balanced t"
  shows "\<exists>t'. unlink_node p t = Some t' \<and> balanced t' \<and>
    inorder t' = before_path p @ inorder t @ after_path p"
proof (cases p)
  case (Cons f q)
  from disturbed_link [OF assms(2) assms(1) [unfolded Cons], of False] obtain h where
    "disturbed (fside f) False (link f t) h" "balanced_path q h" by auto
  from avl_tree_balance_ok [OF this(1) _ this(2)] show ?thesis
    using Cons by (simp add: unlink_node_def inorder_link)
qed (use assms in \<open>simp add: unlink_node_def\<close>)

lemma balanced_path_elem:
  "balanced_path (q @ Frame s x b sib # p) h = balanced_path (q @ Frame s y b sib # p) h"
  by (induction q h rule: balanced_path.induct) (auto split: side.splits)

lemma avl_tree_delete_balanced:
  assumes "balanced (plug p (Node l x b r))"
  shows "\<exists>t'. avl_tree_delete (p, Node l x b r) = Some t' \<and> balanced t' \<and>
    inorder t' = before_path p @ inorder l @ inorder r @ after_path p"
proof (cases "l \<noteq> Null \<and> r \<noteq> Null")
  case True
  obtain q y c yr where d: "descend_left [] r = (q, Node Null y c yr)"
    using descend_left_place [of "[]" r] True by (cases "descend_left [] r") auto
  have plug: "plug q (Node Null y c yr) = r" and bef: "before_path q = []"
    using plug_descend_left [OF d] descend_left_place [OF d] True by auto
  have "plug (q @ Frame RIGHT x b l # p) (Node Null y c yr) = plug p (Node l x b r)"
    by (simp add: plug_append plug)
  with assms have bal: "balanced (Node Null y c yr)"
      "balanced_path (q @ Frame RIGHT x b l # p) (Suc (height yr))"
    using balanced_plug [of "q @ Frame RIGHT x b l # p" "Node Null y c yr"] by auto
  from bal(2) have "balanced_path (q @ Frame RIGHT y b l # p) (Suc (height yr))"
    by (subst balanced_path_elem)
  from unlink_node_ok [OF this] bal(1) obtain t' where
    "unlink_node (q @ Frame RIGHT y b l # p) yr = Some t'" "balanced t'"
    "inorder t' = before_path p @ inorder l @ y # inorder yr @ after_path q @ after_path p"
    by (auto simp: path_append bef)
  moreover have "inorder r = y # inorder yr @ after_path q"
    using plug inorder_plug [of q "Node Null y c yr"] bef by simp
  moreover have "c = 0 \<or> c = 1"
  proof -
    have "c = int (height yr)" "c \<le> 1" using bal(1) by simp_all
    then show ?thesis by linarith
  qed
  moreover have "case yr of Null \<Rightarrow> True | Node a z d e \<Rightarrow> d = 0 \<and> a = Null \<and> e = Null"
    using bal(1) by (auto split: avl.splits)
  ultimately show ?thesis using True d by simp
next
  case False
  have "balanced_path p (Suc (max (height l) (height r)))" "balanced l" "balanced r"
    using assms by (simp_all add: balanced_plug)
  with False show ?thesis
    using unlink_node_ok [of p l] unlink_node_ok [of p r] by auto
qed

section \<open>Walking visits the elements in order\<close>

text \<open>The elements in front of a node, its own, and the ones behind it.\<close>

fun node_before :: "'a node \<Rightarrow> 'a list" where
  "node_before (p, Null) = before_path p"
| "node_before (p, Node l x b r) = before_path p @ inorder l"

fun node_after :: "'a node \<Rightarrow> 'a list" where
  "node_after (p, Null) = after_path p"
| "node_after (p, Node l x b r) = inorder r @ after_path p"

text \<open>\<open>node_at t z x\<close>: the position \<open>z\<close> is one of the tree \<open>t\<close> and holds the element \<open>x\<close>.\<close>

definition node_at :: "'a avl \<Rightarrow> 'a node \<Rightarrow> 'a \<Rightarrow> bool" where
  "node_at t z x \<longleftrightarrow> plug (fst z) (snd z) = t \<and> avl_elem (snd z) = Some x"

lemma node_atE:
  assumes "node_at t z x"
  obtains p l b r where "z = (p, Node l x b r)" "plug p (Node l x b r) = t"
  using assms by (cases z; cases "snd z") (auto simp: node_at_def)

lemma node_at_inorder: "node_at t z x \<Longrightarrow> inorder t = node_before z @ x # node_after z"
  by (erule node_atE) (auto simp: inorder_plug)

lemma descend_left_node:
  "t \<noteq> Null \<Longrightarrow> \<exists>x. node_at (plug p t) (descend_left p t) x \<and>
     node_before (descend_left p t) = before_path p"
  by (induction p t rule: descend_left.induct) (auto simp: node_at_def)

lemma descend_right_node:
  "t \<noteq> Null \<Longrightarrow> \<exists>x. node_at (plug p t) (descend_right p t) x \<and>
     node_after (descend_right p t) = after_path p"
  by (induction p t rule: descend_right.induct) (auto simp: node_at_def)

lemma climb_right_node:
  "climb_right p t = None \<longleftrightarrow> after_path p = []"
  "climb_right p t = Some z \<Longrightarrow> \<exists>x. node_at (plug p t) z x \<and>
     node_before z = before_path p @ inorder t"
  by (induction p t rule: climb_right.induct) (auto simp: node_at_def)

lemma climb_left_node:
  "climb_left p t = None \<longleftrightarrow> before_path p = []"
  "climb_left p t = Some z \<Longrightarrow> \<exists>x. node_at (plug p t) z x \<and>
     node_after z = inorder t @ after_path p"
  by (induction p t rule: climb_left.induct) (auto simp: node_at_def)

lemma avl_tree_next_node:
  assumes "node_at t z x"
  shows "case node_after z of
      [] \<Rightarrow> avl_tree_next z = None
    | y # ys \<Rightarrow> (\<exists>z'. avl_tree_next z = Some z' \<and> node_at t z' y \<and>
        node_before z' = node_before z @ [x])"
proof -
  from assms obtain p l b r where z: "z = (p, Node l x b r)" "plug p (Node l x b r) = t"
    by (rule node_atE)
  have 1: ?thesis if "avl_tree_next z = Some z'" "node_at t z' y" "node_before z' = node_before z @ [x]"
    for z' y
    using node_at_inorder [OF assms] node_at_inorder [OF that(2)] that
    by (cases "node_after z") auto
  show ?thesis
  proof (cases "r = Null")
    case True
    show ?thesis
    proof (cases "climb_right p (Node l x b r)")
      case None
      then show ?thesis using z True climb_right_node(1) [of p] by simp
    next
      case (Some z')
      from climb_right_node(2) [OF Some] obtain y where
        "node_at (plug p (Node l x b r)) z' y" "node_before z' = before_path p @ inorder (Node l x b r)" by blast
      then show ?thesis by (intro 1 [of z' y]) (use z True Some in simp_all)
    qed
  next
    case False
    from descend_left_node [OF this, of "Frame RIGHT x b l # p"] obtain y where
      "node_at (plug (Frame RIGHT x b l # p) r) (descend_left (Frame RIGHT x b l # p) r) y"
      "node_before (descend_left (Frame RIGHT x b l # p) r) = before_path (Frame RIGHT x b l # p)" by blast
    then show ?thesis by (intro 1 [of _ y]) (use z False in simp_all)
  qed
qed

lemma avl_tree_prev_node:
  assumes "node_at t z x"
  shows "if node_before z = [] then avl_tree_prev z = None
    else (\<exists>z'. avl_tree_prev z = Some z' \<and> node_at t z' (last (node_before z)) \<and>
        node_after z' = x # node_after z)"
proof -
  from assms obtain p l b r where z: "z = (p, Node l x b r)" "plug p (Node l x b r) = t"
    by (rule node_atE)
  have 1: ?thesis if "avl_tree_prev z = Some z'" "node_at t z' y" "node_after z' = x # node_after z"
    for z' y
  proof -
    have "node_before z = node_before z' @ [y]"
      using node_at_inorder [OF assms] node_at_inorder [OF that(2)] that(3) by simp
    then show ?thesis using that by simp
  qed
  show ?thesis
  proof (cases "l = Null")
    case True
    show ?thesis
    proof (cases "climb_left p (Node l x b r)")
      case None
      then show ?thesis using z True climb_left_node(1) [of p] by simp
    next
      case (Some z')
      from climb_left_node(2) [OF Some] obtain y where
        "node_at (plug p (Node l x b r)) z' y" "node_after z' = inorder (Node l x b r) @ after_path p" by blast
      then show ?thesis by (intro 1 [of z' y]) (use z True Some in simp_all)
    qed
  next
    case False
    from descend_right_node [OF this, of "Frame LEFT x b r # p"] obtain y where
      "node_at (plug (Frame LEFT x b r # p) l) (descend_right (Frame LEFT x b r # p) l) y"
      "node_after (descend_right (Frame LEFT x b r # p) l) = after_path (Frame LEFT x b r # p)" by blast
    then show ?thesis by (intro 1 [of _ y]) (use z False in simp_all)
  qed
qed

section \<open>Searching\<close>

text \<open>The node that comes right after the elements \<open>xs\<close>, or none when these are all.\<close>

definition node_from :: "'a avl \<Rightarrow> 'a list \<Rightarrow> 'a node option \<Rightarrow> bool" where
  "node_from t xs ret \<longleftrightarrow>
     (case ret of
        None \<Rightarrow> xs = inorder t
      | Some z \<Rightarrow> (\<exists>y. node_at t z y \<and> node_before z = xs))"

lemma node_from_first: "node_from t [] (avl_tree_first t)"
  using descend_left_node [of t "[]"] by (auto simp: node_from_def avl_tree_first_def)

lemma avl_tree_last_node:
  "if t = Null then avl_tree_last t = None
   else (\<exists>z. avl_tree_last t = Some z \<and> node_at t z (last (inorder t)) \<and> node_after z = [])"
proof (cases "t = Null")
  case False
  from descend_right_node [OF this, of "[]"] obtain x where
    "node_at t (descend_right [] t) x" "node_after (descend_right [] t) = []" by auto
  with node_at_inorder [OF this(1)] False show ?thesis by (simp add: avl_tree_last_def)
qed (simp add: avl_tree_last_def)

lemma lower_bound_loop_from:
  assumes "node_from (plug p t) (before_path p @ inorder t) ret"
    and "sorted_wrt (\<lambda>x y. cmp k x \<longrightarrow> cmp k y) (inorder t)"
  shows "node_from (plug p t) (before_path p @ takeWhile (\<lambda>x. \<not> cmp k x) (inorder t))
    (lower_bound_loop cmp k ret p t)"
  using assms
proof (induction t arbitrary: p ret)
  case (Node l x b r)
  show ?case
  proof (cases "cmp k x")
    case True
    have "node_from (plug p (Node l x b r)) (before_path p @ inorder l) (Some (p, Node l x b r))"
      by (auto simp: node_from_def node_at_def)
    with Node.IH(1) [of "Frame LEFT x b r # p" "Some (p, Node l x b r)"] Node.prems(2) True
    show ?thesis by (simp add: sorted_wrt_append takeWhile_tail)
  next
    case False
    then have "\<forall>y \<in> set (inorder l). \<not> cmp k y"
      using Node.prems(2) by (auto simp: sorted_wrt_append)
    then show ?thesis
      using Node.IH(2) [of "Frame RIGHT x b l # p" ret] Node.prems False
      by (simp add: sorted_wrt_append takeWhile_append)
  qed
qed simp

lemma lower_bound_from:
  assumes "sorted_wrt (\<lambda>x y. cmp k x \<longrightarrow> cmp k y) (inorder t)"
  shows "node_from t (takeWhile (\<lambda>x. \<not> cmp k x) (inorder t)) (avl_tree_lower_bound_fn cmp k t)"
  using lower_bound_loop_from [of "[]" t None cmp k] assms
  by (simp add: avl_tree_lower_bound_fn_def node_from_def)

text \<open>The first element that qualifies, and none in front of it does.\<close>

lemma node_from_takeWhile:
  assumes "node_from t (takeWhile (\<lambda>x. \<not> P x) (inorder t)) ret"
  shows "case ret of
      None \<Rightarrow> \<forall>y \<in> set (inorder t). \<not> P y
    | Some z \<Rightarrow> \<exists>y. node_at t z y \<and> P y \<and> (\<forall>w \<in> set (node_before z). \<not> P w)"
proof (cases ret)
  case None
  with assms show ?thesis by (simp add: node_from_def)
next
  case (Some z)
  with assms obtain y where y: "node_at t z y"
    and b: "node_before z = takeWhile (\<lambda>x. \<not> P x) (inorder t)" by (auto simp: node_from_def)
  have "node_before z @ y # node_after z =
      takeWhile (\<lambda>x. \<not> P x) (inorder t) @ dropWhile (\<lambda>x. \<not> P x) (inorder t)"
    using node_at_inorder [OF y] by simp
  then have "dropWhile (\<lambda>x. \<not> P x) (inorder t) = y # node_after z"
    unfolding b same_append_eq by (rule sym)
  then have "P y" by (simp add: dropWhile_eq_Cons_conv)
  moreover have "\<forall>w \<in> set (node_before z). \<not> P w"
    unfolding b by (blast dest: set_takeWhileD)
  ultimately show ?thesis using Some y by auto
qed

section \<open>The debug check decides balance\<close>

lemma is_balanced_size: "avl_tree_is_balanced_size t = (balanced t, height t)"
proof (induction t)
  case (Node l x b r)
  then show ?case
    by (cases "height l" "height r" rule: linorder_cases) (auto simp: Let_def)
qed simp

section \<open>The height is logarithmic\<close>

lemma balanced_size:
  assumes "balanced t"
  shows "2 ^ (height t div 2) \<le> length (inorder t) + 1"
  using assms
proof (induction "height t" arbitrary: t rule: less_induct)
  case less
  show ?case
  proof (cases t)
    case (Node l x b r)
    have hs: "2 ^ (height l div 2) \<le> length (inorder l) + 1"
        "2 ^ (height r div 2) \<le> length (inorder r) + 1"
      using less Node by auto
    have "height t \<le> height l + 2" "height t \<le> height r + 2"
      using less.prems Node by auto
    then have "height t div 2 \<le> Suc (height l div 2)" "height t div 2 \<le> Suc (height r div 2)"
      by linarith+
    then have "(2::nat) ^ (height t div 2) \<le> 2 * 2 ^ (height l div 2)"
      "(2::nat) ^ (height t div 2) \<le> 2 * 2 ^ (height r div 2)"
      by (metis power_Suc power_increasing one_le_numeral)+
    with hs Node show ?thesis by simp
  qed simp
qed

section \<open>What a client relies on\<close>

text \<open>
  A client sees a sorted sequence: insertion puts the new element in front of the first one that is
  not below it, deletion takes out the element of a node, and the lower bound of an element is the
  first one not below it.
\<close>

locale sorted_tree = tree_order cmp
  for cmp :: "'a \<Rightarrow> 'a \<Rightarrow> bool" +
  fixes elems :: "'t \<Rightarrow> 'a list"
    and ok :: "'t \<Rightarrow> bool"
    and ins :: "'a \<Rightarrow> 't \<Rightarrow> 't option"
    and del :: "'n \<Rightarrow> 't option"
    and holds :: "'t \<Rightarrow> 'n \<Rightarrow> 'a \<Rightarrow> bool"
    and front :: "'n \<Rightarrow> 'a list"
    and behind :: "'n \<Rightarrow> 'a list"
    and lower :: "'a \<Rightarrow> 't \<Rightarrow> 'n option"
  assumes ins_ok: "ok t \<Longrightarrow> sorted_wrt cmp (elems t) \<Longrightarrow>
      \<exists>t'. ins x t = Some t' \<and> ok t' \<and>
        elems t' = takeWhile (\<lambda>y. \<not> cmp x y) (elems t) @ x # dropWhile (\<lambda>y. \<not> cmp x y) (elems t)"
    and holds_elems: "holds t n x \<Longrightarrow> elems t = front n @ x # behind n"
    and del_ok: "ok t \<Longrightarrow> holds t n x \<Longrightarrow>
      \<exists>t'. del n = Some t' \<and> ok t' \<and> elems t' = front n @ behind n"
    and lower_ok: "sorted_wrt cmp (elems t) \<Longrightarrow>
      (case lower x t of
         None \<Rightarrow> \<forall>y \<in> set (elems t). \<not> cmp x y
       | Some n \<Rightarrow> \<exists>y. holds t n y \<and> cmp x y \<and> (\<forall>z \<in> set (front n). \<not> cmp x z))"
begin

lemma ins_sorted:
  assumes "ok t" "sorted_wrt cmp (elems t)" "ins x t = Some t'"
  shows "ok t'" "sorted_wrt cmp (elems t')" "set (elems t') = insert x (set (elems t))"
proof -
  from ins_ok [OF assms(1,2), of x] assms(3)
  have e: "ok t'" "elems t' = takeWhile (\<lambda>y. \<not> cmp x y) (elems t) @ x #
      dropWhile (\<lambda>y. \<not> cmp x y) (elems t)" by auto
  from e show "ok t'" "sorted_wrt cmp (elems t')" using insert_sorted [OF assms(2)] by simp_all
  have "set (elems t) = set (takeWhile (\<lambda>y. \<not> cmp x y) (elems t)) \<union>
      set (dropWhile (\<lambda>y. \<not> cmp x y) (elems t))"
    by (metis set_append takeWhile_dropWhile_id)
  with e show "set (elems t') = insert x (set (elems t))" by simp
qed

lemma del_sorted:
  assumes "ok t" "sorted_wrt cmp (elems t)" "holds t n x" "del n = Some t'"
  shows "ok t'" "sorted_wrt cmp (elems t')"
  using del_ok [OF assms(1,3)] holds_elems [OF assms(3)] assms(2,4)
  by (auto simp: sorted_wrt_append)

text \<open>The element inserted last is the one its own lower bound finds.\<close>

lemma lower_ins:
  assumes "ok t" "sorted_wrt cmp (elems t)" "ins x t = Some t'"
  shows "\<exists>n. lower x t' = Some n \<and> holds t' n x \<and> front n = takeWhile (\<lambda>y. \<not> cmp x y) (elems t)"
proof -
  let ?a = "takeWhile (\<lambda>y. \<not> cmp x y) (elems t)"
  let ?b = "dropWhile (\<lambda>y. \<not> cmp x y) (elems t)"
  note t' = ins_sorted [OF assms]
  have e: "elems t' = ?a @ x # ?b" using ins_ok [OF assms(1,2), of x] assms(3) by auto
  have xx: "cmp x x" using cmp_total by blast
  have "x \<in> set (elems t')" using t'(3) by simp
  with lower_ok [OF t'(2), of x] xx obtain n where n: "lower x t' = Some n"
    by (cases "lower x t'") auto
  with lower_ok [OF t'(2), of x] obtain y where y: "holds t' n y"
    "cmp x y" "\<forall>z \<in> set (front n). \<not> cmp x z" by auto
  have "takeWhile (\<lambda>y. \<not> cmp x y) (elems t') = ?a" using e xx by (simp add: takeWhile_tail)
  moreover have "takeWhile (\<lambda>y. \<not> cmp x y) (elems t') = front n"
    using holds_elems [OF y(1)] y(2,3) by (simp add: takeWhile_tail takeWhile_eq_all_conv [THEN iffD2])
  ultimately have a: "front n = ?a" by simp
  have "front n @ y # behind n = front n @ x # ?b" 
    using holds_elems [OF y(1)] e unfolding a by (rule trans [OF sym])
  then have "y = x" by simp
  with n y a show ?thesis by blast
qed

lemma del_ins:
  assumes "ok t" "sorted_wrt cmp (elems t)" "ins x t = Some t'" "lower x t' = Some n"
  shows "\<exists>t''. del n = Some t'' \<and> elems t'' = elems t"
proof -
  from lower_ins [OF assms(1-3)] assms(4) have n: "holds t' n x"
    "front n = takeWhile (\<lambda>y. \<not> cmp x y) (elems t)" by auto
  have "elems t' = front n @ x # dropWhile (\<lambda>y. \<not> cmp x y) (elems t)"
    using ins_ok [OF assms(1,2), of x] assms(3) n(2) by auto
  with holds_elems [OF n(1)] have "behind n = dropWhile (\<lambda>y. \<not> cmp x y) (elems t)" by simp
  then have "front n @ behind n = elems t" by (simp only: n(2) takeWhile_dropWhile_id)
  with del_ok [OF ins_sorted(1) [OF assms(1-3)] n(1)] show ?thesis by auto
qed

end

sublocale tree_order \<subseteq> avl: sorted_tree cmp inorder balanced "avl_tree_insert cmp"
  avl_tree_delete node_at node_before node_after "avl_tree_lower_bound cmp"
proof (unfold_locales, goal_cases)
  case (1 t x)
  then show ?case
    using avl_tree_insert_balanced [OF 1(1), of cmp x] insert_unbalanced_path [OF 1(2), of x "[]"]
    by auto
next
  case (2 t n x)
  then show ?case by (rule node_at_inorder)
next
  case (3 t n x)
  from node_atE [OF 3(2)] 3(1) show ?case
    using avl_tree_delete_balanced by (metis append.assoc node_after.simps(2) node_before.simps(2))
next
  case (4 t x)
  have "sorted_wrt (\<lambda>y z. cmp x y \<longrightarrow> cmp x z) (inorder t)"
    using 4 cmp_trans by (blast intro: sorted_wrt_mono_rel [of _ cmp])
  from lower_bound_from [of cmp x t, OF this]
  have "node_from t (takeWhile (\<lambda>y. \<not> cmp x y) (inorder t)) (avl_tree_lower_bound cmp x t)"
    by (simp add: avl_tree_lower_bound_def)
  then show ?case by (rule node_from_takeWhile)
qed

end
