(* ===== verification/Avl_Tree_Props.thy ===== *)
theory Avl_Tree_Props
  imports Avl_Tree
begin

text \<open>
  What the AVL tree promises its clients: every tree that insertions, deletions and replacements
  can produce is balanced and sorted and none of the assertions of \<^verbatim>\<open>avl_tree.c\<close> fails on it, each
  operation changes the sequence of elements in the one way the header describes, and the height
  is logarithmic in the number of elements.
\<close>

section \<open>Reachable trees\<close>

inductive avl_step :: "('a \<Rightarrow> 'a \<Rightarrow> bool) \<Rightarrow> 'a avl \<Rightarrow> 'a avl \<Rightarrow> bool" for cmp where
  insert: "avl_tree_insert cmp x t = Some t' \<Longrightarrow> avl_step cmp t t'"
| delete: "node_at t z x \<Longrightarrow> avl_tree_delete z = Some t' \<Longrightarrow> avl_step cmp t t'"
| swap: "node_at t z x \<Longrightarrow> avl_tree_swap_node cmp z y = Some t' \<Longrightarrow> avl_step cmp t t'"

inductive avl_reachable :: "('a \<Rightarrow> 'a \<Rightarrow> bool) \<Rightarrow> 'a avl \<Rightarrow> bool" for cmp where
  empty: "avl_reachable cmp Null"
| step: "avl_reachable cmp t \<Longrightarrow> avl_step cmp t t' \<Longrightarrow> avl_reachable cmp t'"

lemma swap_node_elems:
  assumes "node_at t z x" "avl_tree_swap_node cmp z y = Some t'"
  shows "inorder t' = node_before z @ y # node_after z" "balanced t' = balanced t" "cmp x y" "cmp y x"
proof -
  from assms(1) obtain p l b r where z: "z = (p, Node l x b r)" "plug p (Node l x b r) = t"
    by (rule node_atE)
  with assms(2) have t': "t' = plug p (Node l y b r)" "cmp x y" "cmp y x"
    by (auto split: if_splits)
  from z t' show "inorder t' = node_before z @ y # node_after z" "balanced t' = balanced t"
    "cmp x y" "cmp y x" by (auto simp: avl_simps)
qed

context tree_order
begin

lemma swap_sorted:
  assumes "sorted_wrt cmp (xs @ x # ys)" "cmp x y" "cmp y x"
  shows "sorted_wrt cmp (xs @ y # ys)"
  using assms(1) cmp_trans [OF _ assms(2)] cmp_trans [OF assms(3)]
  by (auto simp: sorted_wrt_append)

lemma step_keeps_sorted:
  assumes "avl_step cmp t t'" "balanced t" "sorted_wrt cmp (inorder t)"
  shows "balanced t' \<and> sorted_wrt cmp (inorder t')"
  using assms(1)
proof (cases rule: avl_step.cases)
  case (insert x)
  then show ?thesis using avl.ins_sorted [OF assms(2,3)] by blast
next
  case (delete z x)
  then show ?thesis using avl.del_sorted [OF assms(2,3)] by blast
next
  case (swap z x y)
  from swap_node_elems [OF swap] node_at_inorder [OF swap(1)] assms(2,3) show ?thesis
    using swap_sorted [of "node_before z" x "node_after z" y] by simp
qed

lemma reachable_sorted:
  "avl_reachable cmp t \<Longrightarrow> balanced t \<and> sorted_wrt cmp (inorder t)"
  by (induction rule: avl_reachable.induct) (use step_keeps_sorted in auto)

lemma find_from:
  assumes "sorted_wrt cmp (inorder t)"
  shows "case avl_tree_find_fn_to cmp cmp k p t of
      None \<Rightarrow> \<forall>y \<in> set (inorder t). \<not> (cmp k y \<and> cmp y k)
    | Some z \<Rightarrow> \<exists>y. node_at (plug p t) z y \<and> cmp k y \<and> cmp y k"
  using assms
proof (induction t arbitrary: p)
  case (Node l x b r)
  have r: "\<forall>y \<in> set (inorder r). cmp x y" and l: "\<forall>y \<in> set (inorder l). cmp y x"
    using Node.prems by (auto simp: sorted_wrt_append)
  consider "cmp k x" "cmp x k" | "cmp k x" "\<not> cmp x k" | "\<not> cmp k x" by blast
  then show ?case
  proof cases
    case 1
    then show ?thesis by (auto simp: node_at_def)
  next
    case 2
    then have "\<forall>y \<in> set (inorder r). \<not> cmp y k" using r cmp_trans by blast
    with 2 Node.IH(1) [of "Frame LEFT x b r # p"] Node.prems show ?thesis
      by (auto simp: sorted_wrt_append split: option.splits)
  next
    case 3
    then have "\<forall>y \<in> set (inorder l). \<not> cmp k y" using l cmp_trans by blast
    with 3 Node.IH(2) [of "Frame RIGHT x b l # p"] Node.prems show ?thesis
      by (auto simp: sorted_wrt_append split: option.splits)
  qed
qed simp

end

section \<open>Properties\<close>

text \<open>
  (C21) Every tree that can be produced from the empty one by insertions, deletions of one of its
  nodes and replacements of a node by an equal one is AVL-balanced (with every balance field equal
  to the difference of the heights) and sorted, and on such a tree no insertion and no deletion
  runs into a failing assertion or a null pointer.
\<close>

theorem avl_reachable_balanced_sorted:
  assumes "tree_order cmp" "avl_reachable cmp t"
  shows "debug_avl_tree_is_balanced t \<and> sorted_wrt cmp (inorder t) \<and>
    (\<forall>x. avl_tree_insert cmp x t \<noteq> None) \<and> (\<forall>z x. node_at t z x \<longrightarrow> avl_tree_delete z \<noteq> None)"
proof -
  from tree_order.reachable_sorted [OF assms] have t: "balanced t" "sorted_wrt cmp (inorder t)"
    by auto
  have "avl_tree_delete z \<noteq> None" if "node_at t z x" for z x
    using that t(1) by (auto elim!: node_atE dest: avl_tree_delete_balanced)
  moreover have "avl_tree_insert cmp x t \<noteq> None" for x
    using avl_tree_insert_balanced [OF t(1), of cmp x] by auto
  ultimately show ?thesis
    using t by (simp add: debug_avl_tree_is_balanced_def is_balanced_size)
qed

definition demo_tree :: "int avl" where
  "demo_tree = Node (Node Null 1 0 Null) 2 1 (Node (Node Null 3 0 Null) 4 0 (Node Null 5 0 Null))"

lemma int_order: "tree_order ((\<le>) :: int \<Rightarrow> int \<Rightarrow> bool)"
  by unfold_locales auto

lemma demo_tree_reachable: "avl_reachable (\<le>) demo_tree"
proof -
  have "foldl (\<lambda>t x. Option.bind t (avl_tree_insert (\<le>) x)) (Some Null) [1, 2, 4, 3, 5] =
      Some demo_tree" by code_simp
  moreover have "avl_reachable (\<le>) t" if "foldl (\<lambda>t x. Option.bind t (avl_tree_insert (\<le>) x))
      (Some s) xs = Some t" "avl_reachable (\<le>) s" for xs s and t :: "int avl"
    using that
  proof (induction xs arbitrary: s)
    case (Cons x xs)
    have n: "foldl (\<lambda>t x. Option.bind t (avl_tree_insert (\<le>) x)) None ys = (None :: int avl option)"
      for ys by (induction ys) auto
    from Cons.prems n obtain s' where "avl_tree_insert (\<le>) x s = Some s'"
      by (cases "avl_tree_insert (\<le>) x s") auto
    moreover from avl_reachable.step [OF Cons.prems(2) avl_step.insert [OF this]]
    have "avl_reachable (\<le>) s'" .
    ultimately show ?case using Cons.IH [of s'] Cons.prems(1) by simp
  qed simp
  ultimately show ?thesis using avl_reachable.empty by blast
qed

theorem avl_reachable_balanced_sorted_witness:
  "avl_reachable (\<le>) demo_tree \<and> debug_avl_tree_is_balanced demo_tree \<and>
   avl_tree_insert (\<le>) 6 demo_tree \<noteq> None"
  using avl_reachable_balanced_sorted [OF int_order demo_tree_reachable] demo_tree_reachable
  by blast

text \<open>
  (C22) Insertion into a sorted balanced tree returns a balanced tree whose elements are those of
  the old one with the new element in front of the first one that is not below it: all others keep
  their order, and among equal elements the newest comes first, as the header says.
\<close>

theorem avl_tree_insert_place:
  assumes "tree_order cmp" "balanced t" "sorted_wrt cmp (inorder t)"
  shows "\<exists>t'. avl_tree_insert cmp x t = Some t' \<and> balanced t' \<and>
    inorder t' = takeWhile (\<lambda>y. \<not> cmp x y) (inorder t) @ x # dropWhile (\<lambda>y. \<not> cmp x y) (inorder t)"
proof -
  from assms(1) have "\<And>t x. balanced t \<Longrightarrow> sorted_wrt cmp (inorder t) \<Longrightarrow>
      \<exists>t'. avl_tree_insert cmp x t = Some t' \<and> balanced t' \<and>
        inorder t' = takeWhile (\<lambda>y. \<not> cmp x y) (inorder t) @ x # dropWhile (\<lambda>y. \<not> cmp x y) (inorder t)"
    using avl_tree_insert_balanced tree_order.insert_unbalanced_path by fastforce
  with assms show ?thesis by blast
qed

theorem avl_tree_insert_place_witness:
  "balanced demo_tree \<and> (\<exists>t'. avl_tree_insert (\<le>) 4 demo_tree = Some t' \<and> balanced t' \<and>
     inorder t' = [1, 2, 3, 4, 4, 5])"
proof -
  have b: "balanced demo_tree" "sorted_wrt (\<le>) (inorder demo_tree)"
    by (simp_all add: demo_tree_def)
  from avl_tree_insert_place [OF int_order b, of 4] b(1) show ?thesis
    by (simp add: demo_tree_def)
qed

text \<open>
  (C23) Deleting any node of a balanced tree - a leaf, a node with one child or one with two, whose
  place its successor takes - returns a balanced tree with exactly that element gone and all
  others in their order.
\<close>

theorem avl_tree_delete_removes:
  assumes "balanced t" "node_at t z x"
  shows "inorder t = node_before z @ x # node_after z \<and>
    (\<exists>t'. avl_tree_delete z = Some t' \<and> balanced t' \<and> inorder t' = node_before z @ node_after z)"
proof -
  from assms(2) obtain p l b r where z: "z = (p, Node l x b r)" "plug p (Node l x b r) = t"
    by (rule node_atE)
  with assms(1) avl_tree_delete_balanced [of p l x b r] node_at_inorder [OF assms(2)]
  show ?thesis by simp
qed

theorem avl_tree_delete_removes_witness:
  "node_at demo_tree ([], demo_tree) 2 \<and>
   (\<exists>t'. avl_tree_delete ([], demo_tree) = Some t' \<and> balanced t' \<and> inorder t' = [1, 3, 4, 5])"
proof -
  have z: "balanced demo_tree" "node_at demo_tree ([], demo_tree) 2"
    by (simp_all add: demo_tree_def node_at_def)
  from avl_tree_delete_removes [OF z] z show ?thesis by (simp add: demo_tree_def)
qed

text \<open>
  (C24) The lower bound search on a tree in which the elements that are not below the argument come
  last - as they do in every sorted tree - returns the first of these elements, and nothing exactly
  when there is none. The node it returns is a node of that tree.
\<close>

theorem avl_tree_lower_bound_first:
  assumes "sorted_wrt (\<lambda>x y. cmp k x \<longrightarrow> cmp k y) (inorder t)"
  shows "case avl_tree_lower_bound_fn cmp k t of
      None \<Rightarrow> \<forall>y \<in> set (inorder t). \<not> cmp k y
    | Some z \<Rightarrow> \<exists>y. node_at t z y \<and> cmp k y \<and> (\<forall>w \<in> set (node_before z). \<not> cmp k w)"
  using lower_bound_from [of cmp k t, OF assms] by (rule node_from_takeWhile)

theorem avl_tree_lower_bound_first_witness:
  "\<exists>z y. avl_tree_lower_bound_fn (\<le>) 3 demo_tree = Some z \<and> node_at demo_tree z y \<and> (3 :: int) \<le> y"
proof -
  have s: "sorted_wrt (\<lambda>x y. (3 :: int) \<le> x \<longrightarrow> 3 \<le> y) (inorder demo_tree)"
    by (simp add: demo_tree_def)
  from avl_tree_lower_bound_first [of "(\<le>)" 3 demo_tree, OF s] show ?thesis
    by (cases "avl_tree_lower_bound_fn (\<le>) 3 demo_tree") (auto simp: demo_tree_def)
qed

text \<open>
  Searching for an equal element in a sorted tree returns a node of the tree that compares
  equal in both directions, and nothing exactly when no element does.
\<close>

theorem avl_tree_find_equal:
  assumes "tree_order cmp" "sorted_wrt cmp (inorder t)"
  shows "case avl_tree_find cmp t k of
      None \<Rightarrow> \<forall>y \<in> set (inorder t). \<not> (cmp k y \<and> cmp y k)
    | Some z \<Rightarrow> \<exists>y. node_at t z y \<and> cmp k y \<and> cmp y k"
  using tree_order.find_from [OF assms, of k "[]", unfolded plug.simps]
  by (simp add: avl_tree_find_def)

theorem avl_tree_find_equal_witness:
  "\<exists>z. avl_tree_find (\<le>) demo_tree 3 = Some z \<and> node_at demo_tree z 3"
proof -
  have s: "sorted_wrt (\<le>) (inorder demo_tree)" by (simp add: demo_tree_def)
  from avl_tree_find_equal [OF int_order s, of 3] show ?thesis
    by (cases "avl_tree_find (\<le>) demo_tree 3") (auto simp: demo_tree_def)
qed

text \<open>
  The successor of a node is the node of the next element in order, and there is none exactly
  for the last element; the tree is left as it is.
\<close>

theorem avl_tree_next_in_order:
  assumes "node_at t z x"
  shows "case node_after z of
      [] \<Rightarrow> avl_tree_next z = None
    | y # ys \<Rightarrow> \<exists>z'. avl_tree_next z = Some z' \<and> node_at t z' y \<and> node_before z' = node_before z @ [x]"
  using avl_tree_next_node [OF assms] .

theorem avl_tree_next_in_order_witness:
  "\<exists>z'. avl_tree_next ([], demo_tree) = Some z' \<and> node_at demo_tree z' 3"
proof -
  have z: "node_at demo_tree ([], demo_tree) 2" by (simp add: demo_tree_def node_at_def)
  from avl_tree_next_in_order [OF z] show ?thesis by (simp add: demo_tree_def)
qed

text \<open>
  A tree that passes the debug check has a height of at most twice the logarithm of its size:
  a search in a tree of \<open>n\<close> elements follows at most \<open>2 log (n + 1) + 1\<close> links.
\<close>

theorem avl_height_logarithmic:
  assumes "debug_avl_tree_is_balanced t"
  shows "2 ^ (height t div 2) \<le> length (inorder t) + 1"
  using assms balanced_size by (simp add: debug_avl_tree_is_balanced_def is_balanced_size)

theorem avl_height_logarithmic_witness:
  "debug_avl_tree_is_balanced demo_tree \<and> 2 ^ (height demo_tree div 2) \<le> length (inorder demo_tree) + 1"
proof -
  have "debug_avl_tree_is_balanced demo_tree" by code_simp
  with avl_height_logarithmic [OF this] show ?thesis by simp
qed

end
