(* ===== verification/Vma.thy ===== *)
theory Vma
  imports Prelude
begin

text \<open>
  The memory bookkeeping of the LibOS, \<^verbatim>\<open>gramine/libos/src/bookkeep/libos_vma.c\<close>: the areas of the
  address space, kept in an AVL tree ordered by their ends, and every operation on them.

  The tree is modelled by the sequence of its areas in order. \<open>_lookup_vma\<close> cuts it at the first
  area that ends above an address; what \<open>_get_next_vma\<close> and \<open>_get_prev_vma\<close> reach from there is the
  rest of the sequence and the reversed front. That the AVL tree computes exactly these functions
  of its sequence is the subject of the theory \<open>Vma_Tree\<close>. The operations run under
  \<^verbatim>\<open>vma_tree_lock\<close>, so each of them is one function on the state. The build without \<^verbatim>\<open>DEBUG\<close> is
  modelled: assertions have no effect and \<^verbatim>\<open>remove_r_debug\<close> does nothing. \<open>None\<close> stands for a crash.
  The allocation granularity, which the code reads from the platform layer at run time, is the page size
  of 4 KiB that the Linux and SGX hosts report.
\<close>

section \<open>Flags and alignment\<close>

abbreviation PROT_READ :: u32 where "PROT_READ \<equiv> 0x1"
abbreviation PROT_WRITE :: u32 where "PROT_WRITE \<equiv> 0x2"
abbreviation PROT_EXEC :: u32 where "PROT_EXEC \<equiv> 0x4"
abbreviation PROT_GROWSDOWN :: u32 where "PROT_GROWSDOWN \<equiv> 0x01000000"
abbreviation MAP_SHARED :: u32 where "MAP_SHARED \<equiv> 0x01"
abbreviation MAP_PRIVATE :: u32 where "MAP_PRIVATE \<equiv> 0x02"
abbreviation MAP_SHARED_VALIDATE :: u32 where "MAP_SHARED_VALIDATE \<equiv> 0x03"
abbreviation MAP_FIXED :: u32 where "MAP_FIXED \<equiv> 0x10"
abbreviation MAP_ANONYMOUS :: u32 where "MAP_ANONYMOUS \<equiv> 0x20"
abbreviation MAP_32BIT :: u32 where "MAP_32BIT \<equiv> 0x40"
abbreviation MAP_GROWSDOWN :: u32 where "MAP_GROWSDOWN \<equiv> 0x100"
abbreviation MAP_STACK :: u32 where "MAP_STACK \<equiv> 0x20000"
abbreviation MAP_HUGETLB :: u32 where "MAP_HUGETLB \<equiv> 0x40000"
abbreviation MAP_FIXED_NOREPLACE :: u32 where "MAP_FIXED_NOREPLACE \<equiv> 0x100000"
abbreviation MAP_HUGE_2MB :: u32 where "MAP_HUGE_2MB \<equiv> 0x54000000"
abbreviation MAP_HUGE_1GB :: u32 where "MAP_HUGE_1GB \<equiv> 0x78000000"
abbreviation VMA_UNMAPPED :: u32 where "VMA_UNMAPPED \<equiv> 0x10000000"
abbreviation VMA_INTERNAL :: u32 where "VMA_INTERNAL \<equiv> 0x20000000"
abbreviation VMA_TAINTED :: u32 where "VMA_TAINTED \<equiv> 0x40000000"
abbreviation O_RDWR :: u32 where "O_RDWR \<equiv> 0x2"

definition has_flag :: "u32 \<Rightarrow> u32 \<Rightarrow> bool" where
  "has_flag flags bits \<longleftrightarrow> flags AND bits \<noteq> 0"

definition filter_saved_flags :: "u32 \<Rightarrow> u32" where
  "filter_saved_flags flags = flags AND
     (MAP_SHARED OR MAP_SHARED_VALIDATE OR MAP_PRIVATE OR MAP_ANONYMOUS OR MAP_GROWSDOWN
      OR MAP_HUGETLB OR MAP_HUGE_2MB OR MAP_HUGE_1GB OR MAP_STACK
      OR VMA_UNMAPPED OR VMA_INTERNAL OR VMA_TAINTED)"

abbreviation ALLOC_ALIGNMENT :: u64 where "ALLOC_ALIGNMENT \<equiv> 0x1000"

definition is_alloc_aligned :: "u64 \<Rightarrow> bool" where
  "is_alloc_aligned x \<longleftrightarrow> x AND (ALLOC_ALIGNMENT - 1) = 0"

definition alloc_align_down :: "u64 \<Rightarrow> u64" where
  "alloc_align_down x = x - (x AND (ALLOC_ALIGNMENT - 1))"

definition alloc_align_up :: "u64 \<Rightarrow> u64" where
  "alloc_align_up x = alloc_align_down (x + ALLOC_ALIGNMENT - 1)"

section \<open>State\<close>

text \<open>A file handle is a number; \<open>None\<close> is the null pointer.\<close>

record libos_vma =
  vbegin :: u64
  vend :: u64
  vprot :: u32
  vflags :: u32
  vfile :: "nat option"
  voffset :: u64
  vcomment :: string

text \<open>
  How a call to \<^verbatim>\<open>alloc_vma\<close> finds its object: in the cache of the thread or the free objects of
  the memory manager, or by enlarging the manager, which bookkeeps and allocates a new area; the
  flag says whether \<^verbatim>\<open>PalVirtualMemoryAlloc\<close> succeeds. The list of the state holds the outcomes to
  come; when it is used up there is always a free object.
\<close>

datatype alloc_event = Free_object | Enlarge bool

record vma_state =
  vma_tree :: "libos_vma list"
  g_total_memory_size :: u64
  g_peak_total_memory_size :: u64
  hdl_refs :: "nat \<Rightarrow> int"
  vma_allocs :: "alloc_event list"

text \<open>
  What the operations read and never write: the user address range, the randomized top address,
  the size of an area of the manager, and the handles' open flags.
\<close>

record vma_env =
  user_address_start :: u64
  user_address_end :: u64
  g_aslr_addr_top :: u64
  vma_area_size :: u64
  hdl_flags :: "nat \<Rightarrow> u32"

abbreviation VMA_COMMENT_LEN :: nat where "VMA_COMMENT_LEN \<equiv> 16"

definition copy_comment :: "string \<Rightarrow> string" where
  "copy_comment comment = take (VMA_COMMENT_LEN - 1) comment"

definition get_file :: "nat option \<Rightarrow> vma_state \<Rightarrow> vma_state" where
  "get_file file s =
     (case file of None \<Rightarrow> s | Some h \<Rightarrow> s\<lparr>hdl_refs := (hdl_refs s)(h := hdl_refs s h + 1)\<rparr>)"

definition put_file :: "nat option \<Rightarrow> vma_state \<Rightarrow> vma_state" where
  "put_file file s =
     (case file of None \<Rightarrow> s | Some h \<Rightarrow> s\<lparr>hdl_refs := (hdl_refs s)(h := hdl_refs s h - 1)\<rparr>)"

definition total_memory_size_add :: "u64 \<Rightarrow> vma_state \<Rightarrow> vma_state" where
  "total_memory_size_add len s =
     (let t = g_total_memory_size s + len
      in s\<lparr>g_total_memory_size := t,
           g_peak_total_memory_size := max (g_peak_total_memory_size s) t\<rparr>)"

definition total_memory_size_sub :: "u64 \<Rightarrow> vma_state \<Rightarrow> vma_state" where
  "total_memory_size_sub len s = s\<lparr>g_total_memory_size := g_total_memory_size s - len\<rparr>"

section \<open>Looking up areas\<close>

definition vma_tree_cmp :: "libos_vma \<Rightarrow> libos_vma \<Rightarrow> bool" where
  "vma_tree_cmp a b \<longleftrightarrow> vend a \<le> vend b"

definition is_addr_in_vma :: "u64 \<Rightarrow> libos_vma \<Rightarrow> bool" where
  "is_addr_in_vma addr v \<longleftrightarrow> vbegin v \<le> addr \<and> addr < vend v"

definition cmp_addr_to_vma :: "u64 \<Rightarrow> libos_vma \<Rightarrow> bool" where
  "cmp_addr_to_vma addr v \<longleftrightarrow> addr < vend v"

text \<open>The area \<^verbatim>\<open>_lookup_vma\<close> returns and its successors, and its predecessors.\<close>

definition vmas_from :: "u64 \<Rightarrow> libos_vma list \<Rightarrow> libos_vma list" where
  "vmas_from addr l = dropWhile (\<lambda>v. \<not> cmp_addr_to_vma addr v) l"

definition vmas_before :: "u64 \<Rightarrow> libos_vma list \<Rightarrow> libos_vma list" where
  "vmas_before addr l = takeWhile (\<lambda>v. \<not> cmp_addr_to_vma addr v) l"

definition vma_insert :: "libos_vma \<Rightarrow> libos_vma list \<Rightarrow> libos_vma list" where
  "vma_insert v l =
     takeWhile (\<lambda>w. \<not> vma_tree_cmp v w) l @ v # dropWhile (\<lambda>w. \<not> vma_tree_cmp v w) l"

definition insert_counted :: "libos_vma \<Rightarrow> vma_state \<Rightarrow> vma_state" where
  "insert_counted v s =
     total_memory_size_add (vend v - vbegin v) (s\<lparr>vma_tree := vma_insert v (vma_tree s)\<rparr>)"

section \<open>Removing a range\<close>

text \<open>The old area cut at \<open>addr\<close>, and the new one above; the copy takes a reference to the file.\<close>

definition copy_vma :: "libos_vma \<Rightarrow> libos_vma" where
  "copy_vma old = old\<lparr>vcomment := copy_comment (vcomment old)\<rparr>"

definition split_vma :: "libos_vma \<Rightarrow> u64 \<Rightarrow> libos_vma \<times> libos_vma" where
  "split_vma old addr =
     (let new = (copy_vma old)\<lparr>vbegin := addr\<rparr>;
          new = (if vfile new \<noteq> None then new\<lparr>voffset := voffset new + (vbegin new - vbegin old)\<rparr>
                 else new)
      in (old\<lparr>vend := addr\<rparr>, new))"

definition is_internal_vma :: "libos_vma \<Rightarrow> bool" where
  "is_internal_vma v = has_flag (vflags v) VMA_INTERNAL"

fun check_same_owner :: "u64 \<Rightarrow> bool \<Rightarrow> libos_vma list \<Rightarrow> bool" where
  "check_same_owner fin is_internal [] = True"
| "check_same_owner fin is_internal (v # vs) =
     (if vbegin v < fin
      then (if is_internal_vma v \<noteq> is_internal then False else check_same_owner fin is_internal vs)
      else True)"

definition trim_front :: "u64 \<Rightarrow> libos_vma \<Rightarrow> libos_vma" where
  "trim_front fin v =
     (let v = (if vfile v \<noteq> None then v\<lparr>voffset := voffset v + (fin - vbegin v)\<rparr> else v)
      in v\<lparr>vbegin := fin\<rparr>)"

text \<open>Areas that end in the range are deleted; the one reaching out of it loses its front.\<close>

fun remove_whole :: "u64 \<Rightarrow> libos_vma list \<Rightarrow> libos_vma list \<times> libos_vma list" where
  "remove_whole fin [] = ([], [])"
| "remove_whole fin (v # vs) =
     (if vend v \<le> fin then (let (freed, kept) = remove_whole fin vs in (v # freed, kept))
      else if vbegin v < fin then ([], trim_front fin v # vs)
      else ([], v # vs))"

definition delete_counted :: "libos_vma list \<Rightarrow> vma_state \<Rightarrow> vma_state" where
  "delete_counted freed s =
     fold (\<lambda>v. total_memory_size_sub (vend v - vbegin v)) freed s"

text \<open>The result, whether the preallocated area was used, the areas to free and the state.\<close>

definition vma_bkeep_remove ::
  "u64 \<Rightarrow> u64 \<Rightarrow> bool \<Rightarrow> bool \<Rightarrow> vma_state \<Rightarrow> int \<times> bool \<times> libos_vma list \<times> vma_state" where
  "vma_bkeep_remove start fin is_internal new_vma s =
     (let pre = vmas_before start (vma_tree s)
      in case vmas_from start (vma_tree s) of
           [] \<Rightarrow> (0, False, [], s)
         | v # vs \<Rightarrow>
             (if \<not> check_same_owner fin is_internal (v # vs) then (- EACCES, False, [], s)
              else if vbegin v < start \<and> fin < vend v
              then (if \<not> new_vma then (- ENOMEM, False, [], s)
                    else (let (old, new) = split_vma v fin;
                              s = get_file (vfile v) s;
                              s = s\<lparr>vma_tree := pre @ old\<lparr>vend := start\<rparr> # vs\<rparr>
                          in (0, True, [], insert_counted new s)))
              else if vbegin v < start
              then (let (freed, kept) = remove_whole fin vs
                    in (0, False, freed,
                        delete_counted freed (s\<lparr>vma_tree := pre @ v\<lparr>vend := start\<rparr> # kept\<rparr>)))
              else (let (freed, kept) = remove_whole fin (v # vs)
                    in (0, False, freed, delete_counted freed (s\<lparr>vma_tree := pre @ kept\<rparr>)))))"

section \<open>Finding a free range\<close>

fun search_gap :: "u64 \<Rightarrow> u64 \<Rightarrow> u64 \<Rightarrow> libos_vma list \<Rightarrow> u64 option" where
  "search_gap bottom_addr len max_addr [] =
     (if bottom_addr \<le> max_addr \<and> max_addr - bottom_addr \<ge> len then Some max_addr else None)"
| "search_gap bottom_addr len max_addr (v # vs) =
     (if bottom_addr \<le> vend v
      then (if max_addr - vend v \<ge> len then Some max_addr else search_gap bottom_addr len (vbegin v) vs)
      else if bottom_addr \<le> max_addr \<and> max_addr - bottom_addr \<ge> len then Some max_addr else None)"

definition find_gap :: "u64 \<Rightarrow> u64 \<Rightarrow> u64 \<Rightarrow> libos_vma list \<Rightarrow> u64 option" where
  "find_gap bottom_addr top_addr len l =
     search_gap bottom_addr len
       (case vmas_from top_addr l of [] \<Rightarrow> top_addr | v # vs \<Rightarrow> min top_addr (vbegin v))
       (rev (vmas_before top_addr l))"

text \<open>The part of \<^verbatim>\<open>bkeep_mmap_any_in_range\<close> under the lock: the new area takes the gap found.\<close>

definition mmap_any_locked ::
  "u64 \<Rightarrow> u64 \<Rightarrow> u64 \<Rightarrow> libos_vma \<Rightarrow> vma_state \<Rightarrow> u64 option \<times> vma_state" where
  "mmap_any_locked bottom_addr top_addr len new s =
     (case find_gap bottom_addr top_addr len (vma_tree s) of
        None \<Rightarrow> (None, s)
      | Some max_addr \<Rightarrow>
          (let new = new\<lparr>vend := max_addr, vbegin := max_addr - len\<rparr>
           in (Some (vbegin new), insert_counted new s)))"

definition new_mapping ::
  "u32 \<Rightarrow> u32 \<Rightarrow> nat option \<Rightarrow> u64 \<Rightarrow> string \<Rightarrow> libos_vma" where
  "new_mapping prot flags file offset comment =
     \<lparr>vbegin = 0, vend = 0, vprot = prot,
      vflags = filter_saved_flags flags OR
        (if file \<noteq> None \<and> has_flag prot PROT_WRITE then VMA_TAINTED else 0),
      vfile = file, voffset = (if file \<noteq> None then offset else 0),
      vcomment = copy_comment comment\<rparr>"

section \<open>Allocating and freeing areas\<close>

text \<open>
  The checks and the search of \<^verbatim>\<open>bkeep_mmap_any_in_range\<close>, with the object for the area at hand. The
  result is the address, or the error.
\<close>

definition mmap_any_checks :: "u64 \<Rightarrow> u64 \<Rightarrow> u64 \<Rightarrow> u32 \<Rightarrow> int + u64" where
  "mmap_any_checks bottom_addr top_addr len flags =
     (if len = 0 \<or> \<not> is_alloc_aligned len then Inl (- EINVAL)
      else if \<not> is_alloc_aligned bottom_addr \<or> \<not> is_alloc_aligned top_addr then Inl (- EINVAL)
      else if has_flag flags MAP_32BIT
      then (let top_addr = min top_addr 0x80000000
            in if bottom_addr \<ge> top_addr then Inl (- ENOMEM) else Inr top_addr)
      else Inr top_addr)"

definition vma_malloc :: "vma_env \<Rightarrow> u64 \<Rightarrow> bool \<Rightarrow> vma_state \<Rightarrow> u64 option \<times> vma_state" where
  "vma_malloc env sz pal_ok s =
     (let sz = alloc_align_up sz;
          flags = MAP_PRIVATE OR MAP_ANONYMOUS OR VMA_INTERNAL
      in case mmap_any_checks (user_address_start env) (user_address_end env) sz flags of
           Inl e \<Rightarrow> (None, s)
         | Inr top_addr \<Rightarrow>
             (case mmap_any_locked (user_address_start env) top_addr sz
                     (new_mapping (PROT_READ OR PROT_WRITE) flags None 0 ''vma'') s of
                (None, s) \<Rightarrow> (None, s)
              | (Some addr, s) \<Rightarrow>
                  (if pal_ok then (Some addr, s)
                   else (case vma_bkeep_remove addr (addr + sz) True False s of
                           (ret, used, freed, s) \<Rightarrow> (None, s)))))"

definition alloc_vma :: "vma_env \<Rightarrow> vma_state \<Rightarrow> bool \<times> vma_state" where
  "alloc_vma env s =
     (case vma_allocs s of
        [] \<Rightarrow> (True, s)
      | Free_object # es \<Rightarrow> (True, s\<lparr>vma_allocs := es\<rparr>)
      | Enlarge pal_ok # es \<Rightarrow>
          (case vma_malloc env (vma_area_size env) pal_ok (s\<lparr>vma_allocs := es\<rparr>) of
             (addr, s) \<Rightarrow> (addr \<noteq> None, s)))"

definition free_vma :: "libos_vma \<Rightarrow> vma_state \<Rightarrow> vma_state" where
  "free_vma v s = put_file (vfile v) s"

definition free_vmas_freelist :: "libos_vma list \<Rightarrow> vma_state \<Rightarrow> vma_state" where
  "free_vmas_freelist vs s = fold free_vma vs s"

section \<open>Bookkeeping operations\<close>

text \<open>\<^verbatim>\<open>_bkeep_initial_vma\<close>, and the loop of \<^verbatim>\<open>init_vma\<close> over the initial areas.\<close>

definition overlaps_next :: "u64 \<Rightarrow> u64 \<Rightarrow> libos_vma list \<Rightarrow> bool" where
  "overlaps_next start fin l =
     (case vmas_from start l of [] \<Rightarrow> False | v # vs \<Rightarrow> vbegin v < fin)"

definition bkeep_initial_vma :: "libos_vma \<Rightarrow> vma_state \<Rightarrow> int \<times> vma_state" where
  "bkeep_initial_vma new s =
     (if overlaps_next (vbegin new) (vend new) (vma_tree s) then (- EEXIST, s)
      else (0, insert_counted new s))"

fun bkeep_initial_vmas :: "libos_vma list \<Rightarrow> vma_state \<Rightarrow> int \<times> vma_state" where
  "bkeep_initial_vmas [] s = (0, s)"
| "bkeep_initial_vmas (v # vs) s =
     (if vbegin v = vend v then bkeep_initial_vmas vs s
      else if \<not> is_alloc_aligned (vbegin v) \<or> \<not> is_alloc_aligned (vend v) then (- EINVAL, s)
      else (let (ret, s) = bkeep_initial_vma v s
            in if ret < 0 then (ret, s) else bkeep_initial_vmas vs s))"

definition unmapped_vma :: "u64 \<Rightarrow> u64 \<Rightarrow> libos_vma" where
  "unmapped_vma start fin =
     \<lparr>vbegin = start, vend = fin, vprot = 0, vflags = VMA_INTERNAL OR VMA_UNMAPPED,
      vfile = None, voffset = 0, vcomment = ''''\<rparr>"

text \<open>The address range is blocked by a temporary area until \<^verbatim>\<open>bkeep_remove_tmp_vma\<close>.\<close>

definition bkeep_munmap ::
  "vma_env \<Rightarrow> u64 \<Rightarrow> u64 \<Rightarrow> bool \<Rightarrow> vma_state \<Rightarrow> int \<times> libos_vma option \<times> vma_state" where
  "bkeep_munmap env addr len is_internal s =
     (if len = 0 \<or> \<not> is_alloc_aligned len \<or> \<not> is_alloc_aligned addr then (- EINVAL, None, s)
      else (case alloc_vma env s of
              (False, s) \<Rightarrow> (- ENOMEM, None, s)
            | (True, s) \<Rightarrow>
                (let (vma2, s) = alloc_vma env s;
                     (ret, used, freed, s) = vma_bkeep_remove addr (addr + len) is_internal vma2 s;
                     tmp = unmapped_vma addr (addr + len);
                     s = (if ret \<ge> 0 then insert_counted tmp s else s);
                     s = free_vmas_freelist freed s
                 in (ret, if ret \<ge> 0 then Some tmp else None, s))))"

text \<open>The pointer of the area identifies it in the tree; areas are told apart by their place.\<close>

definition bkeep_remove_tmp_vma :: "libos_vma \<Rightarrow> vma_state \<Rightarrow> vma_state" where
  "bkeep_remove_tmp_vma v s =
     free_vma v (total_memory_size_sub (vend v - vbegin v)
       (s\<lparr>vma_tree := remove1 v (vma_tree s)\<rparr>))"

definition bkeep_mmap_fixed ::
  "vma_env \<Rightarrow> u64 \<Rightarrow> u64 \<Rightarrow> u32 \<Rightarrow> u32 \<Rightarrow> nat option \<Rightarrow> u64 \<Rightarrow> string \<Rightarrow> vma_state \<Rightarrow>
   int \<times> vma_state" where
  "bkeep_mmap_fixed env addr len prot flags file offset comment s =
     (if len = 0 \<or> \<not> is_alloc_aligned len \<or> \<not> is_alloc_aligned addr then (- EINVAL, s)
      else (case alloc_vma env s of
              (False, s) \<Rightarrow> (- ENOMEM, s)
            | (True, s) \<Rightarrow>
                (let (vma1, s) = alloc_vma env s;
                     new = (new_mapping prot flags file offset comment)
                             \<lparr>vbegin := addr, vend := addr + len\<rparr>;
                     s = get_file file s;
                     (ret, used, freed, s) =
                       (if has_flag flags MAP_FIXED_NOREPLACE
                        then (if overlaps_next (vbegin new) (vend new) (vma_tree s)
                              then (- EEXIST, False, [], s) else (0, False, [], s))
                        else vma_bkeep_remove (vbegin new) (vend new)
                               (has_flag flags VMA_INTERNAL) vma1 s);
                     s = (if ret \<ge> 0 then insert_counted new s else s);
                     s = free_vmas_freelist freed s
                 in (ret, if ret < 0 then free_vma new s else s))))"

definition bkeep_mmap_any_in_range ::
  "vma_env \<Rightarrow> u64 \<Rightarrow> u64 \<Rightarrow> u64 \<Rightarrow> u32 \<Rightarrow> u32 \<Rightarrow> nat option \<Rightarrow> u64 \<Rightarrow> string \<Rightarrow> vma_state \<Rightarrow>
   int \<times> u64 \<times> vma_state" where
  "bkeep_mmap_any_in_range env bottom_addr top_addr len prot flags file offset comment s =
     (case mmap_any_checks bottom_addr top_addr len flags of
        Inl e \<Rightarrow> (e, 0, s)
      | Inr top_addr \<Rightarrow>
          (case alloc_vma env s of
             (False, s) \<Rightarrow> (- ENOMEM, 0, s)
           | (True, s) \<Rightarrow>
               (let new = new_mapping prot flags file offset comment;
                    s = get_file file s
                in case mmap_any_locked bottom_addr top_addr len new s of
                     (None, s) \<Rightarrow> (- ENOMEM, 0, free_vma new s)
                   | (Some addr, s) \<Rightarrow> (0, addr, s))))"

definition bkeep_mmap_any ::
  "vma_env \<Rightarrow> u64 \<Rightarrow> u32 \<Rightarrow> u32 \<Rightarrow> nat option \<Rightarrow> u64 \<Rightarrow> string \<Rightarrow> vma_state \<Rightarrow>
   int \<times> u64 \<times> vma_state" where
  "bkeep_mmap_any env len prot flags file offset comment s =
     bkeep_mmap_any_in_range env (user_address_start env) (user_address_end env)
       len prot flags file offset comment s"

definition bkeep_mmap_any_aslr ::
  "vma_env \<Rightarrow> u64 \<Rightarrow> u32 \<Rightarrow> u32 \<Rightarrow> nat option \<Rightarrow> u64 \<Rightarrow> string \<Rightarrow> vma_state \<Rightarrow>
   int \<times> u64 \<times> vma_state" where
  "bkeep_mmap_any_aslr env len prot flags file offset comment s =
     (case bkeep_mmap_any_in_range env (user_address_start env) (g_aslr_addr_top env)
             len prot flags file offset comment s of
        (ret, addr, s) \<Rightarrow>
          (if ret \<ge> 0 then (ret, addr, s)
           else bkeep_mmap_any env len prot flags file offset comment s))"

section \<open>Changing protections\<close>

definition vma_update_prot :: "libos_vma \<Rightarrow> u32 \<Rightarrow> libos_vma" where
  "vma_update_prot v prot =
     (let v = v\<lparr>vprot := prot AND (PROT_READ OR PROT_WRITE OR PROT_EXEC)\<rparr>
      in if vfile v \<noteq> None \<and> has_flag prot PROT_WRITE
         then v\<lparr>vflags := vflags v OR VMA_TAINTED\<rparr> else v)"

definition is_file_prot_matching :: "vma_env \<Rightarrow> nat \<Rightarrow> u32 \<Rightarrow> bool" where
  "is_file_prot_matching env h prot \<longleftrightarrow>
     \<not> has_flag prot PROT_WRITE \<or> has_flag (hdl_flags env h) O_RDWR"

text \<open>The checks of the first loop of \<^verbatim>\<open>_vma_bkeep_change\<close> on one area, 0 when it passes.\<close>

definition change_check :: "vma_env \<Rightarrow> u32 \<Rightarrow> bool \<Rightarrow> libos_vma \<Rightarrow> int" where
  "change_check env prot is_internal v =
     (if is_internal_vma v \<noteq> is_internal then - EACCES
      else if has_flag prot PROT_GROWSDOWN \<and> \<not> has_flag (vflags v) MAP_GROWSDOWN then - EINVAL
      else (case vfile v of
              None \<Rightarrow> 0
            | Some h \<Rightarrow> (if has_flag (vflags v) MAP_SHARED \<and> \<not> is_file_prot_matching env h prot
                        then - EACCES else 0)))"

fun change_check_loop ::
  "vma_env \<Rightarrow> u64 \<Rightarrow> u32 \<Rightarrow> bool \<Rightarrow> bool \<Rightarrow> libos_vma list \<Rightarrow> int" where
  "change_check_loop env fin prot is_internal is_continuous [] = - ENOMEM"
| "change_check_loop env fin prot is_internal is_continuous (v # vs) =
     (if change_check env prot is_internal v \<noteq> 0 then change_check env prot is_internal v
      else if fin \<le> vend v then (if is_continuous then 0 else - ENOMEM)
      else (case vs of
              [] \<Rightarrow> - ENOMEM
            | w # ws \<Rightarrow> change_check_loop env fin prot is_internal
                         (is_continuous \<and> vend v = vbegin w) vs))"

text \<open>
  The areas in the range get the new protection; the last one is cut when it reaches out of the
  range, and the part above it is returned to be inserted.
\<close>

fun change_loop :: "u64 \<Rightarrow> u32 \<Rightarrow> libos_vma list \<Rightarrow> libos_vma list \<times> libos_vma option" where
  "change_loop fin prot [] = ([], None)"
| "change_loop fin prot (v # vs) =
     (if vend v \<le> fin
      then (let (ws, new) = change_loop fin prot vs in (vma_update_prot v prot # ws, new))
      else if fin \<le> vbegin v then (v # vs, None)
      else (let (old, new) = split_vma v fin in (vma_update_prot old prot # vs, Some new)))"

definition insert_copy :: "libos_vma option \<Rightarrow> vma_state \<Rightarrow> vma_state" where
  "insert_copy new s =
     (case new of None \<Rightarrow> s | Some v \<Rightarrow> insert_counted v (get_file (vfile v) s))"

text \<open>
  A new area that a split produced is changed again while it is in the tree; it stands right behind
  the one it was cut from (\<open>vma_insert_split\<close> below). \<open>None\<close>: the range ends where its first area ends, this area starts below the range and no area
  follows it. The code then follows the null pointer it got for the next area.
\<close>

definition vma_bkeep_change ::
  "vma_env \<Rightarrow> u64 \<Rightarrow> u64 \<Rightarrow> u32 \<Rightarrow> bool \<Rightarrow> vma_state \<Rightarrow> (int \<times> vma_state) option" where
  "vma_bkeep_change env start fin prot is_internal s =
     (let pre = vmas_before start (vma_tree s)
      in case vmas_from start (vma_tree s) of
           [] \<Rightarrow> Some (- ENOMEM, s)
         | v # vs \<Rightarrow>
             (if start < vbegin v then Some (- ENOMEM, s)
              else (let ret = change_check_loop env fin prot is_internal True (v # vs)
                    in if ret \<noteq> 0 then Some (ret, s)
                       else if vbegin v < start \<and> \<not> has_flag prot PROT_GROWSDOWN
                       then (let (old, new1) = split_vma v start;
                                 new1 = vma_update_prot new1 prot;
                                 s1 = insert_copy (Some new1) (s\<lparr>vma_tree := pre @ old # vs\<rparr>)
                             in if fin < vend new1
                                then (let (new1', new2) = split_vma new1 fin;
                                          new2 = vma_update_prot new2 (vprot old);
                                          s2 = s1\<lparr>vma_tree := pre @ old # new1' # vs\<rparr>
                                      in Some (0, insert_copy (Some new2) s2))
                                else if vs = [] then None
                                else (let (ws, new) = change_loop fin prot vs
                                      in Some (0, insert_copy new
                                                    (s1\<lparr>vma_tree := pre @ old # new1 # ws\<rparr>))))
                       else (let (ws, new) = change_loop fin prot (v # vs)
                             in Some (0, insert_copy new (s\<lparr>vma_tree := pre @ ws\<rparr>))))))"

definition bkeep_mprotect ::
  "vma_env \<Rightarrow> u64 \<Rightarrow> u64 \<Rightarrow> u32 \<Rightarrow> bool \<Rightarrow> vma_state \<Rightarrow> (int \<times> vma_state) option" where
  "bkeep_mprotect env addr len prot is_internal s =
     (if len = 0 \<or> \<not> is_alloc_aligned len \<or> \<not> is_alloc_aligned addr then Some (- EINVAL, s)
      else (case alloc_vma env s of
              (False, s) \<Rightarrow> Some (- ENOMEM, s)
            | (True, s) \<Rightarrow>
                (case alloc_vma env s of
                   (False, s) \<Rightarrow> Some (- ENOMEM, s)
                 | (True, s) \<Rightarrow> vma_bkeep_change env addr (addr + len) prot is_internal s)))"

end
