(* ===== verification/Vma_Inv.thy ===== *)
theory Vma_Inv
  imports Vma
begin

text \<open>
  The invariant of the memory bookkeeping - the areas are nonempty and pairwise disjoint and stand
  in the order of their addresses - and what each operation does to the address space, told
  address by address: \<open>view l a\<close> is the protection, the flags, the file with the position in it and
  the comment that the areas \<open>l\<close> give the address \<open>a\<close>.
\<close>

section \<open>Invariant and view\<close>

definition vma_ok :: "libos_vma \<Rightarrow> bool" where
  "vma_ok v \<longleftrightarrow> vbegin v < vend v \<and> is_alloc_aligned (vbegin v) \<and> is_alloc_aligned (vend v)
     \<and> length (vcomment v) < VMA_COMMENT_LEN"

definition vmas_wf :: "libos_vma list \<Rightarrow> bool" where
  "vmas_wf l \<longleftrightarrow> sorted_wrt (\<lambda>v w. vend v \<le> vbegin w) l \<and> (\<forall>v \<in> set l. vma_ok v)"

type_synonym page_info = "u32 \<times> u32 \<times> (nat \<times> u64) option \<times> string"

definition page :: "libos_vma \<Rightarrow> u64 \<Rightarrow> page_info" where
  "page v a = (vprot v, vflags v,
     map_option (\<lambda>h. (h, voffset v + (a - vbegin v))) (vfile v), vcomment v)"

definition view :: "libos_vma list \<Rightarrow> u64 \<Rightarrow> page_info option" where
  "view l a = map_option (\<lambda>v. page v a) (find (is_addr_in_vma a) l)"

named_theorems view_simps

lemma view_Nil [view_simps]: "view [] a = None"
  by (simp add: view_def)

lemma view_Cons [view_simps]:
  "view (v # vs) a = (if vbegin v \<le> a \<and> a < vend v then Some (page v a) else view vs a)"
  by (simp add: view_def is_addr_in_vma_def)

lemma view_append [view_simps]:
  "view (xs @ ys) a = (case view xs a of None \<Rightarrow> view ys a | Some p \<Rightarrow> Some p)"
  by (induction xs) (simp_all add: view_simps)

lemma view_None_iff: "view l a = None \<longleftrightarrow> (\<forall>v \<in> set l. \<not> (vbegin v \<le> a \<and> a < vend v))"
  by (induction l) (simp_all add: view_simps)

lemma view_None_below: "\<forall>v \<in> set l. a < vbegin v \<Longrightarrow> view l a = None"
  by (auto simp: view_None_iff)

lemma view_None_above: "\<forall>v \<in> set l. vend v \<le> a \<Longrightarrow> view l a = None"
  by (auto simp: view_None_iff)

lemma vmas_wf_Nil [simp]: "vmas_wf []"
  by (simp add: vmas_wf_def)

lemma vmas_wf_Cons:
  "vmas_wf (v # vs) \<longleftrightarrow> vma_ok v \<and> vmas_wf vs \<and> (\<forall>w \<in> set vs. vend v \<le> vbegin w)"
  by (auto simp: vmas_wf_def)

lemma vmas_wf_append:
  "vmas_wf (xs @ ys) \<longleftrightarrow> vmas_wf xs \<and> vmas_wf ys \<and>
     (\<forall>x \<in> set xs. \<forall>y \<in> set ys. vend x \<le> vbegin y)"
  by (auto simp: vmas_wf_def sorted_wrt_append)

lemmas wf_simps = vmas_wf_Cons vmas_wf_append

lemma vmas_wf_nonempty: "vmas_wf l \<Longrightarrow> v \<in> set l \<Longrightarrow> vbegin v < vend v"
  by (simp add: vmas_wf_def vma_ok_def)

lemma vmas_from_Cons:
  "vmas_from addr (v # vs) = (if addr < vend v then v # vs else vmas_from addr vs)"
  by (simp add: vmas_from_def cmp_addr_to_vma_def)

lemma vmas_before_Cons:
  "vmas_before addr (v # vs) = (if addr < vend v then [] else v # vmas_before addr vs)"
  by (simp add: vmas_before_def cmp_addr_to_vma_def)

lemma split_at_addr:
  assumes "vmas_wf l"
  shows "l = vmas_before addr l @ vmas_from addr l"
    "\<forall>v \<in> set (vmas_before addr l). vend v \<le> addr"
    "\<forall>v \<in> set (vmas_from addr l). addr < vend v"
proof -
  show "l = vmas_before addr l @ vmas_from addr l"
    by (simp add: vmas_before_def vmas_from_def)
  show "\<forall>v \<in> set (vmas_before addr l). vend v \<le> addr"
    by (auto simp: vmas_before_def cmp_addr_to_vma_def dest: set_takeWhileD)
  show "\<forall>v \<in> set (vmas_from addr l). addr < vend v"
    using assms
  proof (induction l)
    case (Cons v vs)
    have "addr < vend w" if "addr < vend v" "w \<in> set vs" for w
    proof -
      have "vend v \<le> vbegin w" "vbegin w < vend w"
        using Cons.prems that(2) vmas_wf_nonempty by (auto simp: wf_simps)
      with that(1) show ?thesis by order
    qed
    then have tl: "addr < vend v \<Longrightarrow> \<forall>w \<in> set vs. addr < vend w" by blast
    have ih: "\<forall>v \<in> set (vmas_from addr vs). addr < vend v"
      using Cons by (simp add: wf_simps)
    show ?case
    proof (cases "addr < vend v")
      case True
      then have "vmas_from addr (v # vs) = v # vs" by (simp add: vmas_from_Cons)
      with tl [OF True] True show ?thesis by (simp only: list.set ball_simps)
    next
      case False
      then have "vmas_from addr (v # vs) = vmas_from addr vs" by (simp add: vmas_from_Cons)
      with ih show ?thesis by (simp only:)
    qed
  qed (simp add: vmas_from_def)
qed

lemma vma_insert_at:
  assumes "\<forall>x \<in> set xs. vend x < vend v" "\<forall>y \<in> set ys. vend v \<le> vend y"
  shows "vma_insert v (xs @ ys) = xs @ v # ys"
proof -
  have "takeWhile (\<lambda>w. \<not> vma_tree_cmp v w) (xs @ ys) = xs @ takeWhile (\<lambda>w. \<not> vma_tree_cmp v w) ys"
    "dropWhile (\<lambda>w. \<not> vma_tree_cmp v w) (xs @ ys) = dropWhile (\<lambda>w. \<not> vma_tree_cmp v w) ys"
    using assms(1) by (auto simp: vma_tree_cmp_def not_le takeWhile_append dropWhile_append)
  moreover have "takeWhile (\<lambda>w. \<not> vma_tree_cmp v w) ys = []"
    "dropWhile (\<lambda>w. \<not> vma_tree_cmp v w) ys = ys"
    using assms(2) by (cases ys; simp add: vma_tree_cmp_def)+
  ultimately show ?thesis by (simp add: vma_insert_def)
qed

text \<open>An area that fits between its neighbours goes there.\<close>

lemma vma_insert_between:
  assumes "vmas_wf (xs @ v # ys)"
  shows "vma_insert v (xs @ ys) = xs @ v # ys"
proof (rule vma_insert_at)
  have v: "vbegin v < vend v" using assms by (auto simp: wf_simps vma_ok_def)
  show "\<forall>x \<in> set xs. vend x < vend v"
    using assms v by (auto simp: wf_simps)
  show "\<forall>y \<in> set ys. vend v \<le> vend y"
  proof
    fix y assume y: "y \<in> set ys"
    then have "vend v \<le> vbegin y" "vbegin y < vend y"
      using assms vmas_wf_nonempty [of ys y] by (auto simp: wf_simps)
    then show "vend v \<le> vend y" by order
  qed
qed

section \<open>Cutting areas\<close>

lemma trim_front_simps [simp]:
  "vbegin (trim_front fin v) = fin" "vend (trim_front fin v) = vend v"
  "vflags (trim_front fin v) = vflags v" "vfile (trim_front fin v) = vfile v"
  "vcomment (trim_front fin v) = vcomment v" "vprot (trim_front fin v) = vprot v"
  by (simp_all add: trim_front_def Let_def)

lemma page_trim_front [simp]: "page (trim_front fin v) a = page v a"
  by (cases "vfile v") (auto simp: page_def trim_front_def Let_def)

lemma page_vend [simp]: "page (v\<lparr>vend := e\<rparr>) a = page v a"
  by (simp add: page_def)

lemma split_vma_parts:
  assumes "length (vcomment v) < VMA_COMMENT_LEN"
  shows "split_vma v addr = (v\<lparr>vend := addr\<rparr>, trim_front addr v)"
  using assms by (auto simp: split_vma_def copy_vma_def copy_comment_def trim_front_def Let_def)

lemma remove_whole_kept:
  assumes "vmas_wf vs" "is_alloc_aligned fin" "remove_whole fin vs = (freed, kept)"
  shows "vmas_wf kept \<and> (\<forall>w \<in> set kept. fin \<le> vbegin w)"
  using assms
proof (induction vs arbitrary: freed)
  case (Cons v vs)
  consider "vend v \<le> fin" | "\<not> vend v \<le> fin" "vbegin v < fin"
    | "\<not> vend v \<le> fin" "\<not> vbegin v < fin" by blast
  then show ?case
  proof cases
    case 1
    with Cons show ?thesis by (auto simp: wf_simps split: prod.splits)
  next
    case 2
    then have kept: "kept = trim_front fin v # vs" using Cons.prems(3) by auto
    have "fin \<le> vbegin w" if "w \<in> set vs" for w
    proof -
      have "vend v \<le> vbegin w" using Cons.prems(1) that by (simp add: wf_simps)
      with 2 show ?thesis by order
    qed
    with kept 2 Cons.prems(1,2) show ?thesis by (simp add: wf_simps vma_ok_def not_le)
  next
    case 3
    then have kept: "kept = v # vs" using Cons.prems(3) by auto
    have "fin \<le> vbegin w" if "w \<in> set vs" for w
    proof -
      have "vend v \<le> vbegin w" using Cons.prems(1) that by (simp add: wf_simps)
      with 3 show ?thesis by order
    qed
    with kept 3 Cons.prems(1) show ?thesis by (simp add: not_less)
  qed
qed simp

lemma remove_whole_view:
  assumes "vmas_wf vs" "is_alloc_aligned fin" "remove_whole fin vs = (freed, kept)"
  shows "view kept a = (if a < fin then None else view vs a)"
proof (cases "a < fin")
  case True
  have "\<forall>w \<in> set kept. a < vbegin w"
  proof
    fix w assume "w \<in> set kept"
    with remove_whole_kept [OF assms] have "fin \<le> vbegin w" by blast
    with True show "a < vbegin w" by order
  qed
  with True show ?thesis by (simp add: view_None_below)
next
  case False
  from assms(3) False show ?thesis
  proof (induction vs arbitrary: freed)
    case (Cons v vs)
    then show ?case
      by (auto simp: view_simps not_less split: if_splits prod.splits)
  qed simp
qed

lemma remove_whole_freed:
  "remove_whole fin vs = (freed, kept) \<Longrightarrow> \<exists>rest. vs = freed @ rest \<and> map vfile kept = map vfile rest"
proof (induction vs arbitrary: freed)
  case (Cons v vs)
  show ?case
  proof (cases "vend v \<le> fin")
    case True
    obtain f' where f': "remove_whole fin vs = (f', kept)" "freed = v # f'"
      using Cons.prems True by (auto split: prod.splits)
    from Cons.IH [OF f'(1)] f'(2) show ?thesis by auto
  next
    case False
    then have "freed = []" "map vfile kept = map vfile (v # vs)"
      using Cons.prems by (auto split: if_splits)
    then show ?thesis by auto
  qed
qed simp

section \<open>Removing a range\<close>

lemma delete_counted_simps [simp]:
  "vma_tree (delete_counted vs s) = vma_tree s"
  "hdl_refs (delete_counted vs s) = hdl_refs s"
  "vma_allocs (delete_counted vs s) = vma_allocs s"
  by (induction vs arbitrary: s) (simp_all add: delete_counted_def total_memory_size_sub_def)

lemma insert_counted_simps [simp]:
  "vma_tree (insert_counted v s) = vma_insert v (vma_tree s)"
  "hdl_refs (insert_counted v s) = hdl_refs s"
  "vma_allocs (insert_counted v s) = vma_allocs s"
  by (simp_all add: insert_counted_def total_memory_size_add_def Let_def)

lemma get_put_file_simps [simp]:
  "vma_tree (get_file f s) = vma_tree s" "vma_tree (put_file f s) = vma_tree s"
  "vma_allocs (get_file f s) = vma_allocs s" "vma_allocs (put_file f s) = vma_allocs s"
  by (simp_all add: get_file_def put_file_def split: option.splits)

lemma free_simps [simp]:
  "vma_tree (free_vma v s) = vma_tree s"
  "vma_tree (free_vmas_freelist vs s) = vma_tree s"
  by (induction vs arbitrary: s) (simp_all add: free_vma_def free_vmas_freelist_def)

text \<open>
  The sequence of areas after a removal, without the accounting: this is what the code's tree
  operations amount to.
\<close>

definition cut_range :: "u64 \<Rightarrow> u64 \<Rightarrow> libos_vma list \<Rightarrow> libos_vma list" where
  "cut_range start fin l =
     vmas_before start l @
     (case vmas_from start l of
        [] \<Rightarrow> []
      | v # vs \<Rightarrow>
          (if vbegin v < start \<and> fin < vend v then v\<lparr>vend := start\<rparr> # trim_front fin v # vs
           else if vbegin v < start then v\<lparr>vend := start\<rparr> # snd (remove_whole fin vs)
           else snd (remove_whole fin (v # vs))))"

lemma cut_range_wf:
  assumes wf: "vmas_wf l" and al: "is_alloc_aligned start" "is_alloc_aligned fin" and le: "start \<le> fin"
  shows "vmas_wf (cut_range start fin l)"
proof -
  note sp = split_at_addr [OF wf, of start]
  from wf sp(1) have wfs: "vmas_wf (vmas_before start l)" "vmas_wf (vmas_from start l)"
    "\<forall>x \<in> set (vmas_before start l). \<forall>y \<in> set (vmas_from start l). vend x \<le> vbegin y"
    by (metis vmas_wf_append)+
  show ?thesis
  proof (cases "vmas_from start l")
    case Nil
    then show ?thesis using wfs by (simp add: cut_range_def)
  next
    case (Cons v vs)
    have pre: "vend x \<le> vbegin w" if "x \<in> set (vmas_before start l)" "fin \<le> vbegin w" for x w
    proof -
      have "vend x \<le> start" using sp(2) that(1) by blast
      with le that(2) show ?thesis by order
    qed
    have v: "vma_ok v" "vmas_wf vs" "\<forall>w \<in> set vs. vend v \<le> vbegin w"
      using wfs(2) Cons by (auto simp: wf_simps)
    obtain f1 k1 where rw1: "remove_whole fin vs = (f1, k1)" by fastforce
    obtain f2 k2 where rw2: "remove_whole fin (v # vs) = (f2, k2)" by fastforce
    note k1 = remove_whole_kept [OF v(2) al(2) rw1]
    have k2: "vmas_wf k2 \<and> (\<forall>w \<in> set k2. fin \<le> vbegin w)"
      using remove_whole_kept [OF _ al(2) rw2] wfs(2) Cons by simp
    consider (mid) "vbegin v < start" "fin < vend v" | (tail) "vbegin v < start" "\<not> fin < vend v"
      | (inside) "\<not> vbegin v < start" by blast
    then show ?thesis
    proof cases
      case mid
      have "fin \<le> vbegin w" if "w \<in> set vs" for w
        using v(3) that mid(2) by fastforce
      moreover have "start \<le> vbegin w" if "w \<in> set vs" for w
        using calculation [OF that] le by order
      moreover have "\<forall>x \<in> set (vmas_before start l). vend x \<le> fin"
        using sp(2) le by fastforce
      ultimately show ?thesis
        using mid Cons wfs v al le by (simp add: cut_range_def wf_simps vma_ok_def)
    next
      case tail
      have "start \<le> vbegin w" if "w \<in> set k1" for w
        using k1 that le by (meson order_trans)
      moreover have "\<forall>x \<in> set (vmas_before start l). \<forall>y \<in> set k1. vend x \<le> vbegin y"
        using pre k1 by blast
      ultimately show ?thesis
        using tail Cons wfs v al k1 rw1 by (simp add: cut_range_def wf_simps vma_ok_def)
    next
      case inside
      show ?thesis using inside Cons wfs(1) k2 rw2 pre
        by (simp only: cut_range_def list.case if_False simp_thms snd_conv vmas_wf_append) blast
    qed
  qed
qed

lemma cut_range_view:
  assumes wf: "vmas_wf l" and al: "is_alloc_aligned start" "is_alloc_aligned fin" and le: "start \<le> fin"
  shows "view (cut_range start fin l) a = (if start \<le> a \<and> a < fin then None else view l a)"
proof -
  note sp = split_at_addr [OF wf, of start]
  have wff: "vmas_wf (vmas_from start l)" by (metis wf sp(1) vmas_wf_append)
  have lview: "view l a = (case view (vmas_before start l) a of
      None \<Rightarrow> view (vmas_from start l) a | Some p \<Rightarrow> Some p)"
    using sp(1) view_append by metis
  have pre: "start \<le> a \<Longrightarrow> view (vmas_before start l) a = None"
    using sp(2) by (intro view_None_above) fastforce
  show ?thesis
  proof (cases "vmas_from start l")
    case Nil
    then show ?thesis using pre lview by (auto simp: cut_range_def view_simps split: option.splits)
  next
    case (Cons v vs)
    have v: "vma_ok v" "vmas_wf vs" "\<forall>w \<in> set vs. vend v \<le> vbegin w"
      using wff Cons by (auto simp: wf_simps)
    have vs: "a < vend v \<Longrightarrow> view vs a = None"
      using v(3) by (intro view_None_below) fastforce
    obtain f1 k1 where rw1: "remove_whole fin vs = (f1, k1)" by fastforce
    obtain f2 k2 where rw2: "remove_whole fin (v # vs) = (f2, k2)" by fastforce
    note k1 = remove_whole_view [OF v(2) al(2) rw1, of a]
    note k2 = remove_whole_view [OF wff [unfolded Cons] al(2) rw2, of a]
    consider (mid) "vbegin v < start" "fin < vend v" | (tail) "vbegin v < start" "\<not> fin < vend v"
      | (inside) "\<not> vbegin v < start" by blast
    then show ?thesis
    proof cases
      case mid
      have "a < fin \<Longrightarrow> a < vend v" "a < start \<Longrightarrow> a < fin" "start \<le> a \<Longrightarrow> vbegin v \<le> a"
        using mid le by order+
      with mid Cons lview pre vs show ?thesis
        by (cases "start \<le> a"; cases "a < fin"; cases "vbegin v \<le> a")
          (auto simp: cut_range_def view_simps not_le split: option.splits)
    next
      case tail
      have "start \<le> a \<Longrightarrow> vbegin v \<le> a" "\<not> a < fin \<Longrightarrow> \<not> a < vend v"
        "a < start \<Longrightarrow> a < fin" using tail le by order+
      moreover have "start < vend v" using sp(3) Cons by simp
      moreover have "a < start \<Longrightarrow> a < vend v" using \<open>start < vend v\<close> by order
      ultimately show ?thesis using tail Cons lview pre vs k1 rw1
        by (cases "start \<le> a"; cases "a < fin")
          (auto simp: cut_range_def view_simps not_le split: option.splits)
    next
      case inside
      have "a < start \<Longrightarrow> a < fin" using le by order
      moreover have "a < start \<Longrightarrow> view (v # vs) a = None"
      proof (rule view_None_below)
        assume "a < start"
        with inside have a: "a < vbegin v" by order
        moreover have "vbegin v < vend v" using v(1) by (simp add: vma_ok_def)
        ultimately show "\<forall>w \<in> set (v # vs). a < vbegin w" using v(3) by fastforce
      qed
      ultimately show ?thesis using inside Cons lview pre k2 rw2
        by (cases "start \<le> a"; cases "a < fin")
          (simp_all add: cut_range_def view_append not_le split: option.splits)
    qed
  qed
qed

text \<open>The new area of a split stands right behind the one it was cut from.\<close>

lemma vma_insert_split:
  assumes "vmas_wf (pre @ v # vs)" "vbegin v < addr" "start \<le> addr" "addr < vend v"
    "is_alloc_aligned addr"
  shows "vma_insert (trim_front addr v) (pre @ v\<lparr>vend := start\<rparr> # vs) =
    pre @ v\<lparr>vend := start\<rparr> # trim_front addr v # vs"
proof -
  have "vma_insert (trim_front addr v) ((pre @ [v\<lparr>vend := start\<rparr>]) @ vs) =
      (pre @ [v\<lparr>vend := start\<rparr>]) @ trim_front addr v # vs"
  proof (rule vma_insert_at)
    have "vend x < vend v" if "x \<in> set pre" for x
    proof -
      have "vend x \<le> vbegin v" using assms(1) that by (simp add: wf_simps)
      with assms(2,4) show ?thesis by order
    qed
    moreover have "start < vend v" using assms(3,4) by order
    ultimately show "\<forall>x \<in> set (pre @ [v\<lparr>vend := start\<rparr>]). vend x < vend (trim_front addr v)" by simp
    have "vend v \<le> vend y" if "y \<in> set vs" for y
    proof -
      have "vend v \<le> vbegin y" "vbegin y < vend y"
        using assms(1) that vmas_wf_nonempty [of vs y] by (auto simp: wf_simps)
      then show ?thesis by order
    qed
    then show "\<forall>y \<in> set vs. vend (trim_front addr v) \<le> vend y" by simp
  qed
  then show ?thesis by simp
qed

text \<open>References to a file that the areas do not account for; no operation changes their number.\<close>

definition file_count :: "libos_vma list \<Rightarrow> nat \<Rightarrow> int" where
  "file_count l h = int (length (filter (\<lambda>f. f = Some h) (map vfile l)))"

lemma file_count_simps [simp]:
  "file_count [] h = 0"
  "file_count (v # vs) h = of_bool (vfile v = Some h) + file_count vs h"
  "file_count (xs @ ys) h = file_count xs h + file_count ys h"
  by (simp_all add: file_count_def)

lemma file_count_insert [simp]:
  "file_count (vma_insert v l) h = of_bool (vfile v = Some h) + file_count l h"
proof -
  have "file_count l h = file_count (takeWhile (\<lambda>w. \<not> vma_tree_cmp v w) l) h +
      file_count (dropWhile (\<lambda>w. \<not> vma_tree_cmp v w) l) h"
    by (metis file_count_simps(3) takeWhile_dropWhile_id)
  then show ?thesis by (simp add: vma_insert_def)
qed

lemma file_count_map_eq: "map vfile xs = map vfile ys \<Longrightarrow> file_count xs h = file_count ys h"
  by (simp add: file_count_def)

definition ref_slack :: "vma_state \<Rightarrow> nat \<Rightarrow> int" where
  "ref_slack s h = hdl_refs s h - file_count (vma_tree s) h"

lemma hdl_refs_get_put [simp]:
  "hdl_refs (get_file f s) h = hdl_refs s h + of_bool (f = Some h)"
  "hdl_refs (put_file f s) h = hdl_refs s h - of_bool (f = Some h)"
  by (auto simp: get_file_def put_file_def split: option.splits)

lemma hdl_refs_freelist [simp]:
  "hdl_refs (free_vmas_freelist vs s) h = hdl_refs s h - file_count vs h"
  "hdl_refs (free_vma v s) h = hdl_refs s h - of_bool (vfile v = Some h)"
  by (induction vs arbitrary: s) (simp_all add: free_vmas_freelist_def free_vma_def)

lemma free_vmas_freelist_allocs [simp]:
  "vma_allocs (free_vmas_freelist vs s) = vma_allocs s" "vma_allocs (free_vma v s) = vma_allocs s"
  by (induction vs arbitrary: s) (simp_all add: free_vmas_freelist_def free_vma_def)

definition remove_post ::
  "u64 \<Rightarrow> u64 \<Rightarrow> bool \<Rightarrow> vma_state \<Rightarrow> int \<times> bool \<times> libos_vma list \<times> vma_state \<Rightarrow> bool" where
  "remove_post start fin is_internal s = (\<lambda>(ret, used, freed, s').
     (ret = 0 \<and> vma_tree s' = cut_range start fin (vma_tree s) \<and>
        check_same_owner fin is_internal (vmas_from start (vma_tree s)) \<or>
      ret \<in> {- EACCES, - ENOMEM} \<and> s' = s \<and> freed = []) \<and>
     vma_allocs s' = vma_allocs s \<and>
     (\<forall>h. ref_slack (free_vmas_freelist freed s') h = ref_slack s h))"

lemma vma_bkeep_remove_post:
  assumes wf: "vmas_wf (vma_tree s)" and al: "is_alloc_aligned start" "is_alloc_aligned fin"
    and le: "start \<le> fin"
  shows "remove_post start fin is_internal s (vma_bkeep_remove start fin is_internal new s)"
proof -
  let ?pre = "vmas_before start (vma_tree s)"
  note sp = split_at_addr [OF wf, of start]
  show ?thesis
  proof (cases "vmas_from start (vma_tree s)")
    case Nil
    then show ?thesis using sp(1)
      by (simp add: vma_bkeep_remove_def remove_post_def cut_range_def free_vmas_freelist_def)
  next
    case (Cons v vs)
    have tree: "vma_tree s = ?pre @ v # vs" using sp(1) Cons by simp
    have wf': "vmas_wf (?pre @ v # vs)" using wf tree by simp
    have com: "length (vcomment v) < VMA_COMMENT_LEN" using wf' by (simp add: wf_simps vma_ok_def)
    have cnt: "file_count (vma_tree s) h = file_count ?pre h + of_bool (vfile v = Some h) + file_count vs h"
      for h by (subst tree) simp
    consider (own) "\<not> check_same_owner fin is_internal (v # vs)"
      | (mid) "check_same_owner fin is_internal (v # vs)" "vbegin v < start" "fin < vend v"
      | (tail) "check_same_owner fin is_internal (v # vs)" "vbegin v < start" "\<not> fin < vend v"
      | (inside) "check_same_owner fin is_internal (v # vs)" "\<not> vbegin v < start" by blast
    then show ?thesis
    proof cases
      case own
      then show ?thesis using Cons
        by (simp add: vma_bkeep_remove_def remove_post_def free_vmas_freelist_def)
    next
      case mid
      have "vbegin v < fin" using mid(2) le by order
      from vma_insert_split [OF wf' this le mid(3) al(2)] show ?thesis
        using mid Cons com cnt
        by (cases new) (simp_all add: vma_bkeep_remove_def remove_post_def free_vmas_freelist_def
            cut_range_def split_vma_parts ref_slack_def del: check_same_owner.simps)
    next
      case tail
      obtain freed kept where rw: "remove_whole fin vs = (freed, kept)" by fastforce
      then obtain rest where rest: "vs = freed @ rest" "map vfile kept = map vfile rest"
        using remove_whole_freed by blast
      show ?thesis using tail Cons cnt rw rest file_count_map_eq [OF rest(2)]
        by (simp add: vma_bkeep_remove_def remove_post_def cut_range_def ref_slack_def
            del: check_same_owner.simps)
    next
      case inside
      obtain freed kept where rw: "remove_whole fin (v # vs) = (freed, kept)" by fastforce
      then obtain rest where rest: "v # vs = freed @ rest" "map vfile kept = map vfile rest"
        using remove_whole_freed by blast
      have "file_count vs h = file_count freed h + file_count kept h - of_bool (vfile v = Some h)" for h
        using file_count_map_eq [OF rest(2), of h] arg_cong [OF rest(1), of "\<lambda>l. file_count l h"] by simp
      then show ?thesis using inside Cons cnt rw
        by (simp add: vma_bkeep_remove_def remove_post_def cut_range_def ref_slack_def
            del: check_same_owner.simps remove_whole.simps)
    qed
  qed
qed

section \<open>Inserting an area\<close>

definition disjoint_range :: "u64 \<Rightarrow> u64 \<Rightarrow> libos_vma \<Rightarrow> bool" where
  "disjoint_range start fin v \<longleftrightarrow> vend v \<le> start \<or> fin \<le> vbegin v"

lemma vma_insert_split_list:
  assumes "vmas_wf l"
  obtains xs ys where "l = xs @ ys" "vma_insert v l = xs @ v # ys"
    "\<forall>x \<in> set xs. vend x < vend v" "\<forall>y \<in> set ys. vend v \<le> vend y"
proof
  show "l = takeWhile (\<lambda>w. \<not> vma_tree_cmp v w) l @ dropWhile (\<lambda>w. \<not> vma_tree_cmp v w) l" by simp
  show "vma_insert v l = takeWhile (\<lambda>w. \<not> vma_tree_cmp v w) l @ v # dropWhile (\<lambda>w. \<not> vma_tree_cmp v w) l"
    by (simp add: vma_insert_def)
  show "\<forall>x \<in> set (takeWhile (\<lambda>w. \<not> vma_tree_cmp v w) l). vend x < vend v"
    by (auto simp: vma_tree_cmp_def not_le dest: set_takeWhileD)
  show "\<forall>y \<in> set (dropWhile (\<lambda>w. \<not> vma_tree_cmp v w) l). vend v \<le> vend y"
    using assms
  proof (induction l)
    case (Cons w ws)
    show ?case
    proof (cases "vend v \<le> vend w")
      case True
      have "vend v \<le> vend y" if "y \<in> set ws" for y
      proof -
        have "vend w \<le> vbegin y" "vbegin y < vend y"
          using Cons.prems that vmas_wf_nonempty [of ws y] by (auto simp: wf_simps)
        with True show ?thesis by order
      qed
      then have "\<forall>y \<in> set (w # ws). vend v \<le> vend y" using True by (simp only: list.set ball_simps) blast
      moreover have "dropWhile (\<lambda>w. \<not> vma_tree_cmp v w) (w # ws) = w # ws"
        using True by (simp add: vma_tree_cmp_def)
      ultimately show ?thesis by (simp only:)
    next
      case False
      then have "dropWhile (\<lambda>w. \<not> vma_tree_cmp v w) (w # ws) =
          dropWhile (\<lambda>w. \<not> vma_tree_cmp v w) ws" by (simp add: vma_tree_cmp_def)
      then show ?thesis using Cons by (simp only: wf_simps) blast
    qed
  qed simp
qed

lemma vma_insert_disjoint:
  assumes wf: "vmas_wf l" and v: "vma_ok v"
    and dis: "\<forall>w \<in> set l. disjoint_range (vbegin v) (vend v) w"
  shows "vmas_wf (vma_insert v l)"
    "view (vma_insert v l) a = (if vbegin v \<le> a \<and> a < vend v then Some (page v a) else view l a)"
proof -
  obtain xs ys where l: "l = xs @ ys" "vma_insert v l = xs @ v # ys"
    and xs: "\<forall>x \<in> set xs. vend x < vend v" and ys: "\<forall>y \<in> set ys. vend v \<le> vend y"
    using vma_insert_split_list [OF wf] by blast
  have vv: "vbegin v < vend v" using v by (simp add: vma_ok_def)
  have x: "vend x \<le> vbegin v" if "x \<in> set xs" for x
  proof -
    have "vbegin x < vend x" "vend x < vend v" "disjoint_range (vbegin v) (vend v) x"
      using that l wf vmas_wf_nonempty [of l x] xs dis by auto
    then show ?thesis by (auto simp: disjoint_range_def)
  qed
  have y: "vend v \<le> vbegin y" if "y \<in> set ys" for y
  proof -
    have "vbegin y < vend y" "vend v \<le> vend y" "disjoint_range (vbegin v) (vend v) y"
      using that l wf vmas_wf_nonempty [of l y] ys dis by auto
    then show ?thesis using vv by (auto simp: disjoint_range_def)
  qed
  show "vmas_wf (vma_insert v l)"
    using wf v x y l by (simp add: wf_simps)
  have "view xs a = None" if "vbegin v \<le> a"
    using x that by (intro view_None_above) fastforce
  then show "view (vma_insert v l) a =
      (if vbegin v \<le> a \<and> a < vend v then Some (page v a) else view l a)"
    using l by (auto simp: view_simps split: option.splits)
qed

text \<open>No area of a view-free range meets it.\<close>

lemma disjoint_of_view:
  assumes wf: "vmas_wf l" and free: "\<And>a. start \<le> a \<Longrightarrow> a < fin \<Longrightarrow> view l a = None"
    and w: "w \<in> set l" and ne: "start < fin"
  shows "disjoint_range start fin w"
proof (rule ccontr)
  assume "\<not> disjoint_range start fin w"
  then have m: "start < vend w" "vbegin w < fin" by (auto simp: disjoint_range_def)
  have bw: "vbegin w < vend w" using vmas_wf_nonempty [OF wf w] .
  let ?a = "max start (vbegin w)"
  have "start \<le> ?a" "?a < fin" "vbegin w \<le> ?a" "?a < vend w" using m bw ne by (auto simp: max_def)
  with free [of ?a] w show False by (auto simp: view_None_iff)
qed

section \<open>The search for a gap\<close>

definition fits :: "u64 \<Rightarrow> u64 \<Rightarrow> u64 \<Rightarrow> bool" where
  "fits x len b \<longleftrightarrow> x \<le> b \<and> len \<le> b - x"

lemma fits_le: "fits x len b \<Longrightarrow> len \<le> b" "fits x len b \<Longrightarrow> x \<le> b - len"
  unfolding fits_def by uint_arith+

lemma fits_mono: "fits x len b \<Longrightarrow> y \<le> x \<Longrightarrow> fits y len b"
  unfolding fits_def by uint_arith

lemma search_gap_sound:
  assumes "search_gap bottom len max_addr xs = Some m"
    and "\<forall>v \<in> set xs. vend v \<le> max_addr" and "vmas_wf (rev xs)"
  shows "m \<le> max_addr \<and> fits bottom len m \<and> (\<forall>v \<in> set xs. disjoint_range (m - len) m v)"
  using assms
proof (induction xs arbitrary: max_addr)
  case Nil
  then show ?case by (auto simp: fits_def split: if_splits)
next
  case (Cons v vs)
  have wf: "vmas_wf (rev vs)" and below: "\<forall>w \<in> set vs. vend w \<le> vbegin v"
    and bv: "vbegin v < vend v" and vm: "vend v \<le> max_addr"
    using Cons.prems by (auto simp: wf_simps vma_ok_def)
  have below': "\<forall>w \<in> set vs. vend w \<le> vend v" using below bv by fastforce
  consider (found) "bottom \<le> vend v" "len \<le> max_addr - vend v" "m = max_addr"
    | (lower) "bottom \<le> vend v" "\<not> len \<le> max_addr - vend v" "search_gap bottom len (vbegin v) vs = Some m"
    | (low) "vend v < bottom" "fits bottom len max_addr" "m = max_addr"
    using Cons.prems(1) by (auto simp: fits_def split: if_splits)
  then show ?case
  proof cases
    case found
    then have f: "fits (vend v) len max_addr" using vm by (simp add: fits_def)
    have "vend w \<le> max_addr - len" if "w \<in> set (v # vs)" for w
      using that fits_le(2) [OF f] below' by fastforce
    with found fits_mono [OF f] show ?thesis by (simp add: disjoint_range_def)
  next
    case lower
    from Cons.IH [OF lower(3) below wf] have ih: "m \<le> vbegin v" "fits bottom len m"
      "\<forall>w \<in> set vs. disjoint_range (m - len) m w" by auto
    have "m \<le> max_addr" using ih(1) bv vm by order
    with ih show ?thesis by (simp add: disjoint_range_def)
  next
    case low
    have "vend w \<le> max_addr - len" if "w \<in> set (v # vs)" for w
      using that fits_le(2) [OF low(2)] low(1) below' by fastforce
    with low show ?thesis by (simp add: disjoint_range_def)
  qed
qed

lemma search_gap_complete:
  assumes "bottom \<le> x" "fits x len max_addr"
    and "\<forall>v \<in> set xs. vend v \<le> x \<or> fits x len (vbegin v)"
  shows "\<exists>m. search_gap bottom len max_addr xs = Some m \<and> x \<le> m - len \<and> len \<le> m"
  using assms(2,3)
proof (induction xs arbitrary: max_addr)
  case Nil
  then show ?case using fits_mono [OF Nil(1) assms(1)] fits_le [OF Nil(1)] by (simp add: fits_def)
next
  case (Cons v vs)
  note top = fits_le [OF Cons.prems(1)]
  show ?case
  proof (cases "bottom \<le> vend v")
    case True
    show ?thesis
    proof (cases "len \<le> max_addr - vend v")
      case False
      have "\<not> vend v \<le> x" using fits_mono [OF Cons.prems(1)] False by (auto simp: fits_def)
      then have "fits x len (vbegin v)" using Cons.prems(2) by auto
      from Cons.IH [OF this] True False Cons.prems(2) show ?thesis by simp
    qed (use True top in simp)
  next
    case False
    with fits_mono [OF Cons.prems(1) assms(1)] top show ?thesis by (simp add: fits_def)
  qed
qed

lemma find_gap_sound:
  assumes wf: "vmas_wf l" and gap: "find_gap bottom top_addr len l = Some m"
  shows "m \<le> top_addr \<and> fits bottom len m \<and> (\<forall>v \<in> set l. disjoint_range (m - len) m v)"
proof -
  note sp = split_at_addr [OF wf, of top_addr]
  have wfs: "vmas_wf (vmas_before top_addr l)" "vmas_wf (vmas_from top_addr l)"
    "\<forall>x \<in> set (vmas_before top_addr l). \<forall>y \<in> set (vmas_from top_addr l). vend x \<le> vbegin y"
    using wf sp(1) by (metis vmas_wf_append)+
  let ?max = "case vmas_from top_addr l of [] \<Rightarrow> top_addr | v # vs \<Rightarrow> min top_addr (vbegin v)"
  have "\<forall>v \<in> set (rev (vmas_before top_addr l)). vend v \<le> ?max"
    using sp(2) wfs(3) by (auto split: list.splits)
  from search_gap_sound [OF gap [unfolded find_gap_def] this] wfs(1)
  have m: "m \<le> ?max" "fits bottom len m"
    "\<forall>v \<in> set (vmas_before top_addr l). disjoint_range (m - len) m v" by simp_all
  have "m \<le> vbegin v" if "v \<in> set (vmas_from top_addr l)" for v
  proof (cases "vmas_from top_addr l")
    case (Cons w ws)
    have "m \<le> vbegin w" using m(1) Cons by simp
    moreover have "vbegin w \<le> vbegin v"
      using that wfs(2) Cons by (auto simp: wf_simps vma_ok_def)
    ultimately show ?thesis by order
  qed (use that in simp)
  then have "disjoint_range (m - len) m v" if "v \<in> set l" for v
    using that m(3) sp(1) by (metis Un_iff disjoint_range_def set_append)
  moreover have "m \<le> top_addr" using m(1) by (auto split: list.splits)
  ultimately show ?thesis using m(2) by blast
qed

lemma find_gap_complete:
  assumes wf: "vmas_wf l" and x: "bottom \<le> x" "fits x len top_addr"
    and free: "\<forall>v \<in> set l. vend v \<le> x \<or> fits x len (vbegin v)"
  shows "\<exists>m. find_gap bottom top_addr len l = Some m \<and> x \<le> m - len \<and> len \<le> m"
proof -
  note sp = split_at_addr [OF wf, of top_addr]
  let ?max = "case vmas_from top_addr l of [] \<Rightarrow> top_addr | v # vs \<Rightarrow> min top_addr (vbegin v)"
  have "fits x len ?max"
  proof (cases "vmas_from top_addr l")
    case (Cons w ws)
    then have w: "w \<in> set l" "top_addr < vend w" using sp by (metis UnI2 list.set_intros(1) set_append, simp)
    have "x \<le> top_addr" using x(2) by (simp add: fits_def)
    with w(2) have "\<not> vend w \<le> x" by order
    with free w(1) have "fits x len (vbegin w)" by blast
    with x(2) Cons show ?thesis by (simp add: min_def)
  qed (use x in simp)
  from search_gap_complete [OF x(1) this, of "rev (vmas_before top_addr l)"] free
  show ?thesis unfolding find_gap_def
    by (metis (no_types, lifting) Un_iff set_append set_rev sp(1))
qed

lemma aligned_take_bit: "is_alloc_aligned x \<longleftrightarrow> take_bit 12 x = 0"
proof -
  have "(ALLOC_ALIGNMENT - 1) = mask 12" by (simp add: mask_eq_exp_minus_1)
  then show ?thesis by (simp add: is_alloc_aligned_def take_bit_eq_mask)
qed

lemma aligned_add [intro]: "is_alloc_aligned x \<Longrightarrow> is_alloc_aligned y \<Longrightarrow> is_alloc_aligned (x + y)"
  unfolding aligned_take_bit take_bit_eq_0_iff by (rule dvd_add)

lemma aligned_diff [intro]: "is_alloc_aligned x \<Longrightarrow> is_alloc_aligned y \<Longrightarrow> is_alloc_aligned (x - y)"
  unfolding aligned_take_bit take_bit_eq_0_iff by (rule dvd_diff)

text \<open>The subtraction of the low bits clears them.\<close>

lemma alloc_align_down_and: "alloc_align_down x = x AND NOT (ALLOC_ALIGNMENT - 1)"
proof -
  have m: "(ALLOC_ALIGNMENT - 1) = mask 12" by (simp add: mask_eq_exp_minus_1)
  have "x = (x AND mask 12) OR (x AND NOT (mask 12))"
    by (simp only: bit.conj_disj_distrib [symmetric] bit.disj_cancel_right bit.conj_one_right)
  also have "\<dots> = (x AND mask 12) + (x AND NOT (mask 12))"
    by (rule disjunctive_add [symmetric]) (auto simp: bit_simps)
  finally show ?thesis unfolding alloc_align_down_def m by (metis add_diff_cancel_left')
qed

lemma alloc_align_down_diff: "alloc_align_down x = x - take_bit 12 x"
proof -
  have "(ALLOC_ALIGNMENT - 1) = mask 12" by (simp add: mask_eq_exp_minus_1)
  then show ?thesis by (simp add: alloc_align_down_def take_bit_eq_mask)
qed

lemma aligned_down [simp]: "is_alloc_aligned (alloc_align_down x)"
  by (simp add: is_alloc_aligned_def alloc_align_down_and and.assoc)

lemma search_gap_choice:
  "search_gap bottom len max_addr xs = Some m \<Longrightarrow> m = max_addr \<or> m \<in> vbegin ` set xs"
  by (induction bottom len max_addr xs rule: search_gap.induct) (auto split: if_splits)

lemma find_gap_aligned:
  assumes "vmas_wf l" "is_alloc_aligned top_addr" "find_gap bottom top_addr len l = Some m"
  shows "is_alloc_aligned m"
proof -
  note sp = split_at_addr [OF assms(1), of top_addr]
  have al: "is_alloc_aligned (vbegin v)" if "v \<in> set l" for v
    using assms(1) that by (simp add: vmas_wf_def vma_ok_def)
  have "m = (case vmas_from top_addr l of [] \<Rightarrow> top_addr | v # vs \<Rightarrow> min top_addr (vbegin v)) \<or>
      m \<in> vbegin ` set (vmas_before top_addr l)"
    using search_gap_choice [OF assms(3) [unfolded find_gap_def]] by simp
  moreover have "set (vmas_before top_addr l) \<union> set (vmas_from top_addr l) = set l"
    using sp(1) by (metis set_append)
  ultimately show ?thesis using assms(2) al by (auto simp: min_def split: list.splits if_splits)
qed

end
