(* ===== verification/Vma_Ops.thy ===== *)
theory Vma_Ops
  imports Vma_Inv
begin

text \<open>
  The bookkeeping operations as a whole: allocation of area objects, which may itself bookkeep a
  new internal area, mapping at a fixed address and anywhere, unmapping and changing protections.
  Each keeps the invariant and the balance of the file references and has the effect on the view
  that its description in \<^verbatim>\<open>libos_vma.h\<close> promises.
\<close>

section \<open>Mapping anywhere\<close>

lemma mmap_any_checks_Inr:
  assumes "mmap_any_checks bottom top_addr len flags = Inr t"
  shows "len \<noteq> 0" "is_alloc_aligned len" "is_alloc_aligned bottom" "is_alloc_aligned t" "t \<le> top_addr"
proof -
  have c: "is_alloc_aligned 0x80000000" by (simp add: is_alloc_aligned_def)
  have cs: "len \<noteq> 0 \<and> is_alloc_aligned len \<and> is_alloc_aligned bottom \<and> is_alloc_aligned top_addr \<and>
      (t = top_addr \<or> t = min top_addr 0x80000000)"
    using assms unfolding mmap_any_checks_def Let_def by (simp split: if_split_asm)
  then show "len \<noteq> 0" "is_alloc_aligned len" "is_alloc_aligned bottom" by blast+
  from cs c show "is_alloc_aligned t" by (metis min_def)
  from cs show "t \<le> top_addr" by (metis min.cobounded1 order_refl)
qed

lemma fits_range:
  assumes "fits bottom len m" "len \<noteq> 0"
  shows "m - len < m" "bottom \<le> m - len" "m - len + len = m"
proof -
  have "len \<le> m" using fits_le(1) [OF assms(1)] .
  then have "unat (m - len) = unat m - unat len" "unat len \<le> unat m"
    by (simp_all add: unat_sub word_le_nat_alt)
  moreover have "0 < unat len" using assms(2) by (simp add: unat_gt_0)
  ultimately show "m - len < m" by (simp add: word_less_nat_alt)
qed (use fits_le(2) [OF assms(1)] in simp_all)

lemma mmap_any_locked_Some:
  assumes wf: "vmas_wf (vma_tree s)" and al: "is_alloc_aligned top_addr" "is_alloc_aligned len"
    and len: "len \<noteq> 0" and com: "length (vcomment new) < VMA_COMMENT_LEN"
    and res: "mmap_any_locked bottom top_addr len new s = (Some addr, s')"
  defines "v \<equiv> new\<lparr>vend := addr + len, vbegin := addr\<rparr>"
  shows "bottom \<le> addr" "addr < addr + len" "addr + len \<le> top_addr" "vma_ok v"
    "\<forall>w \<in> set (vma_tree s). disjoint_range addr (addr + len) w"
    "s' = insert_counted v s" "vmas_wf (vma_tree s')"
proof -
  from res obtain m where gap: "find_gap bottom top_addr len (vma_tree s) = Some m"
    and a: "addr = m - len" and s': "s' = insert_counted (new\<lparr>vend := m, vbegin := m - len\<rparr>) s"
    by (auto simp: mmap_any_locked_def Let_def split: option.splits)
  from find_gap_sound [OF wf gap] have m: "m \<le> top_addr" "fits bottom len m"
    "\<forall>w \<in> set (vma_tree s). disjoint_range (m - len) m w" by auto
  note f = fits_range [OF m(2) len]
  show g: "bottom \<le> addr" "addr < addr + len" "addr + len \<le> top_addr" using f m(1) a by auto
  show dis: "\<forall>w \<in> set (vma_tree s). disjoint_range addr (addr + len) w" using m(3) f(3) a by simp
  show s'': "s' = insert_counted v s" using s' f(3) a by (simp add: v_def)
  have "is_alloc_aligned m" using find_gap_aligned [OF wf al(1) gap] .
  then show ok: "vma_ok v" using g(2) al(2) a f(3) com by (auto simp: v_def vma_ok_def)
  show "vmas_wf (vma_tree s')"
    using vma_insert_disjoint(1) [OF wf ok] dis s'' by (simp add: v_def)
qed

lemma mmap_any_locked_None:
  assumes wf: "vmas_wf (vma_tree s)" and res: "mmap_any_locked bottom top_addr len new s = (None, s')"
  shows "s' = s"
    "bottom \<le> x \<Longrightarrow> fits x len top_addr \<Longrightarrow>
      \<exists>v \<in> set (vma_tree s). \<not> (vend v \<le> x \<or> fits x len (vbegin v))"
proof -
  from res have gap: "find_gap bottom top_addr len (vma_tree s) = None" and "s' = s"
    by (auto simp: mmap_any_locked_def Let_def split: option.splits)
  then show "s' = s" by simp
  show "bottom \<le> x \<Longrightarrow> fits x len top_addr \<Longrightarrow>
      \<exists>v \<in> set (vma_tree s). \<not> (vend v \<le> x \<or> fits x len (vbegin v))"
    using find_gap_complete [OF wf] gap by fastforce
qed

section \<open>Removing the area just inserted\<close>

lemma vma_insert_is_between:
  assumes "vmas_wf l" "vma_ok v" "\<forall>w \<in> set l. disjoint_range (vbegin v) (vend v) w"
  obtains xs ys where "l = xs @ ys" "vma_insert v l = xs @ v # ys" "vmas_wf (xs @ v # ys)"
  using vma_insert_split_list [OF assms(1), of v] vma_insert_disjoint(1) [OF assms] by metis

lemma split_at_own_begin:
  assumes "vmas_wf (xs @ v # ys)"
  shows "vmas_from (vbegin v) (xs @ v # ys) = v # ys" "vmas_before (vbegin v) (xs @ v # ys) = xs"
proof -
  have xs: "\<not> cmp_addr_to_vma (vbegin v) x" if "x \<in> set xs" for x
    using assms that by (auto simp: wf_simps cmp_addr_to_vma_def)
  have v: "cmp_addr_to_vma (vbegin v) v"
    using assms by (simp add: wf_simps vma_ok_def cmp_addr_to_vma_def)
  from xs v show "vmas_from (vbegin v) (xs @ v # ys) = v # ys"
    by (simp add: vmas_from_def dropWhile_append)
  from xs v show "vmas_before (vbegin v) (xs @ v # ys) = xs"
    by (simp add: vmas_before_def takeWhile_append)
qed

lemma remove_own_range:
  assumes "vmas_wf (xs @ v # ys)" "vma_tree s = xs @ v # ys"
  shows "vma_bkeep_remove (vbegin v) (vend v) (is_internal_vma v) new s =
    (0, False, [v], delete_counted [v] (s\<lparr>vma_tree := xs @ ys\<rparr>))"
proof -
  have vv: "vbegin v < vend v" using assms(1) by (simp add: wf_simps vma_ok_def)
  have ys: "check_same_owner (vend v) b ys \<and> remove_whole (vend v) ys = ([], ys)" for b
  proof (cases ys)
    case (Cons y zs)
    have "vend v \<le> vbegin y" "vbegin y < vend y"
      using assms(1) Cons by (auto simp: wf_simps vma_ok_def)
    then have "\<not> vbegin y < vend v" "\<not> vend y \<le> vend v" by order+
    then show ?thesis using Cons by simp
  qed simp
  show ?thesis
    using vv ys split_at_own_begin [OF assms(1)] assms(2)
    by (simp add: vma_bkeep_remove_def)
qed

section \<open>Allocating an area object\<close>

text \<open>
  The effect of \<^verbatim>\<open>alloc_vma\<close> on the areas: none, or one more internal area without a file in a place
  that was free.
\<close>

definition grown :: "vma_state \<Rightarrow> vma_state \<Rightarrow> bool" where
  "grown s s' \<longleftrightarrow> vma_tree s' = vma_tree s \<or>
     (\<exists>v. vma_tree s' = vma_insert v (vma_tree s) \<and> vma_ok v \<and> is_internal_vma v \<and> vfile v = None \<and>
        (\<forall>w \<in> set (vma_tree s). disjoint_range (vbegin v) (vend v) w))"

lemma vma_malloc_grown:
  assumes wf: "vmas_wf (vma_tree s)" and res: "vma_malloc env sz pal_ok s = (addr, s')"
  shows "grown s s' \<and> vmas_wf (vma_tree s') \<and> hdl_refs s' = hdl_refs s"
proof -
  define len where "len = alloc_align_up sz"
  define flags where "flags = MAP_PRIVATE OR MAP_ANONYMOUS OR VMA_INTERNAL"
  define new where "new = new_mapping (PROT_READ OR PROT_WRITE) flags None 0 ''vma''"
  note res' = res [unfolded vma_malloc_def Let_def, folded flags_def, folded len_def, folded new_def]
  have new: "length (vcomment new) < VMA_COMMENT_LEN" "vfile new = None" "is_internal_vma new"
    by (simp_all add: new_def flags_def new_mapping_def copy_comment_def is_internal_vma_def
        has_flag_def filter_saved_flags_def)
  show ?thesis
  proof (cases "mmap_any_checks (user_address_start env) (user_address_end env) len flags")
    case (Inl e)
    then show ?thesis using res' wf by (simp add: grown_def)
  next
    case (Inr t)
    note ck = mmap_any_checks_Inr [OF Inr]
    show ?thesis
    proof (cases "mmap_any_locked (user_address_start env) t len new s")
      case (Pair a s1)
      show ?thesis
      proof (cases a)
        case None
        with mmap_any_locked_None(1) [OF wf] Pair have "s1 = s" by simp
        then show ?thesis using res' Inr Pair None wf by (simp add: grown_def)
      next
        case (Some x)
        let ?v = "new\<lparr>vend := x + len, vbegin := x\<rparr>"
        note m = mmap_any_locked_Some [OF wf ck(4,2,1) new(1) Pair [unfolded Some]]
        obtain xs ys where l: "vma_tree s = xs @ ys" "vma_insert ?v (vma_tree s) = xs @ ?v # ys"
          "vmas_wf (xs @ ?v # ys)" using vma_insert_is_between [OF wf m(4)] m(5) by auto
        have int: "is_internal_vma ?v" using new(3) by (simp add: is_internal_vma_def)
        have "vma_tree s1 = xs @ ?v # ys" using m(6) l(2) by simp
        from remove_own_range [OF l(3) this, of False] int
        have rem: "vma_bkeep_remove x (x + len) True False s1 =
            (0, False, [?v], delete_counted [?v] (s1\<lparr>vma_tree := xs @ ys\<rparr>))" by simp
        show ?thesis
        proof (cases pal_ok)
          case True
          then have "s' = insert_counted ?v s" using res' Inr Pair Some m(6) by simp
          then show ?thesis using m l new(2) int
            by (auto simp: grown_def intro!: exI [of _ ?v])
        next
          case False
          then have "s' = delete_counted [?v] (s1\<lparr>vma_tree := xs @ ys\<rparr>)"
            using res' Inr Pair Some rem by simp
          then show ?thesis using m(6) l(1) wf by (simp add: grown_def)
        qed
      qed
    qed
  qed
qed

lemma alloc_vma_grown:
  assumes "vmas_wf (vma_tree s)" "alloc_vma env s = (ok, s')"
  shows "grown s s' \<and> vmas_wf (vma_tree s') \<and> hdl_refs s' = hdl_refs s"
  using assms vma_malloc_grown [of "s\<lparr>vma_allocs := es\<rparr>" for es]
  by (auto simp: alloc_vma_def grown_def split: list.splits alloc_event.splits prod.splits)

text \<open>An address keeps what it had, or was free and is now part of such an internal area.\<close>

definition pool_page :: "page_info \<Rightarrow> bool" where
  "pool_page = (\<lambda>(prot, flags, file, comment). has_flag flags VMA_INTERNAL \<and> file = None)"

definition kept_at :: "libos_vma list \<Rightarrow> libos_vma list \<Rightarrow> u64 \<Rightarrow> bool" where
  "kept_at l l' a \<longleftrightarrow> view l' a = view l a \<or>
     view l a = None \<and> (\<exists>p. view l' a = Some p \<and> pool_page p)"

lemma kept_at_refl [simp]: "kept_at l l a"
  by (simp add: kept_at_def)

lemma kept_at_trans: "kept_at l l1 a \<Longrightarrow> kept_at l1 l2 a \<Longrightarrow> kept_at l l2 a"
  by (auto simp: kept_at_def)

lemma kept_at_view: "kept_at l l1 a \<Longrightarrow> view l2 a = view l1 a \<Longrightarrow> kept_at l l2 a"
  by (simp add: kept_at_def)

lemma grown_kept:
  assumes "vmas_wf (vma_tree s)" "grown s s'"
  shows "kept_at (vma_tree s) (vma_tree s') a"
proof (cases "vma_tree s' = vma_tree s")
  case False
  with assms(2) obtain v where v: "vma_tree s' = vma_insert v (vma_tree s)" "vma_ok v"
    "is_internal_vma v" "vfile v = None"
    "\<forall>w \<in> set (vma_tree s). disjoint_range (vbegin v) (vend v) w" by (auto simp: grown_def)
  have "view (vma_tree s) a = None" if "vbegin v \<le> a" "a < vend v"
    using v(5) that by (force simp: view_None_iff disjoint_range_def)
  with vma_insert_disjoint(2) [OF assms(1) v(2,5), of a] v show ?thesis
    by (auto simp: kept_at_def pool_page_def page_def is_internal_vma_def)
qed simp

lemma alloc_vma_ok:
  assumes "vmas_wf (vma_tree s)" "alloc_vma env s = (ok, s')"
  shows "vmas_wf (vma_tree s')" "kept_at (vma_tree s) (vma_tree s') a" "ref_slack s' h = ref_slack s h"
proof -
  note g = alloc_vma_grown [OF assms]
  show "vmas_wf (vma_tree s')" "kept_at (vma_tree s) (vma_tree s') a"
    using g grown_kept [OF assms(1)] by auto
  have "file_count (vma_tree s') h = file_count (vma_tree s) h"
    using g by (auto simp: grown_def)
  then show "ref_slack s' h = ref_slack s h" using g by (simp add: ref_slack_def)
qed

section \<open>Replacing a range by one area\<close>

text \<open>Removal followed by the insertion of an area that takes the range, as in unmapping and mapping.\<close>

lemma remove_then_insert:
  assumes wf: "vmas_wf (vma_tree s)" and v: "vma_ok v"
    and res: "vma_bkeep_remove (vbegin v) (vend v) is_internal new s = (0, used, freed, s')"
  shows "vmas_wf (vma_insert v (vma_tree s'))"
    "view (vma_insert v (vma_tree s')) a =
      (if vbegin v \<le> a \<and> a < vend v then Some (page v a) else view (vma_tree s) a)"
proof -
  have v': "is_alloc_aligned (vbegin v)" "is_alloc_aligned (vend v)" "vbegin v < vend v"
    using v by (auto simp: vma_ok_def)
  have le: "vbegin v \<le> vend v" using v'(3) by order
  have tree: "vma_tree s' = cut_range (vbegin v) (vend v) (vma_tree s)"
    using vma_bkeep_remove_post [OF wf v'(1,2) le, of is_internal new] res
    by (simp add: remove_post_def)
  note wf' = cut_range_wf [OF wf v'(1,2) le]
  note view' = cut_range_view [OF wf v'(1,2) le]
  have dis: "\<forall>w \<in> set (vma_tree s'). disjoint_range (vbegin v) (vend v) w"
    unfolding tree using disjoint_of_view [OF wf' _ _ v'(3)] view' by auto
  from vma_insert_disjoint(1) [OF wf' [folded tree] v dis]
  show "vmas_wf (vma_insert v (vma_tree s'))" .
  from vma_insert_disjoint(2) [OF wf' [folded tree] v dis, of a] view' [of a]
  show "view (vma_insert v (vma_tree s')) a =
      (if vbegin v \<le> a \<and> a < vend v then Some (page v a) else view (vma_tree s) a)"
    by (simp add: tree)
qed

lemma remove_outcomes:
  assumes wf: "vmas_wf (vma_tree s)" and al: "is_alloc_aligned start" "is_alloc_aligned fin"
    and le: "start \<le> fin"
    and res: "vma_bkeep_remove start fin is_internal new s = (ret, used, freed, s')"
  shows "ret = 0 \<or> ret < 0 \<and> ret \<noteq> - EINVAL \<and> s' = s \<and> freed = []"
    "ref_slack (free_vmas_freelist freed s') h = ref_slack s h"
  using vma_bkeep_remove_post [OF wf al le, of is_internal new] res
  by (auto simp: remove_post_def)

section \<open>Unmapping\<close>

lemma unmapped_vma_simps [simp]:
  "vbegin (unmapped_vma a b) = a" "vend (unmapped_vma a b) = b" "vfile (unmapped_vma a b) = None"
  "vcomment (unmapped_vma a b) = ''''"
  by (simp_all add: unmapped_vma_def)

lemma ref_slack_insert [simp]:
  "ref_slack (insert_counted v s) h = ref_slack s h - of_bool (vfile v = Some h)"
  by (simp add: ref_slack_def)

lemma ref_slack_free [simp]:
  "ref_slack (free_vma v s) h = ref_slack s h - of_bool (vfile v = Some h)"
  "ref_slack (get_file f s) h = ref_slack s h + of_bool (f = Some h)"
  "ref_slack (free_vmas_freelist vs s) h = ref_slack s h - file_count vs h"
  by (simp_all add: ref_slack_def)

lemma bkeep_munmap_effect:
  assumes wf: "vmas_wf (vma_tree s)" and nowrap: "addr < addr + len"
    and res: "bkeep_munmap env addr len is_internal s = (ret, tmp, s')"
  shows "vmas_wf (vma_tree s') \<and> ref_slack s' h = ref_slack s h \<and>
    (ret = 0 \<and> tmp = Some (unmapped_vma addr (addr + len)) \<and>
       (if addr \<le> a \<and> a < addr + len
        then view (vma_tree s') a = Some (page (unmapped_vma addr (addr + len)) a)
        else kept_at (vma_tree s) (vma_tree s') a) \<or>
     ret < 0 \<and> tmp = None \<and> kept_at (vma_tree s) (vma_tree s') a)"
proof (cases "len = 0 \<or> \<not> is_alloc_aligned len \<or> \<not> is_alloc_aligned addr")
  case True
  then show ?thesis using res wf by (auto simp: bkeep_munmap_def)
next
  case False
  then have al: "is_alloc_aligned addr" "is_alloc_aligned (addr + len)" by auto
  have le: "addr \<le> addr + len" using nowrap by order
  let ?t = "unmapped_vma addr (addr + len)"
  have ok: "vma_ok ?t" using al nowrap by (simp add: vma_ok_def)
  obtain b1 s1 where a1: "alloc_vma env s = (b1, s1)" by fastforce
  note s1 = alloc_vma_ok [OF wf a1]
  show ?thesis
  proof (cases b1)
    case False
    then show ?thesis using res a1 s1 \<open>\<not> (len = 0 \<or> _)\<close> by (simp add: bkeep_munmap_def)
  next
    case True
    obtain b2 s2 where a2: "alloc_vma env s1 = (b2, s2)" by fastforce
    note s2 = alloc_vma_ok [OF s1(1) a2]
    have k2: "kept_at (vma_tree s) (vma_tree s2) a" using kept_at_trans [OF s1(2) s2(2)] .
    obtain r used freed s3 where rm: "vma_bkeep_remove addr (addr + len) is_internal b2 s2 = (r, used, freed, s3)"
      by (metis prod_cases4)
    note out = remove_outcomes [OF s2(1) al le rm]
    have fin: "ret = r \<and> tmp = (if r \<ge> 0 then Some ?t else None) \<and>
        s' = free_vmas_freelist freed (if r \<ge> 0 then insert_counted ?t s3 else s3)"
      using res a1 a2 rm True \<open>\<not> (len = 0 \<or> _)\<close> by (auto simp: bkeep_munmap_def Let_def)
    show ?thesis
    proof (cases "r = 0")
      case True
      note rti = remove_then_insert [OF s2(1) ok, of is_internal b2 used freed s3] rm True
      have "ref_slack s' h = ref_slack s h"
        using fin True out(2) [of h] s1(3) [of h] s2(3) [of h] by simp
      moreover have "kept_at (vma_tree s) (vma_tree s') a" if "\<not> (addr \<le> a \<and> a < addr + len)"
        using kept_at_view [OF k2, of "vma_tree s'"] rti fin that by simp
      ultimately show ?thesis using rti fin by simp
    next
      case False
      with out(1) have r: "r < 0" "s3 = s2" "freed = []" by auto
      then have "s' = s2" using fin by (simp add: free_vmas_freelist_def)
      then show ?thesis using r fin k2 s2 s1 by simp
    qed
  qed
qed

text \<open>Taking out one of the areas frees exactly its range.\<close>

lemma remove1_vma:
  assumes "vmas_wf l" "v \<in> set l"
  shows "vmas_wf (remove1 v l)"
    "view (remove1 v l) a = (if vbegin v \<le> a \<and> a < vend v then None else view l a)"
    "file_count (remove1 v l) h = file_count l h - of_bool (vfile v = Some h)"
proof -
  from split_list [OF assms(2)] obtain xs ys where l: "l = xs @ v # ys" by blast
  have bv: "vbegin v < vend v" using vmas_wf_nonempty [OF assms] .
  have xs: "\<forall>x \<in> set xs. vend x \<le> vbegin v" and ys: "\<forall>y \<in> set ys. vend v \<le> vbegin y"
    using assms(1) l by (auto simp: wf_simps)
  have "v \<notin> set xs" using xs bv by fastforce
  then have r: "remove1 v l = xs @ ys" using l by (simp add: remove1_append)
  show "vmas_wf (remove1 v l)" using assms(1) l unfolding r by (simp add: wf_simps)
  have "view xs a = None" if "vbegin v \<le> a" using xs that by (intro view_None_above) fastforce
  moreover have "view ys a = None" if "a < vend v" using ys that by (intro view_None_below) fastforce
  ultimately show "view (remove1 v l) a = (if vbegin v \<le> a \<and> a < vend v then None else view l a)"
    using l unfolding r by (auto simp: view_simps split: option.splits)
  show "file_count (remove1 v l) h = file_count l h - of_bool (vfile v = Some h)"
    using l unfolding r by simp
qed

lemma bkeep_remove_tmp_vma_effect:
  assumes "vmas_wf (vma_tree s)" "v \<in> set (vma_tree s)"
  shows "vmas_wf (vma_tree (bkeep_remove_tmp_vma v s))"
    "view (vma_tree (bkeep_remove_tmp_vma v s)) a =
      (if vbegin v \<le> a \<and> a < vend v then None else view (vma_tree s) a)"
    "ref_slack (bkeep_remove_tmp_vma v s) h = ref_slack s h"
  using remove1_vma [OF assms]
  by (simp_all add: bkeep_remove_tmp_vma_def total_memory_size_sub_def ref_slack_def)

section \<open>Mapping at a fixed address\<close>

lemma new_mapping_simps [simp]:
  "vfile (new_mapping prot flags file offset comment) = file"
  "length (vcomment (new_mapping prot flags file offset comment)) < VMA_COMMENT_LEN"
  by (simp_all add: new_mapping_def copy_comment_def)

lemma overlaps_next_iff:
  assumes wf: "vmas_wf l" and ne: "start < fin"
  shows "overlaps_next start fin l \<longleftrightarrow> (\<exists>a. start \<le> a \<and> a < fin \<and> view l a \<noteq> None)"
proof -
  note sp = split_at_addr [OF wf, of start]
  have wff: "vmas_wf (vmas_from start l)" by (metis wf sp(1) vmas_wf_append)
  have lview: "view l a = view (vmas_from start l) a" if "start \<le> a" for a
  proof -
    have "view (vmas_before start l) a = None" using sp(2) that by (intro view_None_above) fastforce
    then show ?thesis using view_append sp(1) by (metis option.simps(4))
  qed
  show ?thesis
  proof (cases "vmas_from start l")
    case Nil
    then show ?thesis using lview by (auto simp: overlaps_next_def view_simps)
  next
    case (Cons v vs)
    have v: "vbegin v < vend v" "start < vend v" "\<forall>w \<in> set vs. vend v \<le> vbegin w"
      using wff Cons sp(3) by (auto simp: wf_simps vma_ok_def)
    show ?thesis
    proof (cases "vbegin v < fin")
      case True
      let ?a = "max start (vbegin v)"
      have a: "start \<le> ?a" "?a < fin" "vbegin v \<le> ?a" "?a < vend v"
        using True v ne by (auto simp: max_def)
      then have "view l ?a \<noteq> None" using lview [OF a(1)] Cons by (simp add: view_simps)
      with a(1,2) have "\<exists>a. start \<le> a \<and> a < fin \<and> view l a \<noteq> None" by blast
      then show ?thesis using True Cons by (simp add: overlaps_next_def)
    next
      case False
      have none: "view l a = None" if "start \<le> a" "a < fin" for a
      proof -
        have "\<forall>w \<in> set (v # vs). a < vbegin w" using False that(2) v(1,3) by fastforce
        then show ?thesis using lview [OF that(1)] Cons view_None_below by simp
      qed
      have "\<not> (\<exists>a. start \<le> a \<and> a < fin \<and> view l a \<noteq> None)"
      proof
        assume "\<exists>a. start \<le> a \<and> a < fin \<and> view l a \<noteq> None"
        then obtain a where a: "start \<le> a" "a < fin" "view l a \<noteq> None" by blast
        from none [OF a(1,2)] a(3) show False by simp
      qed
      moreover have "\<not> overlaps_next start fin l" using False Cons by (simp add: overlaps_next_def)
      ultimately show ?thesis by (simp only: simp_thms)
    qed
  qed
qed

lemma insert_in_free_range:
  assumes wf: "vmas_wf l" and v: "vma_ok v" and free: "\<not> overlaps_next (vbegin v) (vend v) l"
  shows "vmas_wf (vma_insert v l)"
    "view (vma_insert v l) a = (if vbegin v \<le> a \<and> a < vend v then Some (page v a) else view l a)"
proof -
  have ne: "vbegin v < vend v" using v by (simp add: vma_ok_def)
  have "\<forall>w \<in> set l. disjoint_range (vbegin v) (vend v) w"
    using disjoint_of_view [OF wf _ _ ne] overlaps_next_iff [OF wf ne] free by blast
  from vma_insert_disjoint [OF wf v this] show "vmas_wf (vma_insert v l)"
    "view (vma_insert v l) a = (if vbegin v \<le> a \<and> a < vend v then Some (page v a) else view l a)"
    by auto
qed

text \<open>The area a successful mapping leaves.\<close>

definition mapping_at ::
  "u64 \<Rightarrow> u64 \<Rightarrow> u32 \<Rightarrow> u32 \<Rightarrow> nat option \<Rightarrow> u64 \<Rightarrow> string \<Rightarrow> libos_vma" where
  "mapping_at addr len prot flags file offset comment =
     (new_mapping prot flags file offset comment)\<lparr>vbegin := addr, vend := addr + len\<rparr>"

lemma mapping_at_simps [simp]:
  "vbegin (mapping_at addr len prot flags file offset comment) = addr"
  "vend (mapping_at addr len prot flags file offset comment) = addr + len"
  "vfile (mapping_at addr len prot flags file offset comment) = file"
  "length (vcomment (mapping_at addr len prot flags file offset comment)) < VMA_COMMENT_LEN"
  by (simp_all add: mapping_at_def)

lemma bkeep_mmap_fixed_effect:
  assumes wf: "vmas_wf (vma_tree s)" and nowrap: "addr < addr + len"
    and res: "bkeep_mmap_fixed env addr len prot flags file offset comment s = (ret, s')"
  defines "v \<equiv> mapping_at addr len prot flags file offset comment"
  shows "vmas_wf (vma_tree s') \<and> ref_slack s' h = ref_slack s h \<and>
    (ret = 0 \<and>
       (if addr \<le> a \<and> a < addr + len then view (vma_tree s') a = Some (page v a)
        else kept_at (vma_tree s) (vma_tree s') a) \<and>
       (has_flag flags MAP_FIXED_NOREPLACE \<longrightarrow> addr \<le> a \<and> a < addr + len \<longrightarrow>
          view (vma_tree s) a = None) \<or>
     ret < 0 \<and> kept_at (vma_tree s) (vma_tree s') a)"
proof (cases "len = 0 \<or> \<not> is_alloc_aligned len \<or> \<not> is_alloc_aligned addr")
  case True
  then show ?thesis using res wf by (auto simp: bkeep_mmap_fixed_def)
next
  case good: False
  then have al: "is_alloc_aligned addr" "is_alloc_aligned (addr + len)" by auto
  have le: "addr \<le> addr + len" using nowrap by order
  have v: "vma_ok v" "vbegin v = addr" "vend v = addr + len" "vfile v = file"
    using al nowrap by (simp_all add: vma_ok_def v_def)
  obtain b1 s1 where a1: "alloc_vma env s = (b1, s1)" by fastforce
  note s1 = alloc_vma_ok [OF wf a1]
  show ?thesis
  proof (cases b1)
    case False
    then show ?thesis using res a1 s1 good by (simp add: bkeep_mmap_fixed_def)
  next
    case True
    obtain b2 s2 where a2: "alloc_vma env s1 = (b2, s2)" by fastforce
    note s2 = alloc_vma_ok [OF s1(1) a2]
    have k2: "kept_at (vma_tree s) (vma_tree s2) x" for x
      using kept_at_trans [OF s1(2) s2(2)] .
    define g where "g = get_file file s2"
    have g: "vma_tree g = vma_tree s2" "ref_slack g h = ref_slack s h + of_bool (file = Some h)"
      using s1(3) s2(3) by (simp_all add: g_def)
    have wfg: "vmas_wf (vma_tree g)" using g s2(1) by simp
    obtain r used freed s3 where rm:
      "(if has_flag flags MAP_FIXED_NOREPLACE
        then (if overlaps_next addr (addr + len) (vma_tree g) then (- EEXIST, False, [], g)
              else (0, False, [], g))
        else vma_bkeep_remove addr (addr + len) (has_flag flags VMA_INTERNAL) b2 g) =
       (r, used, freed, s3)" by (metis prod_cases4)
    have fin: "ret = r \<and> s' = (let t = free_vmas_freelist freed (if r \<ge> 0 then insert_counted v s3 else s3)
        in if r < 0 then free_vma v t else t)"
      using res a1 a2 True good rm [unfolded g_def] v_def [unfolded mapping_at_def]
      by (auto simp: bkeep_mmap_fixed_def Let_def cong: if_cong)
    have out: "(r = 0 \<or> r < 0 \<and> s3 = g \<and> freed = []) \<and>
        ref_slack (free_vmas_freelist freed s3) h = ref_slack g h"
    proof (cases "has_flag flags MAP_FIXED_NOREPLACE")
      case True
      then show ?thesis using rm by (auto simp: free_vmas_freelist_def split: if_splits)
    next
      case False
      then have "vma_bkeep_remove addr (addr + len) (has_flag flags VMA_INTERNAL) b2 g =
          (r, used, freed, s3)" using rm by simp
      from remove_outcomes [OF wfg al le this] show ?thesis by blast
    qed
    show ?thesis
    proof (cases "r = 0")
      case True
      have ins: "vmas_wf (vma_insert v (vma_tree s3)) \<and> view (vma_insert v (vma_tree s3)) x =
          (if addr \<le> x \<and> x < addr + len then Some (page v x) else view (vma_tree g) x) \<and>
          (has_flag flags MAP_FIXED_NOREPLACE \<longrightarrow> addr \<le> x \<and> x < addr + len \<longrightarrow> view (vma_tree g) x = None)"
        for x
      proof (cases "has_flag flags MAP_FIXED_NOREPLACE")
        case nr: True
        then have no: "\<not> overlaps_next addr (addr + len) (vma_tree g)" "s3 = g"
          using rm True by (auto split: if_splits)
        have "view (vma_tree g) x = None" if "addr \<le> x" "x < addr + len"
          using no(1) that overlaps_next_iff [OF wfg nowrap] by blast
        with insert_in_free_range(1) [OF wfg v(1)] insert_in_free_range(2) [OF wfg v(1), of x] no v(2,3)
        show ?thesis by simp
      next
        case nr: False
        then have "vma_bkeep_remove (vbegin v) (vend v) (has_flag flags VMA_INTERNAL) b2 g =
            (0, used, freed, s3)" using rm True v(2,3) by simp
        from remove_then_insert(1) [OF wfg v(1) this] remove_then_insert(2) [OF wfg v(1) this, of x]
          nr v(2,3) show ?thesis by simp
      qed
      have tree: "vma_tree s' = vma_insert v (vma_tree s3)" using fin True by simp
      have "kept_at (vma_tree s) (vma_tree s') a" if "\<not> (addr \<le> a \<and> a < addr + len)"
        using kept_at_view [OF k2, of "vma_tree s'"] ins [of a] that g(1) tree by simp
      moreover have "ref_slack s' h = ref_slack s h"
        using fin True out g(2) v(4) by simp
      moreover have "view (vma_tree s) a = None" if "view (vma_tree g) a = None"
        using k2 [of a] that g(1) by (auto simp: kept_at_def)
      ultimately show ?thesis
        using ins [of a] g(1) fin True tree by simp
    next
      case False
      with out have r: "r < 0" "s3 = g" "freed = []" by auto
      then have "s' = free_vma v g" using fin by (simp add: free_vmas_freelist_def Let_def)
      then show ?thesis using r fin k2 [of a] g wfg v(4) by simp
    qed
  qed
qed

section \<open>Mapping anywhere\<close>

lemma bkeep_mmap_any_in_range_effect:
  assumes wf: "vmas_wf (vma_tree s)"
    and res: "bkeep_mmap_any_in_range env bottom top_addr len prot flags file offset comment s =
      (ret, addr, s')"
  defines "v \<equiv> mapping_at addr len prot flags file offset comment"
  shows "vmas_wf (vma_tree s') \<and> ref_slack s' h = ref_slack s h \<and>
    (ret = 0 \<and> bottom \<le> addr \<and> addr < addr + len \<and> addr + len \<le> top_addr \<and>
       (if addr \<le> a \<and> a < addr + len
        then view (vma_tree s) a = None \<and> view (vma_tree s') a = Some (page v a)
        else kept_at (vma_tree s) (vma_tree s') a) \<or>
     ret < 0 \<and> kept_at (vma_tree s) (vma_tree s') a)"
proof (cases "mmap_any_checks bottom top_addr len flags")
  case (Inl e)
  then have "e < 0" by (auto simp: mmap_any_checks_def Let_def split: if_splits)
  then show ?thesis using res wf Inl by (simp add: bkeep_mmap_any_in_range_def)
next
  case (Inr t)
  note ck = mmap_any_checks_Inr [OF Inr]
  let ?new = "new_mapping prot flags file offset comment"
  obtain b1 s1 where a1: "alloc_vma env s = (b1, s1)" by fastforce
  note s1 = alloc_vma_ok [OF wf a1]
  show ?thesis
  proof (cases b1)
    case False
    then show ?thesis using res Inr a1 s1 by (simp add: bkeep_mmap_any_in_range_def)
  next
    case True
    define g where "g = get_file file s1"
    have g: "vma_tree g = vma_tree s1" "ref_slack g h = ref_slack s h + of_bool (file = Some h)"
      using s1(3) by (simp_all add: g_def)
    have wfg: "vmas_wf (vma_tree g)" using g s1(1) by simp
    obtain r s2 where m: "mmap_any_locked bottom t len ?new g = (r, s2)" by fastforce
    show ?thesis
    proof (cases r)
      case None
      have "s2 = g" using mmap_any_locked_None(1) [OF wfg m [unfolded None]] .
      then have "ret = - ENOMEM" "s' = free_vma ?new g"
        using res Inr a1 True m None by (simp_all add: bkeep_mmap_any_in_range_def g_def)
      then show ?thesis using s1(2) [of a] g wfg by simp
    next
      case (Some x)
      then have x: "ret = 0" "addr = x" "s' = s2"
        using res Inr a1 True m by (simp_all add: bkeep_mmap_any_in_range_def g_def)
      note ms = mmap_any_locked_Some [OF wfg ck(4,2,1) new_mapping_simps(2) m [unfolded Some], folded x(2)]
      have v: "?new\<lparr>vend := addr + len, vbegin := addr\<rparr> = v" by (simp add: v_def mapping_at_def)
      have ok: "vma_ok v" "s2 = insert_counted v g" using ms(4,6) by (simp_all add: v)
      have vs: "vbegin v = addr" "vend v = addr + len" "vfile v = file" by (simp_all add: v_def)
      have free: "view (vma_tree g) a = None" if "addr \<le> a" "a < addr + len"
        using ms(5) that by (force simp: view_None_iff disjoint_range_def)
      have view: "view (vma_tree s') a =
          (if addr \<le> a \<and> a < addr + len then Some (page v a) else view (vma_tree g) a)"
        using vma_insert_disjoint(2) [OF wfg ok(1)] ms(5) vs x(3) ok(2) by simp
      have "kept_at (vma_tree s) (vma_tree s') a" if "\<not> (addr \<le> a \<and> a < addr + len)"
        using kept_at_view [OF s1(2) [of a], of "vma_tree s'"] view that g(1) by simp
      moreover have "view (vma_tree s) a = None" if "addr \<le> a" "a < addr + len"
        using free [OF that] s1(2) [of a] g(1) by (auto simp: kept_at_def)
      moreover have "addr + len \<le> top_addr" using ms(3) ck(5) by order
      ultimately show ?thesis
        using x ms(1,2,7) ok(2) g(2) vs view by simp
    qed
  qed
qed

section \<open>Changing protections\<close>

lemma vma_update_prot_simps [simp]:
  "vbegin (vma_update_prot v prot) = vbegin v" "vend (vma_update_prot v prot) = vend v"
  "vfile (vma_update_prot v prot) = vfile v" "vcomment (vma_update_prot v prot) = vcomment v"
  "voffset (vma_update_prot v prot) = voffset v"
  by (simp_all add: vma_update_prot_def Let_def)

lemma vma_ok_update_prot [simp]: "vma_ok (vma_update_prot v prot) = vma_ok v"
  by (simp add: vma_ok_def)

text \<open>What \<^verbatim>\<open>vma_update_prot\<close> does to a page.\<close>

definition upd_page :: "u32 \<Rightarrow> page_info \<Rightarrow> page_info" where
  "upd_page prot = (\<lambda>(p, f, file, c).
     (prot AND (PROT_READ OR PROT_WRITE OR PROT_EXEC),
      if file \<noteq> None \<and> has_flag prot PROT_WRITE then f OR VMA_TAINTED else f, file, c))"

lemma page_update_prot [simp]: "page (vma_update_prot v prot) a = upd_page prot (page v a)"
  by (cases "vfile v") (auto simp: page_def upd_page_def vma_update_prot_def Let_def)

fun change_list :: "u64 \<Rightarrow> u32 \<Rightarrow> libos_vma list \<Rightarrow> libos_vma list" where
  "change_list fin prot [] = []"
| "change_list fin prot (v # vs) =
     (if vend v \<le> fin then vma_update_prot v prot # change_list fin prot vs
      else if fin \<le> vbegin v then v # vs
      else vma_update_prot (v\<lparr>vend := fin\<rparr>) prot # trim_front fin v # vs)"

lemma change_list_bounds:
  "w \<in> set (change_list fin prot vs) \<Longrightarrow> \<exists>v \<in> set vs. vbegin v \<le> vbegin w"
proof (induction vs)
  case (Cons v vs)
  then show ?case by (auto split: if_splits)
qed simp

lemma change_list_wf:
  assumes "vmas_wf vs" "is_alloc_aligned fin"
  shows "vmas_wf (change_list fin prot vs)"
  using assms(1)
proof (induction vs)
  case (Cons v vs)
  then have v: "vma_ok v" "vmas_wf vs" "\<forall>w \<in> set vs. vend v \<le> vbegin w" by (auto simp: wf_simps)
  consider "vend v \<le> fin" | "\<not> vend v \<le> fin" "fin \<le> vbegin v"
    | "\<not> vend v \<le> fin" "\<not> fin \<le> vbegin v" by blast
  then show ?case
  proof cases
    case 1
    have "vend v \<le> vbegin w" if "w \<in> set (change_list fin prot vs)" for w
      using change_list_bounds [OF that] v(3) by fastforce
    with 1 Cons v show ?thesis by (simp add: wf_simps)
  next
    case 2
    then show ?thesis using Cons by simp
  next
    case 3
    have "fin \<le> vbegin w" if "w \<in> set vs" for w using v(3) that 3(1) by fastforce
    moreover have "change_list fin prot (v # vs) =
        vma_update_prot (v\<lparr>vend := fin\<rparr>) prot # trim_front fin v # vs" using 3 by simp
    ultimately show ?thesis using 3 v assms(2) by (simp add: wf_simps vma_ok_def not_le del: change_list.simps)
  qed
qed simp

lemma change_list_view:
  assumes "vmas_wf vs"
  shows "view (change_list fin prot vs) a =
    (if a < fin then map_option (upd_page prot) (view vs a) else view vs a)"
  using assms
proof (induction vs)
  case (Cons v vs)
  then have v: "vma_ok v" "vmas_wf vs" "\<forall>w \<in> set vs. vend v \<le> vbegin w" by (auto simp: wf_simps)
  have vs: "view vs a = None" if "a < vend v"
    using v(3) that by (intro view_None_below) fastforce
  consider "vend v \<le> fin" | "\<not> vend v \<le> fin" "fin \<le> vbegin v"
    | "\<not> vend v \<le> fin" "\<not> fin \<le> vbegin v" by blast
  then show ?case
  proof cases
    case 1
    then have "a < vend v \<Longrightarrow> a < fin" by order
    with 1 Cons v show ?thesis by (auto simp: view_simps)
  next
    case 2
    then have lt: "a < fin \<Longrightarrow> \<not> vbegin v \<le> a \<and> a < vend v" by (auto simp: not_le)
    then have "a < fin \<Longrightarrow> view (v # vs) a = None" using vs by (simp add: view_simps)
    with 2 show ?thesis by auto
  next
    case 3
    then have "fin < vend v" "vbegin v < fin" by (simp_all add: not_le)
    then have "a < fin \<Longrightarrow> a < vend v" "\<not> a < fin \<Longrightarrow> vbegin v \<le> a" by order+
    with 3 vs show ?thesis by (auto simp: view_simps)
  qed
qed (simp add: view_simps)

end
