(* ===== verification/Vma_Change.thy ===== *)
theory Vma_Change
  imports Vma_Ops
begin

text \<open>
  Changing the protection of a range, \<^verbatim>\<open>_vma_bkeep_change\<close> and \<^verbatim>\<open>bkeep_mprotect\<close>: areas at the ends
  of the range are split, and the pages of the range get the new protection.
\<close>

lemma change_list_append_wf:
  assumes "vmas_wf (pre @ vs)" "is_alloc_aligned fin"
  shows "vmas_wf (pre @ change_list fin prot vs)"
  using assms change_list_wf [OF _ assms(2), of vs prot] change_list_bounds [of _ fin prot vs]
  by (fastforce simp: vmas_wf_append)

lemma change_loop_insert:
  assumes "vmas_wf (pre @ vs)" "is_alloc_aligned fin" "change_loop fin prot vs = (ws, new)"
  shows "(case new of None \<Rightarrow> pre @ ws | Some n \<Rightarrow> vma_insert n (pre @ ws)) = pre @ change_list fin prot vs"
  using assms(1,3)
proof (induction vs arbitrary: pre ws)
  case (Cons v vs)
  have com: "length (vcomment v) < VMA_COMMENT_LEN" using Cons.prems(1) by (simp add: wf_simps vma_ok_def)
  consider "vend v \<le> fin" | "\<not> vend v \<le> fin" "fin \<le> vbegin v"
    | "\<not> vend v \<le> fin" "\<not> fin \<le> vbegin v" by blast
  then show ?case
  proof cases
    case 1
    obtain us where r: "change_loop fin prot vs = (us, new)" "ws = vma_update_prot v prot # us"
      using Cons.prems(2) 1 by (auto split: prod.splits)
    have "vmas_wf ((pre @ [vma_update_prot v prot]) @ vs)" using Cons.prems(1) by (simp add: wf_simps)
    from Cons.IH [OF this r(1)] show ?thesis using 1 r(2) by (auto split: option.splits)
  next
    case 2
    then show ?thesis using Cons.prems(2) by auto
  next
    case 3
    let ?w = "vma_update_prot (v\<lparr>vend := fin\<rparr>) prot"
    have n: "new = Some (trim_front fin v)" "ws = ?w # vs"
      using Cons.prems(2) 3 com by (simp_all add: split_vma_parts)
    have cl: "change_list fin prot (v # vs) = ?w # trim_front fin v # vs" using 3 by simp
    have "vmas_wf (pre @ change_list fin prot (v # vs))"
      using change_list_append_wf [OF Cons.prems(1) assms(2)] .
    then have "vmas_wf ((pre @ [?w]) @ trim_front fin v # vs)" using cl by simp
    from vma_insert_between [OF this] n cl show ?thesis by simp
  qed
qed simp

lemma change_loop_files:
  "change_loop fin prot vs = (ws, new) \<Longrightarrow> map vfile ws = map vfile vs"
proof (induction vs arbitrary: ws)
  case (Cons v vs)
  then show ?case
    by (auto simp: split_vma_def Let_def split: if_splits prod.splits)
qed simp

text \<open>What the checks establish: the range is covered without a hole.\<close>

lemma change_check_loop_covers:
  assumes "change_check_loop env fin prot is_internal c vs = 0" "vmas_wf vs"
  shows "c \<and> vs \<noteq> [] \<and> (\<forall>a. vbegin (hd vs) \<le> a \<and> a < fin \<longrightarrow> view vs a \<noteq> None) \<and>
    (\<exists>w \<in> set vs. fin \<le> vend w)"
  using assms
proof (induction env fin prot is_internal c vs rule: change_check_loop.induct)
  case (2 env fin prot is_internal c v vs)
  have ck: "change_check env prot is_internal v = 0" using 2(2) by (auto split: if_splits)
  show ?case
  proof (cases "fin \<le> vend v")
    case True
    have "a < vend v" if "a < fin" for a using True that by order
    with True ck 2(2) show ?thesis by (auto simp: view_simps split: if_splits)
  next
    case False
    then obtain w ws where vs: "vs = w # ws" using 2(2) ck by (cases vs) auto
    have rec: "change_check_loop env fin prot is_internal (c \<and> vend v = vbegin w) vs = 0"
      using 2(2) ck False vs by simp
    from 2(1) [OF _ False vs rec] ck 2(3)
    have ih: "c" "vend v = vbegin w" "\<forall>a. vbegin w \<le> a \<and> a < fin \<longrightarrow> view vs a \<noteq> None"
      "\<exists>w \<in> set vs. fin \<le> vend w" by (auto simp: wf_simps vs)
    then have "view (v # vs) a \<noteq> None" if "vbegin v \<le> a" "a < fin" for a
      using that by (cases "a < vend v") (auto simp: view_simps)
    with ih show ?thesis by auto
  qed
qed simp

definition change_start :: "u64 \<Rightarrow> u32 \<Rightarrow> libos_vma list \<Rightarrow> u64" where
  "change_start start prot l =
     (if has_flag prot PROT_GROWSDOWN
      then (case vmas_from start l of [] \<Rightarrow> start | v # vs \<Rightarrow> vbegin v) else start)"

text \<open>
  Outside the range a page keeps its protection. The part of an area above the range that had to
  be cut off twice gets the taint flag of the range.
\<close>

definition changed_view :: "u64 \<Rightarrow> u64 \<Rightarrow> u32 \<Rightarrow> libos_vma list \<Rightarrow> libos_vma list \<Rightarrow> u64 \<Rightarrow> bool" where
  "changed_view start fin prot l l' a \<longleftrightarrow>
     (if change_start start prot l \<le> a \<and> a < fin
      then view l a \<noteq> None \<and> view l' a = map_option (upd_page prot) (view l a)
      else view l' a = view l a \<or>
        fin \<le> a \<and> (\<exists>p. view l a = Some p \<and> view l' a = Some (upd_page (fst p) (upd_page prot p))))"

lemma insert_copy_simps [simp]:
  "vma_tree (insert_copy new s) =
     (case new of None \<Rightarrow> vma_tree s | Some n \<Rightarrow> vma_insert n (vma_tree s))"
  "ref_slack (insert_copy new s) h = ref_slack s h"
  "vma_allocs (insert_copy new s) = vma_allocs s"
  by (auto simp: insert_copy_def split: option.splits)

text \<open>The pieces of the first area when the range starts inside it.\<close>

lemma cut_first_wf:
  assumes wf: "vmas_wf (pre @ v # vs)" and al: "is_alloc_aligned start" and st: "vbegin v < start" "start < vend v"
  shows "vmas_wf (pre @ v\<lparr>vend := start\<rparr> # vma_update_prot (trim_front start v) prot # vs)"
proof -
  have "\<forall>w \<in> set vs. start \<le> vbegin w" using wf st(2) by (fastforce simp: wf_simps)
  moreover have "\<forall>x \<in> set pre. vend x \<le> start" using wf st(1) by (fastforce simp: wf_simps)
  ultimately show ?thesis using wf al st by (simp add: wf_simps vma_ok_def)
qed

lemma cut_first_view:
  assumes wf: "vmas_wf (pre @ v # vs)" and st: "vbegin v < start" "start < vend v"
    and ws: "\<forall>w \<in> set ws. vend v \<le> vbegin w"
  shows "view (pre @ v\<lparr>vend := start\<rparr> # vma_update_prot (trim_front start v) prot # ws) a =
    (if a < start then view (pre @ v # vs) a
     else if a < vend v then map_option (upd_page prot) (view (pre @ v # vs) a)
     else view ws a)"
proof -
  have pre: "view pre a = None" if "vbegin v \<le> a"
    using wf that by (intro view_None_above) (fastforce simp: wf_simps)
  have vs: "view vs a = None" "view ws a = None" if "a < vend v"
    using wf ws that by (intro view_None_below; fastforce simp: wf_simps)+
  consider (below) "a < vbegin v" | (low) "vbegin v \<le> a" "a < start" | (high) "start \<le> a" "a < vend v"
    | (above) "vend v \<le> a" by (meson not_le)
  then show ?thesis
  proof cases
    case below
    then have "a < start" "a < vend v" "\<not> vbegin v \<le> a" "\<not> start \<le> a" using st by order+
    with vs show ?thesis by (simp add: view_simps cong: option.case_cong)
  next
    case low
    then have "a < vend v" using st by order
    with low pre show ?thesis by (simp add: view_simps)
  next
    case high
    then have "vbegin v \<le> a" "\<not> a < start" using st by order+
    with high pre show ?thesis by (simp add: view_simps)
  next
    case above
    then have "vbegin v \<le> a" "\<not> a < start" "\<not> a < vend v" using st by order+
    with pre show ?thesis by (simp add: view_simps)
  qed
qed

lemma view_above:
  assumes "vmas_wf (pre @ v # vs)" "vend v \<le> a"
  shows "view (pre @ v # vs) a = view vs a"
proof -
  have b: "vbegin v < vend v" using assms(1) by (simp add: wf_simps vma_ok_def)
  then have "view pre a = None"
    using assms by (intro view_None_above) (fastforce simp: wf_simps)
  moreover have "\<not> a < vend v" using assms(2) by order
  ultimately show ?thesis by (simp add: view_simps)
qed

lemma view_inside:
  assumes "vmas_wf (pre @ v # vs)" "vbegin v \<le> a" "a < vend v"
  shows "view (pre @ v # vs) a = Some (page v a)"
proof -
  have "view pre a = None"
    using assms by (intro view_None_above) (fastforce simp: wf_simps)
  then show ?thesis using assms by (simp add: view_simps)
qed

text \<open>The range lies inside one area, which ends in three pieces.\<close>

lemma change_inside:
  fixes prot :: u32
  assumes wf: "vmas_wf (pre @ v # vs)" and al: "is_alloc_aligned start" "is_alloc_aligned fin"
    and st: "vbegin v < start" "start < fin" "fin < vend v"
  defines "old \<equiv> v\<lparr>vend := start\<rparr>"
    and "new1 \<equiv> vma_update_prot (trim_front start v) prot"
  shows "vmas_wf (pre @ old # new1\<lparr>vend := fin\<rparr> # vma_update_prot (trim_front fin new1) (vprot v) # vs)"
    "\<not> has_flag prot PROT_GROWSDOWN \<Longrightarrow> changed_view start fin prot (pre @ v # vs)
      (pre @ old # new1\<lparr>vend := fin\<rparr> # vma_update_prot (trim_front fin new1) (vprot v) # vs) a"
proof -
  have sv: "start < vend v" using st by order
  have n: "vbegin new1 = start" "vend new1 = vend v" by (simp_all add: new1_def)
  note wf1 = cut_first_wf [OF wf al(1) st(1) sv, of prot, folded old_def, folded new1_def]
  have wf1': "vmas_wf ((pre @ [old]) @ new1 # vs)" using wf1 by simp
  from cut_first_wf [OF wf1' al(2), of "vprot v"] st n
  show "vmas_wf (pre @ old # new1\<lparr>vend := fin\<rparr> # vma_update_prot (trim_front fin new1) (vprot v) # vs)"
    by simp
  have ws: "\<forall>w \<in> set vs. vend v \<le> vbegin w" using wf by (simp add: wf_simps)
  have inner: "view (pre @ old # new1 # vs) a = (if a < start then view (pre @ v # vs) a
      else if a < vend v then map_option (upd_page prot) (view (pre @ v # vs) a) else view vs a)"
    using cut_first_view [OF wf st(1) sv ws, of prot a] by (simp add: old_def new1_def)
  have outer: "view (pre @ old # new1\<lparr>vend := fin\<rparr> # vma_update_prot (trim_front fin new1) (vprot v) # vs) a =
      (if a < fin then view (pre @ old # new1 # vs) a
       else if a < vend v then map_option (upd_page (vprot v)) (view (pre @ old # new1 # vs) a)
       else view vs a)"
    using cut_first_view [OF wf1', of fin vs "vprot v" a] ws st n by simp
  assume ng: "\<not> has_flag prot PROT_GROWSDOWN"
  consider "a < start" | "start \<le> a" "a < fin" | "fin \<le> a" "a < vend v" | "vend v \<le> a"
    by (meson not_le)
  then show "changed_view start fin prot (pre @ v # vs)
      (pre @ old # new1\<lparr>vend := fin\<rparr> # vma_update_prot (trim_front fin new1) (vprot v) # vs) a"
  proof cases
    case 1
    then have "a < fin" "\<not> start \<le> a" using st by order+
    with 1 ng inner outer show ?thesis by (simp add: changed_view_def change_start_def)
  next
    case 2
    then have a: "\<not> a < start" "a < vend v" "vbegin v \<le> a" using st by order+
    with view_inside [OF wf a(3,2)] 2 ng inner outer show ?thesis
      by (simp add: changed_view_def change_start_def)
  next
    case 3
    then have a: "\<not> a < start" "\<not> a < fin" "vbegin v \<le> a" using st by order+
    with view_inside [OF wf a(3) 3(2)] 3 ng inner outer show ?thesis
      by (simp add: changed_view_def change_start_def page_def)
  next
    case 4
    then have "\<not> a < fin" "\<not> a < vend v" using st by order+
    with view_above [OF wf 4] ng inner outer show ?thesis
      by (simp add: changed_view_def change_start_def)
  qed
qed

text \<open>The range starts inside an area and ends at its end or above.\<close>

lemma change_from_inside:
  fixes prot :: u32
  assumes wf: "vmas_wf (pre @ v # vs)" and al: "is_alloc_aligned start" "is_alloc_aligned fin"
    and st: "vbegin v < start" "start < vend v" "\<not> fin < vend v"
    and cov: "\<forall>a. vbegin v \<le> a \<and> a < fin \<longrightarrow> view (v # vs) a \<noteq> None"
  defines "old \<equiv> v\<lparr>vend := start\<rparr>"
    and "new1 \<equiv> vma_update_prot (trim_front start v) prot"
  shows "vmas_wf (pre @ old # new1 # change_list fin prot vs)"
    "\<not> has_flag prot PROT_GROWSDOWN \<Longrightarrow> changed_view start fin prot (pre @ v # vs)
      (pre @ old # new1 # change_list fin prot vs) a"
proof -
  have "vmas_wf ((pre @ [old, new1]) @ vs)"
    using cut_first_wf [OF wf al(1) st(1,2), of prot] by (simp add: old_def new1_def)
  from change_list_append_wf [OF this al(2), of prot]
  show "vmas_wf (pre @ old # new1 # change_list fin prot vs)" by simp
  have wfv: "vmas_wf vs" and vs: "\<forall>w \<in> set vs. vend v \<le> vbegin w" using wf by (simp_all add: wf_simps)
  then have ws: "\<forall>w \<in> set (change_list fin prot vs). vend v \<le> vbegin w"
    using change_list_bounds [of _ fin prot vs] by fastforce
  have view: "view (pre @ old # new1 # change_list fin prot vs) a = (if a < start then view (pre @ v # vs) a
      else if a < vend v then map_option (upd_page prot) (view (pre @ v # vs) a)
      else if a < fin then map_option (upd_page prot) (view vs a) else view vs a)"
    using cut_first_view [OF wf st(1,2) ws, of prot a] change_list_view [OF wfv, of fin prot a]
    by (simp add: old_def new1_def)
  assume ng: "\<not> has_flag prot PROT_GROWSDOWN"
  consider "a < start" | "start \<le> a" "a < vend v" | "vend v \<le> a" by (meson not_le)
  then show "changed_view start fin prot (pre @ v # vs) (pre @ old # new1 # change_list fin prot vs) a"
  proof cases
    case 1
    then have "\<not> start \<le> a" by order
    with 1 ng view show ?thesis by (simp add: changed_view_def change_start_def)
  next
    case 2
    then have a: "\<not> a < start" "a < fin" "vbegin v \<le> a" using st by order+
    with view_inside [OF wf a(3) 2(2)] 2 ng view show ?thesis
      by (simp add: changed_view_def change_start_def)
  next
    case 3
    then have a: "\<not> a < start" "\<not> a < vend v" "vbegin v \<le> a" "start \<le> a" using st by order+
    have "view vs a \<noteq> None" if "a < fin"
      using cov a that by (auto simp: view_simps)
    with view_above [OF wf 3] a ng view show ?thesis
      by (simp add: changed_view_def change_start_def)
  qed
qed

text \<open>The range starts at the beginning of an area, or is taken to.\<close>

lemma change_whole:
  assumes wf: "vmas_wf (pre @ v # vs)" and al: "is_alloc_aligned fin"
    and cov: "\<forall>a. vbegin v \<le> a \<and> a < fin \<longrightarrow> view (v # vs) a \<noteq> None"
    and st: "change_start start prot (pre @ v # vs) = vbegin v"
  shows "vmas_wf (pre @ change_list fin prot (v # vs))"
    "changed_view start fin prot (pre @ v # vs) (pre @ change_list fin prot (v # vs)) a"
proof -
  show "vmas_wf (pre @ change_list fin prot (v # vs))" using change_list_append_wf [OF wf al] .
  have wfv: "vmas_wf (v # vs)" using wf by (simp add: vmas_wf_append)
  note cl = change_list_view [OF wfv, of fin prot a]
  show "changed_view start fin prot (pre @ v # vs) (pre @ change_list fin prot (v # vs)) a"
  proof (cases "vbegin v \<le> a")
    case True
    have "view pre a = None"
      using wf True by (intro view_None_above) (fastforce simp: wf_simps)
    with cl cov st True show ?thesis
      by (simp add: changed_view_def view_append del: change_list.simps)
  next
    case False
    have "\<forall>w \<in> set (v # vs). a < vbegin w" using wf False by (fastforce simp: wf_simps vma_ok_def)
    then have "view (v # vs) a = None" by (rule view_None_below)
    moreover from this cl have "view (change_list fin prot (v # vs)) a = None" by simp
    ultimately show ?thesis using st False
      by (simp add: changed_view_def view_append del: change_list.simps cong: option.case_cong)
  qed
qed

lemma change_check_nonpos: "change_check_loop env fin prot is_internal c vs \<le> 0"
proof -
  have "change_check env prot is_internal v \<le> 0" for v
    by (simp add: change_check_def split: option.splits)
  then show ?thesis
    by (induction env fin prot is_internal c vs rule: change_check_loop.induct)
      (simp_all split: list.splits)
qed

lemma hdl_refs_insert_copy [simp]:
  "hdl_refs (insert_copy (Some n) s) h = hdl_refs s h + of_bool (vfile n = Some h)"
  by (simp add: insert_copy_def)

text \<open>The decision \<^verbatim>\<open>_vma_bkeep_change\<close> takes for its first area.\<close>

lemma vma_bkeep_change_cases:
  fixes prot :: u32 and env :: vma_env and fin :: u64 and is_internal :: bool
  assumes from_v: "vmas_from start (vma_tree s) = v # vs"
    and com: "length (vcomment v) < VMA_COMMENT_LEN"
  defines "pre \<equiv> vmas_before start (vma_tree s)"
    and "old \<equiv> v\<lparr>vend := start\<rparr>"
    and "new1 \<equiv> vma_update_prot (trim_front start v) prot"
    and "ret \<equiv> change_check_loop env fin prot is_internal True (v # vs)"
  shows "vma_bkeep_change env start fin prot is_internal s =
    (if start < vbegin v then Some (- ENOMEM, s)
     else if ret \<noteq> 0 then Some (ret, s)
     else if vbegin v < start \<and> \<not> has_flag prot PROT_GROWSDOWN
     then (let s1 = insert_copy (Some new1) (s\<lparr>vma_tree := pre @ old # vs\<rparr>)
           in if fin < vend v
              then Some (0, insert_copy (Some (vma_update_prot (trim_front fin new1) (vprot v)))
                     (s1\<lparr>vma_tree := pre @ old # new1\<lparr>vend := fin\<rparr> # vs\<rparr>))
              else if vs = [] then None
              else (case change_loop fin prot vs of
                      (ws, new) \<Rightarrow> Some (0, insert_copy new (s1\<lparr>vma_tree := pre @ old # new1 # ws\<rparr>))))
     else (case change_loop fin prot (v # vs) of
             (ws, new) \<Rightarrow> Some (0, insert_copy new (s\<lparr>vma_tree := pre @ ws\<rparr>))))"
proof -
  have "split_vma v start = (old, trim_front start v)"
    using com by (simp add: split_vma_parts old_def)
  moreover have "split_vma new1 fin = (new1\<lparr>vend := fin\<rparr>, trim_front fin new1)"
    using com by (simp add: split_vma_parts new1_def)
  ultimately show ?thesis
    using from_v unfolding vma_bkeep_change_def Let_def pre_def ret_def
    by (simp add: new1_def old_def del: change_loop.simps change_check_loop.simps)
qed

definition change_post ::
  "u64 \<Rightarrow> u64 \<Rightarrow> u32 \<Rightarrow> vma_state \<Rightarrow> int \<times> vma_state \<Rightarrow> bool" where
  "change_post start fin prot s = (\<lambda>(ret, s').
     vmas_wf (vma_tree s') \<and> (\<forall>h. ref_slack s' h = ref_slack s h) \<and>
     (ret = 0 \<and> (\<forall>a. changed_view start fin prot (vma_tree s) (vma_tree s') a) \<or>
      ret < 0 \<and> s' = s))"

lemma vma_bkeep_change_effect:
  assumes wf: "vmas_wf (vma_tree s)" and al: "is_alloc_aligned start" "is_alloc_aligned fin"
    and lt: "start < fin" and res: "vma_bkeep_change env start fin prot is_internal s = Some (ret, s')"
  shows "change_post start fin prot s (ret, s')"
proof (cases "vmas_from start (vma_tree s)")
  case Nil
  then show ?thesis using res wf by (auto simp: vma_bkeep_change_def change_post_def)
next
  case (Cons v vs)
  define pre where "pre = vmas_before start (vma_tree s)"
  let ?old = "v\<lparr>vend := start\<rparr>"
  let ?new1 = "vma_update_prot (trim_front start v) prot"
  note sp = split_at_addr [OF wf, of start]
  have tree: "vma_tree s = pre @ v # vs" using sp(1) Cons by (simp add: pre_def)
  have wf': "vmas_wf (pre @ v # vs)" using wf tree by simp
  have sv: "start < vend v" using sp(3) Cons by simp
  have com: "length (vcomment v) < VMA_COMMENT_LEN" using wf' by (simp add: wf_simps vma_ok_def)
  have slack: "ref_slack s h = hdl_refs s h - (file_count pre h + of_bool (vfile v = Some h) + file_count vs h)"
    for h unfolding ref_slack_def by (subst tree) simp
  note unf = vma_bkeep_change_cases [OF Cons com, of env fin prot is_internal, folded pre_def]
  let ?r = "change_check_loop env fin prot is_internal True (v # vs)"
  show ?thesis
  proof (cases "start < vbegin v \<or> ?r \<noteq> 0")
    case True
    then have "ret < 0 \<and> s' = s"
      using unf res change_check_nonpos [of env fin prot is_internal True "v # vs"]
      by (auto simp del: change_check_loop.simps split: if_splits)
    then show ?thesis using wf by (simp add: change_post_def)
  next
    case ok: False
    have wfv: "vmas_wf (v # vs)" using wf' by (simp add: vmas_wf_append)
    have cov: "\<forall>a. vbegin v \<le> a \<and> a < fin \<longrightarrow> view (v # vs) a \<noteq> None"
      using change_check_loop_covers [OF _ wfv, of env fin prot is_internal True] ok
      by (simp del: change_check_loop.simps)
    show ?thesis
    proof (cases "vbegin v < start \<and> \<not> has_flag prot PROT_GROWSDOWN")
      case cut: True
      then have cut1: "vbegin v < start" and ng: "\<not> has_flag prot PROT_GROWSDOWN" by auto
      show ?thesis
      proof (cases "fin < vend v")
        case True
        note ch = change_inside [OF wf' al cut1 lt True, of prot]
        let ?new2 = "vma_update_prot (trim_front fin ?new1) (vprot v)"
        have ins: "vma_insert ?new2 (pre @ ?old # ?new1\<lparr>vend := fin\<rparr> # vs) =
            pre @ ?old # ?new1\<lparr>vend := fin\<rparr> # ?new2 # vs"
          using vma_insert_between [of "pre @ [?old, ?new1\<lparr>vend := fin\<rparr>]" ?new2 vs] ch(1) by simp
        have s': "ret = 0" "s' = insert_copy (Some ?new2)
            ((insert_copy (Some ?new1) (s\<lparr>vma_tree := pre @ ?old # vs\<rparr>))
             \<lparr>vma_tree := pre @ ?old # ?new1\<lparr>vend := fin\<rparr> # vs\<rparr>)"
          using res unf ok cut True by (simp_all add: Let_def del: change_check_loop.simps)
        have "ref_slack s' h = ref_slack s h" for h
          unfolding s'(2) slack by (simp add: ref_slack_def)
        moreover have "vma_tree s' = pre @ ?old # ?new1\<lparr>vend := fin\<rparr> # ?new2 # vs"
          unfolding s'(2) by (simp add: ins)
        ultimately show ?thesis using ch(1) ch(2) [OF ng] s'(1) tree
          by (auto simp: change_post_def)
      next
        case False
        note ch = change_from_inside [OF wf' al cut1 sv False cov, of prot]
        obtain ws new where cl: "change_loop fin prot vs = (ws, new)" by fastforce
        have s': "ret = 0" "s' = insert_copy new
            ((insert_copy (Some ?new1) (s\<lparr>vma_tree := pre @ ?old # vs\<rparr>))
             \<lparr>vma_tree := pre @ ?old # ?new1 # ws\<rparr>)"
          using res unf ok cut False cl
          by (simp_all add: Let_def del: change_check_loop.simps split: if_splits)
        have "vmas_wf ((pre @ [?old, ?new1]) @ vs)"
          using cut_first_wf [OF wf' al(1) cut1 sv, of prot] by simp
        from change_loop_insert [OF this al(2) cl]
        have "vma_tree s' = pre @ ?old # ?new1 # change_list fin prot vs"
          unfolding s'(2) by (cases new) simp_all
        moreover have "ref_slack s' h = ref_slack s h" for h
          unfolding s'(2) slack insert_copy_simps(2)
          using file_count_map_eq [OF change_loop_files [OF cl], of h] by (simp add: ref_slack_def)
        ultimately show ?thesis using ch(1) ch(2) [OF ng] s'(1) tree
          by (auto simp: change_post_def)
      qed
    next
      case whole: False
      have "change_start start prot (pre @ v # vs) = vbegin v"
        using whole ok Cons unfolding change_start_def tree [symmetric] by auto
      note ch = change_whole [OF wf' al(2) cov this]
      obtain ws new where cl: "change_loop fin prot (v # vs) = (ws, new)" by fastforce
      have s': "ret = 0" "s' = insert_copy new (s\<lparr>vma_tree := pre @ ws\<rparr>)"
        using res unf ok whole cl
        by (simp_all add: Let_def del: change_check_loop.simps change_loop.simps split: if_splits)
      from change_loop_insert [OF wf' al(2) cl]
      have "vma_tree s' = pre @ change_list fin prot (v # vs)"
        unfolding s'(2) by (cases new) (simp_all del: change_list.simps)
      moreover have "ref_slack s' h = ref_slack s h" for h
        unfolding s'(2) slack insert_copy_simps(2)
        using file_count_map_eq [OF change_loop_files [OF cl], of h] by (simp add: ref_slack_def)
      ultimately show ?thesis using ch s'(1) tree
        by (auto simp: change_post_def simp del: change_list.simps)
    qed
  qed
qed

text \<open>When the code follows a null pointer.\<close>

lemma change_check_loop_single:
  "change_check_loop env fin prot is_internal True [v] = 0 \<longleftrightarrow>
   change_check env prot is_internal v = 0 \<and> fin \<le> vend v"
  by simp

lemma vma_bkeep_change_crash:
  assumes wf: "vmas_wf (vma_tree s)" and lt: "start < fin"
  shows "vma_bkeep_change env start fin prot is_internal s = None \<longleftrightarrow>
    (\<exists>pre v. vma_tree s = pre @ [v] \<and> vbegin v < start \<and> fin = vend v \<and>
       \<not> has_flag prot PROT_GROWSDOWN \<and> change_check env prot is_internal v = 0)"
    (is "?crash \<longleftrightarrow> (\<exists>pre v. ?last pre v)")
proof
  assume ?crash
  then obtain v vs where Cons: "vmas_from start (vma_tree s) = v # vs"
    by (cases "vmas_from start (vma_tree s)") (auto simp: vma_bkeep_change_def)
  note sp = split_at_addr [OF wf, of start]
  define pre where "pre = vmas_before start (vma_tree s)"
  have tree: "vma_tree s = pre @ v # vs" using sp(1) Cons by (simp add: pre_def)
  have com: "length (vcomment v) < VMA_COMMENT_LEN" using wf tree by (simp add: wf_simps vma_ok_def)
  from \<open>?crash\<close> vma_bkeep_change_cases [OF Cons com, of env fin prot is_internal]
  have c: "change_check_loop env fin prot is_internal True (v # vs) = 0" "vbegin v < start"
    "\<not> has_flag prot PROT_GROWSDOWN" "\<not> fin < vend v" "vs = []"
    by (auto simp: Let_def simp del: change_check_loop.simps split: if_splits prod.splits)
  then have "change_check env prot is_internal v = 0" "fin \<le> vend v"
    using change_check_loop_single by auto
  with c tree have "?last pre v" by auto
  then show "\<exists>pre v. ?last pre v" by blast
next
  assume "\<exists>pre v. ?last pre v"
  then obtain pre v where l: "?last pre v" by blast
  have wf': "vmas_wf (pre @ [v])" using wf l by simp
  have sv: "start < vend v" using l lt by simp
  have "\<not> cmp_addr_to_vma start x" if "x \<in> set pre" for x
  proof -
    have "vend x \<le> vbegin v" using wf' that by (simp add: wf_simps)
    with l show ?thesis by (auto simp: cmp_addr_to_vma_def)
  qed
  then have Cons: "vmas_from start (vma_tree s) = [v]"
    using l sv by (simp add: vmas_from_def cmp_addr_to_vma_def dropWhile_append)
  have com: "length (vcomment v) < VMA_COMMENT_LEN" using wf' by (simp add: wf_simps vma_ok_def)
  have "\<not> start < vbegin v" using l by auto
  with vma_bkeep_change_cases [OF Cons com, of env fin prot is_internal] l show ?crash
    by (simp add: Let_def)
qed

lemma bkeep_mprotect_effect:
  assumes wf: "vmas_wf (vma_tree s)" and nowrap: "addr < addr + len"
    and res: "bkeep_mprotect env addr len prot is_internal s = Some (ret, s')"
  shows "vmas_wf (vma_tree s') \<and> ref_slack s' h = ref_slack s h \<and>
    (\<exists>s0. vmas_wf (vma_tree s0) \<and> (\<forall>a. kept_at (vma_tree s) (vma_tree s0) a) \<and>
       (ret = 0 \<and> (\<forall>a. changed_view addr (addr + len) prot (vma_tree s0) (vma_tree s') a) \<or>
        ret < 0 \<and> s' = s0))"
proof (cases "len = 0 \<or> \<not> is_alloc_aligned len \<or> \<not> is_alloc_aligned addr")
  case True
  then have "ret < 0 \<and> s' = s" using res by (auto simp: bkeep_mprotect_def)
  then show ?thesis using wf by (auto intro!: exI [of _ s])
next
  case good: False
  then have al: "is_alloc_aligned addr" "is_alloc_aligned (addr + len)" by auto
  obtain b1 s1 where a1: "alloc_vma env s = (b1, s1)" by fastforce
  note s1 = alloc_vma_ok [OF wf a1]
  show ?thesis
  proof (cases b1)
    case False
    then have "ret < 0 \<and> s' = s1" using res a1 good by (simp add: bkeep_mprotect_def)
    then show ?thesis using s1 by (auto intro!: exI [of _ s1])
  next
    case True
    obtain b2 s2 where a2: "alloc_vma env s1 = (b2, s2)" by fastforce
    note s2 = alloc_vma_ok [OF s1(1) a2]
    have k2: "\<forall>a. kept_at (vma_tree s) (vma_tree s2) a" using kept_at_trans [OF s1(2) s2(2)] by blast
    show ?thesis
    proof (cases b2)
      case False
      then have "ret < 0 \<and> s' = s2" using res a1 a2 True good by (simp add: bkeep_mprotect_def)
      then show ?thesis using s2 s1 k2 by (auto intro!: exI [of _ s2])
    next
      case b2: True
      then have "vma_bkeep_change env addr (addr + len) prot is_internal s2 = Some (ret, s')"
        using res a1 a2 True good by (simp add: bkeep_mprotect_def)
      from vma_bkeep_change_effect [OF s2(1) al nowrap this] show ?thesis
        using s1(3) s2 k2 by (auto simp: change_post_def intro!: exI [of _ s2])
    qed
  qed
qed

end
