(* ===== verification/Vma_Query.thy ===== *)
theory Vma_Query
  imports Vma_Inv
begin

text \<open>
  The operations of \<^verbatim>\<open>libos_vma.c\<close> that read the areas: the lookup of an address, the walk over a
  range with a visitor (used by the access check \<^verbatim>\<open>is_in_adjacent_user_vmas\<close> and by
  \<^verbatim>\<open>madvise_dontneed_range\<close>), the dump of areas into an array and \<^verbatim>\<open>msync\<close>, which writes back the
  shared file mappings of a range.
\<close>

section \<open>Lookup of an address\<close>

record libos_vma_info =
  iaddr :: u64
  ilength :: u64
  iprot :: u32
  iflags :: u32
  ifile :: "nat option"
  ifile_offset :: u64
  icomment :: string

definition dump_vma :: "libos_vma \<Rightarrow> libos_vma_info" where
  "dump_vma v =
     \<lparr>iaddr = vbegin v, ilength = vend v - vbegin v, iprot = vprot v, iflags = vflags v,
      ifile = vfile v, ifile_offset = voffset v, icomment = vcomment v\<rparr>"

text \<open>The description of the area that contains the address; it takes a reference to the file.\<close>

definition lookup_vma :: "u64 \<Rightarrow> vma_state \<Rightarrow> int \<times> libos_vma_info option \<times> vma_state" where
  "lookup_vma addr s =
     (case vmas_from addr (vma_tree s) of
        [] \<Rightarrow> (- ENOENT, None, s)
      | v # vs \<Rightarrow>
          (if \<not> is_addr_in_vma addr v then (- ENOENT, None, s)
           else (0, Some (dump_vma v), get_file (vfile v) s)))"

section \<open>Walking a range\<close>

text \<open>
  The visitor returns whether to go on, and its context. The result says whether the part of the
  range that was walked is covered without a hole.
\<close>

fun traverse_loop ::
  "u64 \<Rightarrow> (libos_vma \<Rightarrow> 'c \<Rightarrow> bool \<times> 'c) \<Rightarrow> bool \<Rightarrow> 'c \<Rightarrow> libos_vma \<Rightarrow> libos_vma list \<Rightarrow> bool \<times> 'c" where
  "traverse_loop fin visitor is_continuous ctx v [] =
     (case visitor v ctx of
        (False, ctx) \<Rightarrow> (is_continuous, ctx)
      | (True, ctx) \<Rightarrow> (is_continuous \<and> fin \<le> vend v, ctx))"
| "traverse_loop fin visitor is_continuous ctx v (w # ws) =
     (case visitor v ctx of
        (False, ctx) \<Rightarrow> (is_continuous, ctx)
      | (True, ctx) \<Rightarrow>
          (if fin \<le> vbegin w then (is_continuous \<and> fin \<le> vend v, ctx)
           else traverse_loop fin visitor (is_continuous \<and> vend v = vbegin w) ctx w ws))"

definition traverse_vmas_in_range ::
  "u64 \<Rightarrow> u64 \<Rightarrow> (libos_vma \<Rightarrow> 'c \<Rightarrow> bool \<times> 'c) \<Rightarrow> 'c \<Rightarrow> libos_vma list \<Rightarrow> bool \<times> 'c" where
  "traverse_vmas_in_range start fin visitor ctx l =
     (if start = fin then (True, ctx)
      else (case vmas_from start l of
              [] \<Rightarrow> (False, ctx)
            | v # vs \<Rightarrow>
                (if fin \<le> vbegin v then (False, ctx)
                 else traverse_loop fin visitor (vbegin v \<le> start) ctx v vs)))"

definition adj_visitor :: "u32 \<Rightarrow> libos_vma \<Rightarrow> bool \<Rightarrow> bool \<times> bool" where
  "adj_visitor prot v ctx_ok =
     (let is_ok = \<not> has_flag (vflags v) (VMA_INTERNAL OR VMA_UNMAPPED) \<and> vprot v AND prot = prot
      in (is_ok, ctx_ok \<and> is_ok))"

definition is_in_adjacent_user_vmas :: "u64 \<Rightarrow> u64 \<Rightarrow> u32 \<Rightarrow> libos_vma list \<Rightarrow> bool" where
  "is_in_adjacent_user_vmas addr len prot l =
     (case traverse_vmas_in_range addr (addr + len) (adj_visitor prot) True l of
        (is_continuous, is_ok) \<Rightarrow> is_continuous \<and> is_ok)"

abbreviation ENOSYS :: int where "ENOSYS \<equiv> 38"

text \<open>
  The context of \<^verbatim>\<open>madvise_dontneed_visitor\<close>: the error and the address ranges set to zero so far.
\<close>

definition madvise_dontneed_visitor ::
  "u64 \<Rightarrow> u64 \<Rightarrow> libos_vma \<Rightarrow> int \<times> (u64 \<times> u64) list \<Rightarrow> bool \<times> int \<times> (u64 \<times> u64) list" where
  "madvise_dontneed_visitor start fin v = (\<lambda>(error, zeroed).
     if has_flag (vflags v) (VMA_UNMAPPED OR VMA_INTERNAL) then (False, - EINVAL, zeroed)
     else if vfile v \<noteq> None
     then (if has_flag (vflags v) VMA_TAINTED then (False, - ENOSYS, zeroed) else (True, error, zeroed))
     else if \<not> has_flag (vprot v) PROT_WRITE then (False, - ENOSYS, zeroed)
     else (True, error, zeroed @ [(max start (vbegin v), min fin (vend v))]))"

definition madvise_dontneed_range ::
  "u64 \<Rightarrow> u64 \<Rightarrow> libos_vma list \<Rightarrow> int \<times> (u64 \<times> u64) list" where
  "madvise_dontneed_range start fin l =
     (case traverse_vmas_in_range start fin (madvise_dontneed_visitor start fin) (0, []) l of
        (is_continuous, error, zeroed) \<Rightarrow> (if \<not> is_continuous then - ENOMEM else error, zeroed))"

section \<open>Dumping areas\<close>

text \<open>
  One pass over the range: the number of areas that pass the filter, and the first of them up to the
  size of the array; each dumped area takes a reference to its file.
\<close>

fun dump_pass ::
  "nat \<Rightarrow> u64 \<Rightarrow> (libos_vma \<Rightarrow> bool) \<Rightarrow> nat \<Rightarrow> libos_vma list \<Rightarrow> vma_state \<Rightarrow>
   nat \<times> libos_vma_info list \<times> vma_state" where
  "dump_pass max_count fin vma_filter sz [] s = (sz, [], s)"
| "dump_pass max_count fin vma_filter sz (v # vs) s =
     (if \<not> vbegin v < fin then (sz, [], s)
      else if \<not> vma_filter v then dump_pass max_count fin vma_filter sz vs s
      else if sz < max_count
      then (let (n, infos, s) = dump_pass max_count fin vma_filter (Suc sz) vs (get_file (vfile v) s)
            in (n, dump_vma v # infos, s))
      else dump_pass max_count fin vma_filter (Suc sz) vs s)"

definition dump_vmas_with_buf ::
  "nat \<Rightarrow> u64 \<Rightarrow> u64 \<Rightarrow> (libos_vma \<Rightarrow> bool) \<Rightarrow> vma_state \<Rightarrow> nat \<times> libos_vma_info list \<times> vma_state" where
  "dump_vmas_with_buf max_count start fin vma_filter s =
     dump_pass max_count fin vma_filter 0 (vmas_from start (vma_tree s)) s"

definition free_vma_info_array :: "libos_vma_info list \<Rightarrow> vma_state \<Rightarrow> vma_state" where
  "free_vma_info_array infos s = fold (\<lambda>i. put_file (ifile i)) infos s"

definition vmas_in_range :: "u64 \<Rightarrow> u64 \<Rightarrow> libos_vma list \<Rightarrow> libos_vma list" where
  "vmas_in_range start fin l = takeWhile (\<lambda>v. vbegin v < fin) (vmas_from start l)"

lemma dump_pass_spec:
  assumes "dump_pass m fin flt sz vs s = (n, infos, s')"
  defines "ws \<equiv> filter flt (takeWhile (\<lambda>v. vbegin v < fin) vs)"
  shows "n = sz + length ws \<and> infos = map dump_vma (take (m - sz) ws) \<and>
    vma_tree s' = vma_tree s \<and> vma_allocs s' = vma_allocs s \<and>
    (\<forall>h. hdl_refs s' h = hdl_refs s h + file_count (take (m - sz) ws) h)"
  using assms(1) unfolding ws_def
proof (induction m fin flt sz vs s arbitrary: n infos s' rule: dump_pass.induct)
  case (2 m fin flt sz v vs s)
  consider "\<not> vbegin v < fin" | "vbegin v < fin" "\<not> flt v" | "vbegin v < fin" "flt v" "sz < m"
    | "vbegin v < fin" "flt v" "\<not> sz < m" by blast
  then show ?case
  proof cases
    case 1
    then show ?thesis using 2(4) by simp
  next
    case skip: 2
    then have "dump_pass m fin flt sz vs s = (n, infos, s')" using 2(4) by simp
    from 2(1) [OF _ skip(2) this] skip show ?thesis by simp
  next
    case 3
    obtain infos1 where r: "dump_pass m fin flt (Suc sz) vs (get_file (vfile v) s) = (n, infos1, s')"
      "infos = dump_vma v # infos1" using 2(4) 3 by (auto split: prod.splits)
    have "m - sz = Suc (m - Suc sz)" using 3 by (simp add: Suc_diff_Suc)
    with 2(2) [OF _ _ 3(3) r(1)] 3 r(2) show ?thesis by simp
  next
    case 4
    then have "dump_pass m fin flt (Suc sz) vs s = (n, infos, s')" using 2(4) by simp
    from 2(3) [OF _ _ 4(3) this] 4 show ?thesis by simp
  qed
qed simp

abbreviation DEFAULT_VMA_COUNT :: nat where "DEFAULT_VMA_COUNT \<equiv> 64"

text \<open>
  The array is allocated anew with the size found until everything fits. The code gives up
  \<^verbatim>\<open>vma_tree_lock\<close> between the passes; the model is a dump during which no other thread changes the areas.
\<close>

function dump_vmas_loop ::
  "nat \<Rightarrow> u64 \<Rightarrow> u64 \<Rightarrow> (libos_vma \<Rightarrow> bool) \<Rightarrow> allocs \<Rightarrow> vma_state \<Rightarrow>
   int \<times> libos_vma_info list \<times> allocs \<times> vma_state" where
  "dump_vmas_loop count start fin vma_filter al s =
     (case malloc_outcome al of
        (False, al) \<Rightarrow> (- ENOMEM, [], al, s)
      | (True, al) \<Rightarrow>
          (case dump_vmas_with_buf count start fin vma_filter s of
             (needed_count, infos, s) \<Rightarrow>
               (if needed_count \<le> count then (0, infos, al, s)
                else dump_vmas_loop needed_count start fin vma_filter al (free_vma_info_array infos s))))"
  by pat_completeness auto

lemma free_vma_info_array_tree [simp]:
  "vma_tree (free_vma_info_array infos s) = vma_tree s"
  by (induction infos arbitrary: s) (simp_all add: free_vma_info_array_def)

lemma dump_with_buf_count:
  "dump_vmas_with_buf m start fin flt s = (n, infos, s') \<Longrightarrow>
   n = length (filter flt (vmas_in_range start fin (vma_tree s))) \<and> vma_tree s' = vma_tree s"
  unfolding dump_vmas_with_buf_def vmas_in_range_def using dump_pass_spec by fastforce

termination dump_vmas_loop
proof (relation "measure (\<lambda>(count, start, fin, flt, al, s).
    if length (filter flt (vmas_in_range start fin (vma_tree s))) \<le> count then 0 else 1)", goal_cases)
  case (2 count start fin flt al s ok al' n rest infos s')
  then have "dump_vmas_with_buf count start fin flt s = (n, infos, s')" by simp
  from dump_with_buf_count [OF this] 2(5) show ?case by simp
qed simp

definition dump_vmas ::
  "u64 \<Rightarrow> u64 \<Rightarrow> (libos_vma \<Rightarrow> bool) \<Rightarrow> allocs \<Rightarrow> vma_state \<Rightarrow>
   int \<times> libos_vma_info list \<times> allocs \<times> vma_state" where
  "dump_vmas start fin vma_filter al s = dump_vmas_loop DEFAULT_VMA_COUNT start fin vma_filter al s"

definition vma_filter_all :: "libos_vma \<Rightarrow> bool" where
  "vma_filter_all v \<longleftrightarrow> \<not> has_flag (vflags v) VMA_INTERNAL"

definition vma_filter_exclude_unmapped :: "libos_vma \<Rightarrow> bool" where
  "vma_filter_exclude_unmapped v \<longleftrightarrow> \<not> has_flag (vflags v) (VMA_INTERNAL OR VMA_UNMAPPED)"

definition dump_all_vmas ::
  "bool \<Rightarrow> allocs \<Rightarrow> vma_state \<Rightarrow> int \<times> libos_vma_info list \<times> allocs \<times> vma_state" where
  "dump_all_vmas include_unmapped al s =
     dump_vmas 0 (- 1)
       (if include_unmapped then vma_filter_all else vma_filter_exclude_unmapped) al s"

section \<open>Writing back shared mappings\<close>

text \<open>What \<^verbatim>\<open>msync\<close> reads of a handle: whether its file system has the operation, and its access mode.\<close>

record msync_env =
  fs_has_msync :: "nat \<Rightarrow> bool"
  may_write :: "nat \<Rightarrow> bool"

record msync_call =
  mfile :: nat
  maddr :: u64
  msize :: u64
  mprot :: u32
  mflags :: u32
  moffset :: u64

text \<open>An area without a file that is neither anonymous nor private is excluded by an assertion.\<close>

definition vma_filter_needs_msync :: "msync_env \<Rightarrow> nat option \<Rightarrow> libos_vma \<Rightarrow> bool" where
  "vma_filter_needs_msync env hdl v \<longleftrightarrow>
     \<not> has_flag (vflags v) (VMA_UNMAPPED OR VMA_INTERNAL OR MAP_ANONYMOUS OR MAP_PRIVATE) \<and>
     (case vfile v of
        None \<Rightarrow> False
      | Some h \<Rightarrow> (hdl = None \<or> hdl = Some h) \<and> fs_has_msync env h \<and> may_write env h)"

definition msync_call_of :: "u64 \<Rightarrow> u64 \<Rightarrow> libos_vma_info \<Rightarrow> msync_call" where
  "msync_call_of start fin i =
     (let msync_begin = max start (iaddr i);
          msync_end = min fin (iaddr i + ilength i)
      in \<lparr>mfile = (case ifile i of None \<Rightarrow> 0 | Some h \<Rightarrow> h), maddr = msync_begin,
          msize = msync_end - msync_begin, mprot = iprot i, mflags = iflags i,
          moffset = ifile_offset i\<rparr>)"

text \<open>The calls in order, up to the first that fails; \<open>msync\<close> is the operation of the file system.\<close>

fun msync_loop :: "(msync_call \<Rightarrow> int) \<Rightarrow> msync_call list \<Rightarrow> int \<times> msync_call list" where
  "msync_loop msync [] = (0, [])"
| "msync_loop msync (c # cs) =
     (let ret = msync c
      in if ret < 0 then (ret, [c])
         else (let (ret, made) = msync_loop msync cs in (ret, c # made)))"

definition msync_all ::
  "msync_env \<Rightarrow> (msync_call \<Rightarrow> int) \<Rightarrow> u64 \<Rightarrow> u64 \<Rightarrow> nat option \<Rightarrow> allocs \<Rightarrow> vma_state \<Rightarrow>
   int \<times> msync_call list \<times> allocs \<times> vma_state" where
  "msync_all env msync start fin hdl al s =
     (case dump_vmas start fin (vma_filter_needs_msync env hdl) al s of
        (ret, infos, al, s) \<Rightarrow>
          (if ret < 0 then (ret, [], al, s)
           else (let (ret, made) = msync_loop msync (map (msync_call_of start fin) infos)
                 in (ret, made, al, free_vma_info_array infos s))))"

definition msync_range ::
  "msync_env \<Rightarrow> (msync_call \<Rightarrow> int) \<Rightarrow> u64 \<Rightarrow> u64 \<Rightarrow> allocs \<Rightarrow> vma_state \<Rightarrow>
   int \<times> msync_call list \<times> allocs \<times> vma_state" where
  "msync_range env msync start fin al s = msync_all env msync start fin None al s"

definition msync_handle ::
  "msync_env \<Rightarrow> (msync_call \<Rightarrow> int) \<Rightarrow> nat \<Rightarrow> allocs \<Rightarrow> vma_state \<Rightarrow>
   int \<times> msync_call list \<times> allocs \<times> vma_state" where
  "msync_handle env msync hdl al s = msync_all env msync 0 (- 1) (Some hdl) al s"

section \<open>Lemmas\<close>

lemma lookup_vma_view:
  assumes wf: "vmas_wf (vma_tree s)"
  shows "case lookup_vma addr s of
      (ret, None, s') \<Rightarrow> ret = - ENOENT \<and> s' = s \<and> view (vma_tree s) addr = None
    | (ret, Some i, s') \<Rightarrow> ret = 0 \<and> iaddr i \<le> addr \<and> addr - iaddr i < ilength i \<and>
        view (vma_tree s) addr = Some (iprot i, iflags i,
          map_option (\<lambda>h. (h, ifile_offset i + (addr - iaddr i))) (ifile i), icomment i) \<and>
        vma_tree s' = vma_tree s \<and>
        (\<forall>h. hdl_refs s' h = hdl_refs s h + of_bool (ifile i = Some h))"
proof -
  note sp = split_at_addr [OF wf, of addr]
  have pre: "view (vmas_before addr (vma_tree s)) addr = None"
    using sp(2) by (intro view_None_above)
  have lview: "view (vma_tree s) addr = view (vmas_from addr (vma_tree s)) addr"
    using view_append sp(1) pre by (metis option.simps(4))
  show ?thesis
  proof (cases "vmas_from addr (vma_tree s)")
    case Nil
    then show ?thesis using lview by (simp add: lookup_vma_def view_simps)
  next
    case (Cons v vs)
    have av: "addr < vend v" using sp(3) Cons by simp
    have wff: "vmas_wf (v # vs)" using wf sp(1) Cons by (metis vmas_wf_append)
    show ?thesis
    proof (cases "vbegin v \<le> addr")
      case True
      have "addr - vbegin v < vend v - vbegin v" using True av by uint_arith
      with True av Cons lview show ?thesis
        by (simp add: lookup_vma_def is_addr_in_vma_def view_simps dump_vma_def page_def)
    next
      case False
      have "\<forall>w \<in> set (v # vs). addr < vbegin w"
        using wff False av by (fastforce simp: wf_simps)
      then have "view (v # vs) addr = None" by (rule view_None_below)
      with False Cons lview show ?thesis
        by (simp add: lookup_vma_def is_addr_in_vma_def)
    qed
  qed
qed

lemma free_vma_info_array_refs:
  "hdl_refs (free_vma_info_array (map dump_vma vs) s) h = hdl_refs s h - file_count vs h"
  by (induction vs arbitrary: s) (simp_all add: free_vma_info_array_def dump_vma_def)

lemma free_vma_info_array_allocs [simp]:
  "vma_allocs (free_vma_info_array infos s) = vma_allocs s"
  by (induction infos arbitrary: s) (simp_all add: free_vma_info_array_def)

text \<open>The result of a dump: all areas of the range that pass the filter, or -ENOMEM.\<close>

lemma dump_vmas_loop_spec:
  assumes "dump_vmas_loop count start fin flt al s = (ret, infos, al', s')"
  defines "ws \<equiv> filter flt (vmas_in_range start fin (vma_tree s))"
  shows "vma_tree s' = vma_tree s \<and>
    (ret = 0 \<and> infos = map dump_vma ws \<and> (\<forall>h. hdl_refs s' h = hdl_refs s h + file_count ws h) \<or>
     ret = - ENOMEM \<and> infos = [] \<and> hdl_refs s' = hdl_refs s \<and> False \<in> set al)"
  using assms(1) unfolding ws_def
proof (induction count start fin flt al s rule: dump_vmas_loop.induct)
  case (1 count start fin flt al s)
  obtain ok al1 where m: "malloc_outcome al = (ok, al1)" by fastforce
  have al: "\<not> ok \<Longrightarrow> False \<in> set al" "set al1 \<subseteq> set al"
    using m by (cases al; auto)+
  obtain n infos1 s1 where d: "dump_vmas_with_buf count start fin flt s = (n, infos1, s1)"
    by (metis prod_cases3)
  let ?ws = "filter flt (vmas_in_range start fin (vma_tree s))"
  have sp: "n = length ?ws" "infos1 = map dump_vma (take count ?ws)" "vma_tree s1 = vma_tree s"
    "\<forall>h. hdl_refs s1 h = hdl_refs s h + file_count (take count ?ws) h"
    using dump_pass_spec [OF d [unfolded dump_vmas_with_buf_def]] by (simp_all add: vmas_in_range_def)
  show ?case
  proof (cases "ok \<and> \<not> n \<le> count")
    case True
    let ?s2 = "free_vma_info_array infos1 s1"
    have rec: "dump_vmas_loop n start fin flt al1 ?s2 = (ret, infos, al', s')"
      using 1(2) m d True by (simp add: dump_vmas_loop.simps [of count])
    have refs: "hdl_refs ?s2 = hdl_refs s" using sp by (auto simp: free_vma_info_array_refs)
    from 1(1) [OF m [symmetric] _ d [symmetric] refl _ rec] True sp(3) refs al(2)
    show ?thesis by auto
  next
    case False
    show ?thesis
    proof (cases ok)
      case True
      then have "n \<le> count" using False by simp
      then have "(ret, infos, al', s') = (0, infos1, al1, s1)"
        using 1(2) m d True by (simp add: dump_vmas_loop.simps [of count])
      then show ?thesis using sp \<open>n \<le> count\<close> by simp
    next
      case no: False
      then have "(ret, infos, al', s') = (- ENOMEM, [], al1, s)"
        using 1(2) m by (simp add: dump_vmas_loop.simps [of count])
      then show ?thesis using al(1) no by simp
    qed
  qed
qed

section \<open>The access check\<close>

definition user_page :: "u32 \<Rightarrow> page_info option \<Rightarrow> bool" where
  "user_page prot p = (case p of
     None \<Rightarrow> False
   | Some (pr, flags, file, c) \<Rightarrow> \<not> has_flag flags (VMA_INTERNAL OR VMA_UNMAPPED) \<and> pr AND prot = prot)"

lemma user_page_None [simp]: "\<not> user_page prot None"
  by (simp add: user_page_def)

lemma adj_visitor_page:
  "adj_visitor prot v c = (user_page prot (Some (page v a)), c \<and> user_page prot (Some (page v a)))"
  by (simp add: adj_visitor_def user_page_def page_def Let_def)

lemma view_hole:
  assumes "vmas_wf (v # vs)" "vend v \<le> a" "vs = [] \<or> a < vbegin (hd vs)"
  shows "view (v # vs) a = None"
proof -
  have "\<forall>w \<in> set vs. a < vbegin w"
  proof (cases vs)
    case (Cons w ws)
    with assms show ?thesis by (fastforce simp: wf_simps vma_ok_def)
  qed simp
  then have "view vs a = None" by (rule view_None_below)
  moreover have "\<not> a < vend v" using assms(2) by order
  ultimately show ?thesis by (simp add: view_simps)
qed

lemma traverse_adjacent:
  assumes "vmas_wf (v # vs)" "vbegin v \<le> b" "b < vend v" "b < fin"
  shows "(case traverse_loop fin (adj_visitor prot) c True v vs of (c', ok) \<Rightarrow> c' \<and> ok) \<longleftrightarrow>
    c \<and> (\<forall>a. b \<le> a \<and> a < fin \<longrightarrow> user_page prot (view (v # vs) a))"
  using assms
proof (induction vs arbitrary: v b c)
  case Nil
  note ad = adj_visitor_page [of prot v True b]
  have vb: "view [v] b = Some (page v b)" using Nil.prems by (simp add: view_simps)
  show ?case
  proof (cases "user_page prot (Some (page v b)) \<and> fin \<le> vend v")
    case True
    have "user_page prot (view [v] a)" if "b \<le> a" "a < fin" for a
    proof -
      have "vbegin v \<le> a" "a < vend v" using that Nil.prems True by (auto intro: order_trans less_le_trans)
      then show ?thesis using True by (simp add: view_simps user_page_def page_def)
    qed
    then show ?thesis using True ad by simp
  next
    case False
    have "\<exists>a. b \<le> a \<and> a < fin \<and> \<not> user_page prot (view [v] a)"
    proof (cases "user_page prot (Some (page v b))")
      case True
      have "view [v] (vend v) = None" by (rule view_hole [OF Nil.prems(1)]) simp_all
      with True False Nil.prems show ?thesis by (intro exI [of _ "vend v"]) auto
    qed (use vb Nil.prems in \<open>auto intro!: exI [of _ b]\<close>)
    moreover have "\<not> (case traverse_loop fin (adj_visitor prot) c True v [] of (c', ok) \<Rightarrow> c' \<and> ok)"
      using False ad by (cases "user_page prot (Some (page v b))") auto
    ultimately show ?thesis by blast
  qed
next
  case (Cons w ws)
  note ad = adj_visitor_page [of prot v True b]
  have wf: "vmas_wf (w # ws)" and vw: "vend v \<le> vbegin w" and w: "vbegin w < vend w"
    using Cons.prems by (simp_all add: wf_simps vma_ok_def)
  have vb: "view (v # w # ws) b = Some (page v b)" using Cons.prems by (simp add: view_simps)
  have tl: "view (v # w # ws) a = view (w # ws) a" if "vend v \<le> a" for a
    using that by (simp add: view_Cons leD)
  have hd: "user_page prot (view (v # w # ws) a) = user_page prot (Some (page v b))"
    if "b \<le> a" "a < vend v" for a
  proof -
    have "vbegin v \<le> a" using that(1) Cons.prems(2) by order
    then show ?thesis using that(2) by (simp add: view_simps user_page_def page_def)
  qed
  consider (bad) "\<not> user_page prot (Some (page v b))"
    | (last) "user_page prot (Some (page v b))" "fin \<le> vbegin w"
    | (more) "user_page prot (Some (page v b))" "\<not> fin \<le> vbegin w" by blast
  then show ?case
  proof cases
    case bad
    then have "\<not> user_page prot (view (v # w # ws) b)" using vb by simp
    then show ?thesis using bad ad Cons.prems(4) by auto
  next
    case last
    have "(\<forall>a. b \<le> a \<and> a < fin \<longrightarrow> user_page prot (view (v # w # ws) a)) \<longleftrightarrow> fin \<le> vend v"
    proof
      assume all: "\<forall>a. b \<le> a \<and> a < fin \<longrightarrow> user_page prot (view (v # w # ws) a)"
      show "fin \<le> vend v"
      proof (rule ccontr)
        assume n: "\<not> fin \<le> vend v"
        then have "view (v # w # ws) (vend v) = None"
          using last(2) by (intro view_hole [OF Cons.prems(1)]) auto
        moreover have "b \<le> vend v" "vend v < fin" using n Cons.prems(3) by auto
        ultimately show False using all by (metis user_page_None)
      qed
    next
      assume f: "fin \<le> vend v"
      have "user_page prot (view (v # w # ws) a)" if "b \<le> a" "a < fin" for a
      proof -
        have "a < vend v" using that(2) f by order
        then show ?thesis using hd [OF that(1)] last(1) by simp
      qed
      then show "\<forall>a. b \<le> a \<and> a < fin \<longrightarrow> user_page prot (view (v # w # ws) a)" by blast
    qed
    with last ad show ?thesis by simp
  next
    case more
    let ?all = "\<forall>a. b \<le> a \<and> a < fin \<longrightarrow> user_page prot (view (v # w # ws) a)"
    let ?rest = "\<forall>a. vbegin w \<le> a \<and> a < fin \<longrightarrow> user_page prot (view (w # ws) a)"
    have "?all \<longleftrightarrow> vend v = vbegin w \<and> ?rest"
    proof
      assume all: ?all
      have "vend v = vbegin w"
      proof (rule ccontr)
        assume "vend v \<noteq> vbegin w"
        then have "vend v < vbegin w" using vw by order
        then have "view (v # w # ws) (vend v) = None"
          by (intro view_hole [OF Cons.prems(1)]) auto
        moreover have "b \<le> vend v" "vend v < fin"
          using Cons.prems(3) more(2) \<open>vend v < vbegin w\<close> by auto
        ultimately show False using all by (metis user_page_None)
      qed
      moreover have "user_page prot (view (w # ws) a)" if "vbegin w \<le> a" "a < fin" for a
      proof -
        have "vend v \<le> a" "b \<le> a" using that(1) vw Cons.prems(3) by order+
        then show ?thesis using all that(2) tl by auto
      qed
      ultimately show "vend v = vbegin w \<and> ?rest" by blast
    next
      assume r: "vend v = vbegin w \<and> ?rest"
      have "user_page prot (view (v # w # ws) a)" if "b \<le> a" "a < fin" for a
        using that r hd [OF that(1)] more(1) tl [of a] by (cases "a < vend v") (auto simp: not_less)
      then show ?all by blast
    qed
    moreover have "(case traverse_loop fin (adj_visitor prot) (c \<and> vend v = vbegin w) True w ws of
        (c', ok) \<Rightarrow> c' \<and> ok) \<longleftrightarrow> (c \<and> vend v = vbegin w) \<and> ?rest"
      using Cons.IH [OF wf order_refl w, of "c \<and> vend v = vbegin w"] more(2) by (simp add: not_le)
    ultimately show ?thesis using more ad by auto
  qed
qed

lemma is_in_adjacent_user_vmas_iff:
  assumes wf: "vmas_wf l" and le: "addr \<le> addr + len"
  shows "is_in_adjacent_user_vmas addr len prot l \<longleftrightarrow>
    (\<forall>a. addr \<le> a \<and> a < addr + len \<longrightarrow> user_page prot (view l a))"
proof (cases "len = 0")
  case True
  then show ?thesis by (auto simp: is_in_adjacent_user_vmas_def traverse_vmas_in_range_def)
next
  case nz: False
  then have ne: "addr < addr + len" using le by (metis add_cancel_right_right order_le_imp_less_or_eq)
  note sp = split_at_addr [OF wf, of addr]
  have lview: "view l a = view (vmas_from addr l) a" if "addr \<le> a" for a
  proof -
    have "view (vmas_before addr l) a = None" using sp(2) that by (intro view_None_above) fastforce
    then show ?thesis using view_append sp(1) by (metis option.simps(4))
  qed
  show ?thesis
  proof (cases "vmas_from addr l")
    case Nil
    then have "view l addr = None" using lview [of addr] by (simp add: view_simps)
    then have "\<not> user_page prot (view l addr)" by simp
    then show ?thesis using Nil ne
      by (auto simp: is_in_adjacent_user_vmas_def traverse_vmas_in_range_def)
  next
    case (Cons v vs)
    have wff: "vmas_wf (v # vs)" using wf sp(1) Cons by (metis vmas_wf_append)
    have av: "addr < vend v" using sp(3) Cons by simp
    show ?thesis
    proof (cases "vbegin v \<le> addr")
      case True
      have "\<not> addr + len \<le> vbegin v" using True ne by order
      then show ?thesis
        using traverse_adjacent [OF wff True av ne, of prot True] True nz Cons lview
        by (simp add: is_in_adjacent_user_vmas_def traverse_vmas_in_range_def)
    next
      case False
      have "\<forall>w \<in> set (v # vs). addr < vbegin w" using wff False av by (fastforce simp: wf_simps)
      then have "view (v # vs) addr = None" by (rule view_None_below)
      then have bad: "\<not> user_page prot (view l addr)" using lview [of addr] Cons by simp
      have "\<not> fst (traverse_loop fin vis False ctx v vs)" for fin vis and ctx :: bool
      proof -
        have "\<not> fst (traverse_loop fin vis False ctx x xs)" for x xs
          by (induction xs arbitrary: x ctx) (auto split: prod.splits bool.splits)
        then show ?thesis .
      qed
      then have "\<not> is_in_adjacent_user_vmas addr len prot l"
        using False ne Cons
        by (auto simp: is_in_adjacent_user_vmas_def traverse_vmas_in_range_def split: prod.splits)
          (metis fst_conv)+
      then show ?thesis using bad ne by auto
    qed
  qed
qed

end
