(* ===== verification/Mmap.thy ===== *)
theory Mmap
  imports Vma_Change Vma_Query
begin

text \<open>
  The memory system calls of \<^verbatim>\<open>gramine/libos/src/sys/libos_mmap.c\<close> and \<^verbatim>\<open>allocate_stack\<close> of
  \<^verbatim>\<open>libos_init.c\<close>: the checks on the arguments, the bookkeeping, the call of the host (PAL) or of the
  file system that does the mapping, and the way back when that call fails.

  The calls out of the LibOS are recorded in the state, with the results they will return; when the
  list of results is used up they succeed. \<^verbatim>\<open>BUG()\<close>, which ends the process, and the null pointer of
  \<open>vma_bkeep_change\<close> are the value \<^const>\<open>None\<close>.
\<close>

section \<open>Flags\<close>

abbreviation EPERM :: int where "EPERM \<equiv> 1"
abbreviation ENODEV :: int where "ENODEV \<equiv> 19"
abbreviation EOPNOTSUPP :: int where "EOPNOTSUPP \<equiv> 95"
abbreviation ENOTRECOVERABLE :: int where "ENOTRECOVERABLE \<equiv> 131"
abbreviation MAP_TYPE :: u32 where "MAP_TYPE \<equiv> 0x0f"
abbreviation MAP_DENYWRITE :: u32 where "MAP_DENYWRITE \<equiv> 0x800"
abbreviation MAP_EXECUTABLE :: u32 where "MAP_EXECUTABLE \<equiv> 0x1000"
abbreviation MAP_LOCKED :: u32 where "MAP_LOCKED \<equiv> 0x2000"
abbreviation MAP_NORESERVE :: u32 where "MAP_NORESERVE \<equiv> 0x4000"
abbreviation MAP_POPULATE :: u32 where "MAP_POPULATE \<equiv> 0x8000"
abbreviation MAP_NONBLOCK :: u32 where "MAP_NONBLOCK \<equiv> 0x10000"
abbreviation MAP_UNINITIALIZED :: u32 where "MAP_UNINITIALIZED \<equiv> 0x4000000"
abbreviation PROT_SEM :: u32 where "PROT_SEM \<equiv> 0x8"
abbreviation PROT_GROWSUP :: u32 where "PROT_GROWSUP \<equiv> 0x02000000"
abbreviation O_WRONLY :: u32 where "O_WRONLY \<equiv> 0x1"

definition LEGACY_MAP_MASK :: u32 where
  "LEGACY_MAP_MASK = MAP_SHARED OR MAP_PRIVATE OR MAP_FIXED OR MAP_ANONYMOUS OR MAP_DENYWRITE
     OR MAP_EXECUTABLE OR MAP_UNINITIALIZED OR MAP_GROWSDOWN OR MAP_LOCKED OR MAP_NORESERVE
     OR MAP_POPULATE OR MAP_NONBLOCK OR MAP_STACK OR MAP_HUGETLB OR MAP_32BIT OR MAP_HUGE_2MB
     OR MAP_HUGE_1GB"

definition linux_prot_to_pal :: "u32 \<Rightarrow> u32 \<Rightarrow> u32" where
  "linux_prot_to_pal prot map_flags =
     (if has_flag prot PROT_READ then 0x1 else 0) OR (if has_flag prot PROT_WRITE then 0x2 else 0) OR
     (if has_flag prot PROT_EXEC then 0x4 else 0) OR
     (if has_flag map_flags MAP_PRIVATE then 0x8 else 0)"

definition access_ok :: "u64 \<Rightarrow> u64 \<Rightarrow> bool" where
  "access_ok addr len \<longleftrightarrow>
     \<not> (addr + len < len \<or> (addr + len) AND NOT (0x1000 - 1) = NOT (0x1000 - 1))"

definition pal_errno_table :: "int list" where
  "pal_errno_table =
     [0, 38, 38, 13, 22, 36, 13, 9, 17, 2, 20, 21, 29, 4, 14, 14, 12, 14, 11, 22, 107, 104, 99, 97, 32]"

definition pal_to_unix_errno_positive :: "int \<Rightarrow> int" where
  "pal_to_unix_errno_positive err = (if err \<le> 24 then pal_errno_table ! nat err else EINVAL)"

definition pal_to_unix_errno :: "int \<Rightarrow> int" where
  "pal_to_unix_errno err =
     (if err \<ge> 0 then pal_to_unix_errno_positive err else - pal_to_unix_errno_positive (- err))"

section \<open>State\<close>

datatype host_call =
    PalVirtualMemoryAlloc u64 u64 u32
  | PalVirtualMemoryProtect u64 u64 u32
  | PalVirtualMemoryFree u64 u64
  | FsMmap nat u64 u64 u32 u32 u64

record mm_env =
  vmas :: vma_env
  syncs :: msync_env
  msync_op :: "msync_call \<Rightarrow> int"
  fd_handle :: "int \<Rightarrow> nat option"
  fs_has_mmap :: "nat \<Rightarrow> bool"
  g_check_invalid_ptrs :: bool

record mm_state =
  bk :: vma_state
  info_allocs :: allocs
  msyncs :: "msync_call list"
  host_calls :: "host_call list"
  host_rets :: "int list"

definition host_call :: "host_call \<Rightarrow> mm_state \<Rightarrow> int \<times> mm_state" where
  "host_call c s =
     (let s = s\<lparr>host_calls := host_calls s @ [c]\<rparr>
      in case host_rets s of [] \<Rightarrow> (0, s) | r # rs \<Rightarrow> (r, s\<lparr>host_rets := rs\<rparr>))"

definition do_msync_range :: "mm_env \<Rightarrow> u64 \<Rightarrow> u64 \<Rightarrow> mm_state \<Rightarrow> int \<times> mm_state" where
  "do_msync_range env start fin s =
     (case msync_range (syncs env) (msync_op env) start fin (info_allocs s) (bk s) of
        (ret, made, al, b) \<Rightarrow> (ret, s\<lparr>bk := b, info_allocs := al, msyncs := msyncs s @ made\<rparr>))"

section \<open>mmap\<close>

text \<open>
  The checks on the flags and the file descriptor: an error, or the handle and the flags. The
  handle carries a reference, which the caller gives back.
\<close>

definition mmap_file_checks ::
  "mm_env \<Rightarrow> u32 \<Rightarrow> u32 \<Rightarrow> int \<Rightarrow> int + nat" where
  "mmap_file_checks env prot flags fd =
     (if fd < 0 then Inl (- EINVAL)
      else (case fd_handle env fd of
              None \<Rightarrow> Inl (- EBADF)
            | Some h \<Rightarrow>
                (if \<not> fs_has_mmap env h then Inl (- ENODEV)
                 else if has_flag (hdl_flags (vmas env) h) O_WRONLY then Inl (- EACCES)
                 else if has_flag flags MAP_SHARED \<and> has_flag prot PROT_WRITE \<and>
                         \<not> has_flag (hdl_flags (vmas env) h) O_RDWR then Inl (- EACCES)
                 else Inr h)))"

definition mmap_flag_checks ::
  "mm_env \<Rightarrow> u32 \<Rightarrow> u32 \<Rightarrow> int \<Rightarrow> int + (nat option \<times> u32)" where
  "mmap_flag_checks env prot flags fd =
     (if has_flag flags MAP_ANONYMOUS
      then (if flags AND MAP_TYPE = MAP_SHARED \<or> flags AND MAP_TYPE = MAP_PRIVATE
            then Inr (None, flags) else Inl (- EINVAL))
      else if flags AND MAP_TYPE = MAP_SHARED \<or> flags AND MAP_TYPE = MAP_SHARED_VALIDATE
      then (let flags = (if flags AND MAP_TYPE = MAP_SHARED then flags AND LEGACY_MAP_MASK else flags)
            in if flags AND NOT LEGACY_MAP_MASK \<noteq> 0 then Inl (- EOPNOTSUPP)
               else map_sum id (\<lambda>h. (Some h, flags)) (mmap_file_checks env prot flags fd))
      else if flags AND MAP_TYPE = MAP_PRIVATE
      then map_sum id (\<lambda>h. (Some h, flags)) (mmap_file_checks env prot flags fd)
      else Inl (- EINVAL))"

text \<open>The choice and the bookkeeping of the address range.\<close>

definition mmap_place ::
  "mm_env \<Rightarrow> u64 \<Rightarrow> u64 \<Rightarrow> u32 \<Rightarrow> u32 \<Rightarrow> nat option \<Rightarrow> u64 \<Rightarrow> mm_state \<Rightarrow> (int + u64) \<times> mm_state" where
  "mmap_place env addr len prot flags hdl offset s =
     (let start = user_address_start (vmas env); fin = user_address_end (vmas env)
      in if has_flag flags (MAP_FIXED OR MAP_FIXED_NOREPLACE)
         then (if addr < start \<or> fin < addr + len then (Inl (- EINVAL), s)
               else (let (ret, s) = (if \<not> has_flag flags MAP_FIXED_NOREPLACE
                                     then do_msync_range env addr (addr + len) s else (0, s))
                     in if ret < 0 then (Inl ret, s)
                        else (case bkeep_mmap_fixed (vmas env) addr len prot flags hdl offset '''' (bk s) of
                                (ret, b) \<Rightarrow> (if ret < 0 then Inl ret else Inr addr, s\<lparr>bk := b\<rparr>))))
         else (let (ret, a, b) =
                     (if addr \<noteq> 0 \<and> start \<le> addr \<and> addr + len \<le> fin
                      then bkeep_mmap_any_in_range (vmas env) start (addr + len) len prot flags hdl
                             offset '''' (bk s)
                      else (- 1, addr, bk s));
                   (ret, a, b) =
                     (if ret < 0
                      then bkeep_mmap_any_aslr (vmas env) len prot flags hdl offset '''' b
                      else (ret, a, b))
               in (if ret < 0 then Inl (- ENOMEM) else Inr a, s\<lparr>bk := b\<rparr>)))"

definition unmap_failed :: "mm_env \<Rightarrow> u64 \<Rightarrow> u64 \<Rightarrow> bool \<Rightarrow> mm_state \<Rightarrow> mm_state option" where
  "unmap_failed env addr len is_internal s =
     (case bkeep_munmap (vmas env) addr len is_internal (bk s) of
        (ret, tmp, b) \<Rightarrow>
          (if ret < 0 then None
           else (case tmp of
                   None \<Rightarrow> None
                 | Some v \<Rightarrow> Some (s\<lparr>bk := bkeep_remove_tmp_vma v b\<rparr>))))"

text \<open>With a fixed address the request for the low 2 GB is dropped.\<close>

definition mmap_saved_flags :: "u32 \<Rightarrow> u32" where
  "mmap_saved_flags flags =
     (if flags AND (MAP_32BIT OR MAP_FIXED) = MAP_32BIT OR MAP_FIXED then flags AND NOT MAP_32BIT else flags)"

text \<open>The call of the host, or of the file system, that maps the memory.\<close>

definition mmap_host :: "nat option \<Rightarrow> u64 \<Rightarrow> u64 \<Rightarrow> u32 \<Rightarrow> u32 \<Rightarrow> u64 \<Rightarrow> mm_state \<Rightarrow> int \<times> mm_state" where
  "mmap_host hdl a len prot flags offset s =
     (case hdl of
        None \<Rightarrow>
          (let (ret, s) = host_call (PalVirtualMemoryAlloc a len (linux_prot_to_pal prot flags)) s
           in (if ret < 0 then (if ret = - 6 then - EPERM else pal_to_unix_errno ret) else ret, s))
      | Some h \<Rightarrow> host_call (FsMmap h a len prot flags offset) s)"

definition put_hdl :: "nat option \<Rightarrow> mm_state \<Rightarrow> mm_state" where
  "put_hdl hdl s = s\<lparr>bk := put_file hdl (bk s)\<rparr>"

definition libos_syscall_mmap ::
  "mm_env \<Rightarrow> u64 \<Rightarrow> u64 \<Rightarrow> u32 \<Rightarrow> u32 \<Rightarrow> int \<Rightarrow> u64 \<Rightarrow> mm_state \<Rightarrow> ((int + u64) \<times> mm_state) option" where
  "libos_syscall_mmap env addr len prot flags fd offset s =
     (let addr = (if \<not> has_flag flags MAP_FIXED \<and> addr \<noteq> 0 then alloc_align_down addr else addr);
          len' = (if \<not> is_alloc_aligned len then alloc_align_up len else len)
      in if addr \<noteq> 0 \<and> \<not> is_alloc_aligned addr then Some (Inl (- EINVAL), s)
         else if fd \<ge> 0 \<and> \<not> is_alloc_aligned offset then Some (Inl (- EINVAL), s)
         else if len' = 0 \<or> \<not> access_ok addr len' then Some (Inl (- EINVAL), s)
         else if has_flag flags (VMA_UNMAPPED OR VMA_TAINTED OR VMA_INTERNAL)
         then Some (Inl (- EINVAL), s)
         else (case mmap_flag_checks env prot flags fd of
                 Inl e \<Rightarrow> Some (Inl e, s)
               | Inr (hdl, flags) \<Rightarrow>
                   (let s = s\<lparr>bk := get_file hdl (bk s)\<rparr>;
                        flags = mmap_saved_flags flags
                    in case mmap_place env addr len' prot flags hdl offset s of
                         (Inl e, s) \<Rightarrow> Some (Inl e, put_hdl hdl s)
                       | (Inr a, s) \<Rightarrow>
                           (let (ret, s) = mmap_host hdl a len' prot flags offset s
                            in if ret < 0
                               then (case unmap_failed env a len' False s of
                                       None \<Rightarrow> None
                                     | Some s \<Rightarrow> Some (Inl ret, put_hdl hdl s))
                               else Some (Inr a, put_hdl hdl s)))))"

section \<open>mprotect, munmap and the rest\<close>

definition libos_syscall_mprotect ::
  "mm_env \<Rightarrow> u64 \<Rightarrow> u64 \<Rightarrow> u32 \<Rightarrow> mm_state \<Rightarrow> (int \<times> mm_state) option" where
  "libos_syscall_mprotect env addr len prot s =
     (let len' = (if \<not> is_alloc_aligned len then alloc_align_up len else len)
      in if prot AND NOT (PROT_READ OR PROT_WRITE OR PROT_EXEC OR PROT_GROWSDOWN OR PROT_GROWSUP
                          OR PROT_SEM) \<noteq> 0 then Some (- EINVAL, s)
         else if prot AND (PROT_GROWSDOWN OR PROT_GROWSUP) = PROT_GROWSDOWN OR PROT_GROWSUP
         then Some (- EINVAL, s)
         else if has_flag prot (PROT_GROWSUP OR PROT_SEM) then Some (- EOPNOTSUPP, s)
         else if addr = 0 \<or> \<not> is_alloc_aligned addr then Some (- EINVAL, s)
         else if len = 0 then Some (0, s)
         else if \<not> access_ok addr len' then Some (- EINVAL, s)
         else (case bkeep_mprotect (vmas env) addr len' prot False (bk s) of
                 None \<Rightarrow> None
               | Some (ret, b) \<Rightarrow>
                   (if ret < 0 then Some (ret, s\<lparr>bk := b\<rparr>)
                    else (let (found, addr, b) =
                                (if has_flag prot PROT_GROWSDOWN
                                 then (case lookup_vma addr b of
                                         (ret, Some i, b) \<Rightarrow> (True, iaddr i, put_file (ifile i) b)
                                       | (ret, None, b) \<Rightarrow> (False, addr, b))
                                 else (True, addr, b));
                              s = s\<lparr>bk := b\<rparr>
                          in if \<not> found then Some (- ENOTRECOVERABLE, s)
                             else (let (ret, s) = host_call (PalVirtualMemoryProtect addr len'
                                                    (linux_prot_to_pal prot 0)) s
                                   in Some (if ret < 0 then pal_to_unix_errno ret else 0, s))))))"

definition libos_syscall_munmap :: "mm_env \<Rightarrow> u64 \<Rightarrow> u64 \<Rightarrow> mm_state \<Rightarrow> (int \<times> mm_state) option" where
  "libos_syscall_munmap env addr len s =
     (if addr = 0 \<or> \<not> is_alloc_aligned addr then Some (- EINVAL, s)
      else if len = 0 \<or> \<not> access_ok addr len then Some (- EINVAL, s)
      else (let len = (if \<not> is_alloc_aligned len then alloc_align_up len else len);
                (ret, s) = do_msync_range env addr (addr + len) s
            in if ret < 0 then Some (ret, s)
               else (case bkeep_munmap (vmas env) addr len False (bk s) of
                       (ret, tmp, b) \<Rightarrow>
                         (if ret < 0 then Some (ret, s\<lparr>bk := b\<rparr>)
                          else (let (ret, s) = host_call (PalVirtualMemoryFree addr len) (s\<lparr>bk := b\<rparr>)
                                in if ret < 0 then None
                                   else (case tmp of
                                           None \<Rightarrow> None
                                         | Some v \<Rightarrow> Some (0, s\<lparr>bk := bkeep_remove_tmp_vma v (bk s)\<rparr>)))))))"

section \<open>Checks of user memory\<close>

definition test_user_memory :: "mm_env \<Rightarrow> u64 \<Rightarrow> u64 \<Rightarrow> bool \<Rightarrow> mm_state \<Rightarrow> bool" where
  "test_user_memory env addr sz writable s \<longleftrightarrow>
     (if \<not> g_check_invalid_ptrs env then True
      else if \<not> access_ok addr sz then False
      else is_in_adjacent_user_vmas addr sz (if writable then PROT_WRITE else PROT_READ)
             (vma_tree (bk s)))"

definition is_user_memory_readable :: "mm_env \<Rightarrow> u64 \<Rightarrow> u64 \<Rightarrow> mm_state \<Rightarrow> bool" where
  "is_user_memory_readable env addr sz s = test_user_memory env addr sz False s"

definition is_user_memory_writable :: "mm_env \<Rightarrow> u64 \<Rightarrow> u64 \<Rightarrow> mm_state \<Rightarrow> bool" where
  "is_user_memory_writable env addr sz s = test_user_memory env addr sz True s"

lemma u64_bound: "unat (x :: u64) < 2 ^ 64"
  by (rule order_less_le_trans [OF unsigned_less]) simp

lemma unat_space_left: "(a :: u64) < b \<Longrightarrow> 18446744073709551616 - unat b < 18446744073709551616 - unat a"
  using u64_bound [of b] by (simp add: word_less_nat_alt)

text \<open>\<open>strnlen\<close> on a memory of bytes, and the loop over the pages a string may span.\<close>

definition strnlen :: "(u64 \<Rightarrow> 8 word) \<Rightarrow> u64 \<Rightarrow> u64 \<Rightarrow> nat" where
  "strnlen mem addr len =
     length (takeWhile (\<lambda>i. mem (addr + of_nat i) \<noteq> 0) [0..<unat len])"

function is_user_string_loop ::
  "(u64 \<Rightarrow> 8 word) \<Rightarrow> libos_vma list \<Rightarrow> u64 \<Rightarrow> u64 \<Rightarrow> u64 \<Rightarrow> bool" where
  "is_user_string_loop mem l addr next_page_addr len =
     (if \<not> access_ok addr len then False
      else if \<not> is_in_adjacent_user_vmas addr len PROT_READ l then False
      else if strnlen mem addr len \<noteq> unat len then True
      else if next_page_addr \<le> addr then False
      else is_user_string_loop mem l next_page_addr (next_page_addr + 0x1000) 0x1000)"
  by pat_completeness auto
termination
  by (relation "measure (\<lambda>(mem, l, addr, next_page_addr, len). 2 ^ 64 - unat addr)")
    (simp_all add: not_le unat_space_left)

declare is_user_string_loop.simps [simp del]

definition is_user_string_readable ::
  "mm_env \<Rightarrow> (u64 \<Rightarrow> 8 word) \<Rightarrow> u64 \<Rightarrow> mm_state \<Rightarrow> bool" where
  "is_user_string_readable env mem addr s =
     (if \<not> g_check_invalid_ptrs env then True
      else let next_page_addr = alloc_align_up (addr + 1)
           in is_user_string_loop mem (vma_tree (bk s)) addr next_page_addr (next_page_addr - addr))"

section \<open>mincore, mbind, madvise and msync\<close>

text \<open>The result of \<open>mincore\<close> comes with the addresses of the bytes it set to zero.\<close>

definition libos_syscall_mincore ::
  "mm_env \<Rightarrow> u64 \<Rightarrow> u64 \<Rightarrow> u64 \<Rightarrow> mm_state \<Rightarrow> int \<times> u64 list" where
  "libos_syscall_mincore env addr len vec s =
     (if \<not> is_alloc_aligned addr then (- EINVAL, [])
      else if \<not> access_ok addr len then (- ENOMEM, [])
      else if \<not> is_in_adjacent_user_vmas addr len 0 (vma_tree (bk s)) then (- ENOMEM, [])
      else (let pages = alloc_align_up len div ALLOC_ALIGNMENT
            in if \<not> is_user_memory_writable env vec pages s then (- EFAULT, [])
               else (0, map (\<lambda>i. vec + of_nat i) [0..<unat pages])))"

definition libos_syscall_mbind :: "mm_state \<Rightarrow> int" where
  "libos_syscall_mbind s = 0"

abbreviation MADV_DONTNEED :: int where "MADV_DONTNEED \<equiv> 4"

text \<open>
  The advice values of Linux: NORMAL 0, RANDOM 1, SEQUENTIAL 2, WILLNEED 3, DONTNEED 4, FREE 8,
  REMOVE 9, DONTFORK 10, DOFORK 11, MERGEABLE 12, UNMERGEABLE 13, HUGEPAGE 14, NOHUGEPAGE 15,
  DONTDUMP 16, DODUMP 17, WIPEONFORK 18, KEEPONFORK 19, HWPOISON 100, SOFT\_OFFLINE 101.
\<close>

definition madvise_behavior_valid :: "int \<Rightarrow> bool" where
  "madvise_behavior_valid behavior \<longleftrightarrow>
     behavior \<in> {11, 10, 0, 2, 1, 9, 3, 4, 8, 12, 13, 14, 15, 16, 17, 18, 19, 101, 100}"

text \<open>The result of \<open>madvise\<close> comes with the address ranges it set to zero.\<close>

definition libos_syscall_madvise ::
  "u64 \<Rightarrow> u64 \<Rightarrow> int \<Rightarrow> mm_state \<Rightarrow> int \<times> (u64 \<times> u64) list" where
  "libos_syscall_madvise start len_in behavior s =
     (if \<not> madvise_behavior_valid behavior then (- EINVAL, [])
      else if \<not> is_alloc_aligned start then (- EINVAL, [])
      else (let len = alloc_align_up len_in
            in if len < len_in then (- EINVAL, [])
               else if \<not> access_ok start len then (- EINVAL, [])
               else if len = 0 then (0, [])
               else if behavior \<in> {0, 1, 2, 3, 8, 101, 12, 13, 14, 15} then (0, [])
               else if behavior \<in> {10, 11, 18, 19, 100, 16, 17, 9} then (- ENOSYS, [])
               else if behavior = MADV_DONTNEED
               then madvise_dontneed_range start (start + len) (vma_tree (bk s))
               else (- EINVAL, [])))"

abbreviation MS_ASYNC :: u32 where "MS_ASYNC \<equiv> 1"
abbreviation MS_INVALIDATE :: u32 where "MS_INVALIDATE \<equiv> 2"
abbreviation MS_SYNC :: u32 where "MS_SYNC \<equiv> 4"

definition libos_syscall_msync :: "mm_env \<Rightarrow> u64 \<Rightarrow> u64 \<Rightarrow> u32 \<Rightarrow> mm_state \<Rightarrow> int \<times> mm_state" where
  "libos_syscall_msync env start len_orig flags s =
     (if has_flag flags (NOT (MS_ASYNC OR MS_SYNC OR MS_INVALIDATE)) then (- EINVAL, s)
      else if has_flag flags MS_ASYNC \<and> has_flag flags MS_SYNC then (- EINVAL, s)
      else if \<not> is_alloc_aligned start then (- EINVAL, s)
      else (let len = alloc_align_up len_orig
            in if len < len_orig then (- ENOMEM, s)
               else (let flags = (if \<not> has_flag flags (MS_SYNC OR MS_ASYNC) then flags OR MS_ASYNC
                                  else flags)
                     in if \<not> is_user_memory_readable env start len s then (- ENOMEM, s)
                        else if has_flag flags MS_INVALIDATE then (- ENOSYS, s)
                        else if has_flag flags MS_SYNC then do_msync_range env start (start + len) s
                        else (0, s))))"

section \<open>System allocations and stacks\<close>

text \<open>
  An allocation returns the address or null. \<open>None\<close> is a call of \<open>BUG\<close> or a null dereference.
\<close>

definition system_malloc :: "mm_env \<Rightarrow> u64 \<Rightarrow> mm_state \<Rightarrow> (u64 option \<times> mm_state) option" where
  "system_malloc env sz s =
     (let alloc_size = alloc_align_up sz
      in case bkeep_mmap_any (vmas env) alloc_size (PROT_READ OR PROT_WRITE)
                (MAP_PRIVATE OR MAP_ANONYMOUS OR VMA_INTERNAL) None 0 ''slab'' (bk s) of
           (ret, addr, b) \<Rightarrow>
             (let s = s\<lparr>bk := b\<rparr>
              in if ret < 0 then Some (None, s)
                 else (let (ret, s) = host_call (PalVirtualMemoryAlloc addr alloc_size (0x2 OR 0x1)) s
                       in if ret < 0
                          then map_option (\<lambda>s. (None, s)) (unmap_failed env addr alloc_size True s)
                          else Some (Some addr, s))))"

definition system_free :: "mm_env \<Rightarrow> u64 \<Rightarrow> u64 \<Rightarrow> mm_state \<Rightarrow> mm_state option" where
  "system_free env addr sz s =
     (case bkeep_munmap (vmas env) addr (alloc_align_up sz) True (bk s) of
        (ret, tmp, b) \<Rightarrow>
          (if ret < 0 then None
           else (let (ret, s) = host_call (PalVirtualMemoryFree addr (alloc_align_up sz)) (s\<lparr>bk := b\<rparr>)
                 in if ret < 0 then None
                    else map_option (\<lambda>v. s\<lparr>bk := bkeep_remove_tmp_vma v (bk s)\<rparr>) tmp)))"

text \<open>The exit of \<open>allocate_stack\<close> on failure, with the flag \<open>need_mem_free\<close>.\<close>

definition stack_out_fail :: "mm_env \<Rightarrow> u64 \<Rightarrow> u64 \<Rightarrow> bool \<Rightarrow> mm_state \<Rightarrow> (u64 option \<times> mm_state) option" where
  "stack_out_fail env stack len need_mem_free s =
     (case bkeep_munmap (vmas env) stack len False (bk s) of
        (ret, tmp, b) \<Rightarrow>
          (if ret < 0 then None
           else (let (ret, s) = (if need_mem_free
                                 then host_call (PalVirtualMemoryFree stack len) (s\<lparr>bk := b\<rparr>)
                                 else (0, s\<lparr>bk := b\<rparr>))
                 in if ret < 0 then None
                    else map_option (\<lambda>v. (None, s\<lparr>bk := bkeep_remove_tmp_vma v (bk s)\<rparr>)) tmp)))"

definition align_up_16 :: "u64 \<Rightarrow> u64" where
  "align_up_16 x = (x + 16 - 1) - (x + 16 - 1) mod 16"

definition allocate_stack ::
  "mm_env \<Rightarrow> u64 \<Rightarrow> u64 \<Rightarrow> bool \<Rightarrow> mm_state \<Rightarrow> (u64 option \<times> mm_state) option" where
  "allocate_stack env sz protect_size user s =
     (let sz = alloc_align_up sz; protect_size = alloc_align_up protect_size;
          len = sz + protect_size
      in if \<not> user
         then map_option (\<lambda>(stack, s). (map_option (\<lambda>a. align_up_16 (a + protect_size)) stack, s))
                (system_malloc env len s)
         else (case bkeep_mmap_any_aslr (vmas env) len 0 (MAP_PRIVATE OR MAP_ANONYMOUS OR MAP_GROWSDOWN)
                      None 0 ''stack'' (bk s) of
                 (ret, stack, b) \<Rightarrow>
                   (let s = s\<lparr>bk := b\<rparr>
                    in if ret < 0 then Some (None, s)
                       else (let (ret, s) = host_call (PalVirtualMemoryAlloc stack len 0) s
                             in if ret < 0 then stack_out_fail env stack len False s
                                else (case bkeep_mprotect (vmas env) (stack + protect_size) sz
                                             (PROT_READ OR PROT_WRITE) False (bk s) of
                                        None \<Rightarrow> None
                                      | Some (ret, b) \<Rightarrow>
                                          (let s = s\<lparr>bk := b\<rparr>
                                           in if ret < 0 then stack_out_fail env stack len True s
                                              else (let (ret, s) = host_call (PalVirtualMemoryProtect
                                                          (stack + protect_size) sz 0x3) s
                                                    in if ret < 0 then stack_out_fail env stack len True s
                                                       else Some (Some (stack + protect_size), s))))))))"

end
