(* ===== verification/Mmap_Ops.thy ===== *)
theory Mmap_Ops
  imports Mmap
begin

text \<open>
  What the system calls of \<^verbatim>\<open>libos_mmap.c\<close> and the stack allocation do to the bookkeeping of the address
  space: the arithmetic of rounding and range checks, and the effect of each call on the page
  information of every address.
\<close>

section \<open>Rounding and range checks\<close>

lemma unat_take_bit12: "unat (take_bit 12 (x :: u64)) = unat x mod 4096"
  unfolding unsigned_take_bit_eq by (simp add: take_bit_eq_mod)

lemma unat_align_down: "unat (alloc_align_down x) = unat x - unat x mod 4096"
proof -
  have "take_bit 12 x \<le> x" by (simp add: word_le_nat_alt unat_take_bit12)
  then show ?thesis unfolding alloc_align_down_diff by (simp add: unat_sub unat_take_bit12)
qed

lemma aligned_mod: "is_alloc_aligned x \<longleftrightarrow> unat x mod 4096 = 0"
  unfolding aligned_take_bit by (metis unat_take_bit12 unat_eq_0)

lemma aligned_up [simp]: "is_alloc_aligned (alloc_align_up x)"
  by (simp add: alloc_align_up_def)

lemma access_ok_nowrap:
  assumes "access_ok addr len" "len \<noteq> 0"
  shows "addr < addr + len"
proof -
  have "\<not> addr + len < len" using assms(1) by (simp add: access_ok_def)
  moreover have "0 < unat len" using assms(2) by (simp add: unat_gt_0)
  ultimately show ?thesis
    using u64_bound [of addr] u64_bound [of len]
    by (auto simp: word_less_nat_alt unat_plus_if' not_less split: if_splits)
qed

lemma round_below_last:
  fixes n :: nat
  assumes "n - n mod 4096 \<noteq> 2 ^ 64 - 4096" "n < 2 ^ 64"
  shows "n < 2 ^ 64 - 4096"
proof -
  have "n - n mod 4096 = 4096 * (n div 4096)" by (simp add: minus_mod_eq_mult_div)
  then have "n div 4096 \<noteq> 2 ^ 52 - 1" using assms(1) by auto
  moreover have "n div 4096 < 2 ^ 52" using assms(2) by (simp add: less_mult_imp_div_less)
  ultimately have "n div 4096 < 2 ^ 52 - 1" by simp
  then show ?thesis by (simp add: div_less_iff_less_mult)
qed

lemma round_up_sum:
  fixes a l :: nat
  assumes "a mod 4096 = 0" "a + l < 2 ^ 64 - 4096" "0 < l"
  shows "a + ((l + 4095) - (l + 4095) mod 4096) < 2 ^ 64" "0 < (l + 4095) - (l + 4095) mod 4096"
proof -
  have "(l + 4095) - (l + 4095) mod 4096 \<le> l + 4095" by simp
  then show "a + ((l + 4095) - (l + 4095) mod 4096) < 2 ^ 64" using assms(2) by simp
  have "4096 * ((l + 4095) div 4096) = (l + 4095) - (l + 4095) mod 4096"
    by (simp add: minus_mod_eq_mult_div)
  moreover have "1 \<le> (l + 4095) div 4096" using assms(3) by simp
  ultimately show "0 < (l + 4095) - (l + 4095) mod 4096" by linarith
qed

text \<open>Rounding the length up after the check still leaves the end in the address space.\<close>

lemma access_ok_align_up:
  assumes "access_ok addr len" "len \<noteq> 0" "is_alloc_aligned addr"
  shows "addr < addr + alloc_align_up len"
proof -
  have nw: "\<not> addr + len < len" and last: "(addr + len) AND NOT (0x1000 - 1) \<noteq> NOT (0x1000 - 1)"
    using assms(1) by (auto simp: access_ok_def)
  have l0: "0 < unat len" using assms(2) by (simp add: unat_gt_0)
  have sum: "unat (addr + len) = unat addr + unat len"
    using nw u64_bound [of addr] u64_bound [of len]
    by (auto simp: word_less_nat_alt unat_plus_if' not_less split: if_splits)
  have lt: "unat addr + unat len < 2 ^ 64" using sum u64_bound [of "addr + len"] by simp
  have "alloc_align_down (addr + len) \<noteq> NOT (0x1000 - 1)"
    using last by (simp add: alloc_align_down_and)
  moreover have "unat (NOT (0x1000 - 1) :: u64) = 2 ^ 64 - 4096" by simp
  ultimately have "unat (alloc_align_down (addr + len)) \<noteq> 2 ^ 64 - 4096"
    by (metis unsigned_word_eqI)
  then have "(unat addr + unat len) - (unat addr + unat len) mod 4096 \<noteq> 2 ^ 64 - 4096"
    unfolding unat_align_down sum .
  then have top: "unat addr + unat len < 2 ^ 64 - 4096" using lt by (rule round_below_last)
  have "unat (len + (ALLOC_ALIGNMENT - 1)) = unat len + 4095"
    using top by (simp add: unat_plus_if')
  then have up: "unat (alloc_align_up len) = (unat len + 4095) - (unat len + 4095) mod 4096"
    unfolding alloc_align_up_def unat_align_down by (simp add: add_diff_eq [symmetric])
  have "unat addr mod 4096 = 0" using assms(3) by (simp add: aligned_mod)
  then have "unat addr + unat (alloc_align_up len) < 2 ^ 64" "0 < unat (alloc_align_up len)"
    using round_up_sum [OF _ top] l0 up by auto
  then show ?thesis by (simp add: word_less_nat_alt unat_plus_if')
qed
section \<open>Keeping the books\<close>

lemma msync_all_keeps:
  assumes "msync_all env op start fin hdl al s = (ret, made, al', s')"
  shows "vma_tree s' = vma_tree s \<and> hdl_refs s' = hdl_refs s"
proof -
  obtain r infos al1 s1 where d: "dump_vmas start fin (vma_filter_needs_msync env hdl) al s = (r, infos, al1, s1)"
    by (metis prod_cases4)
  let ?ws = "filter (vma_filter_needs_msync env hdl) (vmas_in_range start fin (vma_tree s))"
  have sp: "vma_tree s1 = vma_tree s" "r = 0 \<and> infos = map dump_vma ?ws \<and>
      (\<forall>h. hdl_refs s1 h = hdl_refs s h + file_count ?ws h) \<or>
      r = - ENOMEM \<and> infos = [] \<and> hdl_refs s1 = hdl_refs s"
    using dump_vmas_loop_spec [OF d [unfolded dump_vmas_def]] by auto
  show ?thesis
  proof (cases "r < 0")
    case True
    then have "s' = s1" using assms d by (simp add: msync_all_def)
    then show ?thesis using sp True by auto
  next
    case False
    then have "s' = free_vma_info_array infos s1"
      using assms d by (auto simp: msync_all_def split: prod.splits)
    moreover have "hdl_refs (free_vma_info_array (map dump_vma ?ws) s1) = hdl_refs s"
      using sp False by (auto simp: free_vma_info_array_refs)
    ultimately show ?thesis using sp False by auto
  qed
qed

lemma do_msync_range_keeps:
  assumes "do_msync_range env start fin s = (ret, s')"
  shows "vma_tree (bk s') = vma_tree (bk s)" "ref_slack (bk s') h = ref_slack (bk s) h"
    "host_calls s' = host_calls s" "host_rets s' = host_rets s"
  using assms msync_all_keeps [of "syncs env" "msync_op env" start fin None "info_allocs s" "bk s"]
  by (auto simp: do_msync_range_def msync_range_def ref_slack_def split: prod.splits)

lemma host_call_keeps:
  assumes "host_call c s = (ret, s')"
  shows "bk s' = bk s" "host_calls s' = host_calls s @ [c]"
  using assms by (auto simp: host_call_def Let_def split: list.splits)

lemma set_vma_insert [simp]: "set (vma_insert v l) = insert v (set l)"
proof -
  have "set l = set (takeWhile (\<lambda>w. \<not> vma_tree_cmp v w) l) \<union> set (dropWhile (\<lambda>w. \<not> vma_tree_cmp v w) l)"
    by (metis set_append takeWhile_dropWhile_id)
  then show ?thesis by (simp add: vma_insert_def)
qed

lemma bkeep_munmap_tmp:
  assumes "bkeep_munmap env addr len is_internal s = (ret, Some v, s')"
  shows "v \<in> set (vma_tree s')"
  using assms
  by (auto simp: bkeep_munmap_def Let_def split: if_splits prod.splits bool.splits)

text \<open>Unmapping in two steps, with the host in between, leaves the range free.\<close>

lemma munmap_then_remove:
  assumes wf: "vmas_wf (vma_tree s)" and nowrap: "addr < addr + len"
    and res: "bkeep_munmap env addr len is_internal s = (ret, Some v, s1)"
  defines "s2 \<equiv> bkeep_remove_tmp_vma v s1"
  shows "vmas_wf (vma_tree s2)" "ref_slack s2 h = ref_slack s h"
    "if addr \<le> a \<and> a < addr + len then view (vma_tree s2) a = None
     else kept_at (vma_tree s) (vma_tree s2) a"
proof -
  note e = bkeep_munmap_effect [OF wf nowrap res]
  have wf1: "vmas_wf (vma_tree s1)" and sl: "ref_slack s1 h = ref_slack s h"
    and v: "v = unmapped_vma addr (addr + len)"
    and vw: "\<not> (addr \<le> a \<and> a < addr + len) \<Longrightarrow> kept_at (vma_tree s) (vma_tree s1) a"
    using e by auto
  note r = bkeep_remove_tmp_vma_effect [OF wf1 bkeep_munmap_tmp [OF res]]
  show "vmas_wf (vma_tree s2)" "ref_slack s2 h = ref_slack s h" using r sl by (simp_all add: s2_def)
  have "view (vma_tree s2) a = (if addr \<le> a \<and> a < addr + len then None else view (vma_tree s1) a)"
    using r(2) [of a] v by (simp add: s2_def)
  then show "if addr \<le> a \<and> a < addr + len then view (vma_tree s2) a = None
     else kept_at (vma_tree s) (vma_tree s2) a"
    using kept_at_view [OF vw, of "vma_tree s2"] by auto
qed

lemma munmap_effect:
  assumes wf: "vmas_wf (vma_tree (bk s))"
    and res: "libos_syscall_munmap env addr len s = Some (ret, s')"
  defines "len' \<equiv> if \<not> is_alloc_aligned len then alloc_align_up len else len"
  shows "vmas_wf (vma_tree (bk s')) \<and> ref_slack (bk s') h = ref_slack (bk s) h \<and>
    (ret = 0 \<and> addr < addr + len' \<and> PalVirtualMemoryFree addr len' \<in> set (host_calls s') \<and>
       (if addr \<le> a \<and> a < addr + len' then view (vma_tree (bk s')) a = None
        else kept_at (vma_tree (bk s)) (vma_tree (bk s')) a) \<or>
     ret < 0 \<and> kept_at (vma_tree (bk s)) (vma_tree (bk s')) a)"
proof (cases "addr = 0 \<or> \<not> is_alloc_aligned addr \<or> len = 0 \<or> \<not> access_ok addr len")
  case True
  then have "ret = - EINVAL \<and> s' = s" using res by (auto simp: libos_syscall_munmap_def split: if_splits)
  then show ?thesis using wf by simp
next
  case False
  have nowrap: "addr < addr + len'"
    using False access_ok_nowrap access_ok_align_up by (auto simp: len'_def)
  obtain r1 s1 where m: "do_msync_range env addr (addr + len') s = (r1, s1)" by fastforce
  note k1 = do_msync_range_keeps [OF m]
  have wf1: "vmas_wf (vma_tree (bk s1))" using wf k1(1) by simp
  obtain r2 tmp b where u: "bkeep_munmap (vmas env) addr len' False (bk s1) = (r2, tmp, b)"
    by (metis prod_cases3)
  note e = bkeep_munmap_effect [OF wf1 nowrap u]
  have unf: "Some (ret, s') = (if r1 < 0 then Some (r1, s1)
      else if r2 < 0 then Some (r2, s1\<lparr>bk := b\<rparr>)
      else (let (r, s) = host_call (PalVirtualMemoryFree addr len') (s1\<lparr>bk := b\<rparr>)
            in if r < 0 then None else (case tmp of None \<Rightarrow> None
                 | Some v \<Rightarrow> Some (0, s\<lparr>bk := bkeep_remove_tmp_vma v (bk s)\<rparr>))))"
    using res [unfolded libos_syscall_munmap_def Let_def, folded len'_def] False m u
    by (cases "r1 < 0"; cases "r2 < 0") (simp_all add: Let_def)
  show ?thesis
  proof (cases "r1 < 0 \<or> r2 < 0")
    case True
    then consider "ret = r1" "r1 < 0" "s' = s1" | "ret = r2" "r2 < 0" "s' = s1\<lparr>bk := b\<rparr>"
      using unf by (auto split: if_splits)
    then show ?thesis
    proof cases
      case 1
      then show ?thesis using wf1 k1 by simp
    next
      case 2
      then show ?thesis using e [of h a] k1 by auto
    qed
  next
    case ok: False
    obtain r s3 where hc: "host_call (PalVirtualMemoryFree addr len') (s1\<lparr>bk := b\<rparr>) = (r, s3)" by fastforce
    note k3 = host_call_keeps [OF hc]
    have "\<not> r < 0" using unf ok hc by (auto split: if_splits)
    then obtain v where v: "tmp = Some v" "ret = 0" "s' = s3\<lparr>bk := bkeep_remove_tmp_vma v (bk s3)\<rparr>"
      using unf ok hc by (auto split: option.splits)
    note mr = munmap_then_remove [OF wf1 nowrap u [unfolded v(1)]]
    have b: "bk s' = bkeep_remove_tmp_vma v b" using v k3 by simp
    have "PalVirtualMemoryFree addr len' \<in> set (host_calls s')" using v k3 by simp
    then show ?thesis using mr(1) mr(2) [of h] mr(3) [of a] v(2) nowrap k1 unfolding b by auto
  qed
qed

section \<open>mmap\<close>

text \<open>A placement succeeded with the new area in the user range, or changed nothing.\<close>

definition placed ::
  "mm_env \<Rightarrow> u64 \<Rightarrow> u32 \<Rightarrow> u32 \<Rightarrow> nat option \<Rightarrow> u64 \<Rightarrow> string \<Rightarrow> bool \<Rightarrow> libos_vma list \<Rightarrow>
   libos_vma list \<Rightarrow> u64 \<Rightarrow> bool" where
  "placed env len prot flags hdl offset comment fixed l l' a \<longleftrightarrow>
     user_address_start (vmas env) \<le> a \<and> a < a + len \<and> a + len \<le> user_address_end (vmas env) \<and>
     (\<forall>x. if a \<le> x \<and> x < a + len
          then view l' x = Some (page (mapping_at a len prot flags hdl offset comment) x) \<and>
            (\<not> fixed \<longrightarrow> view l x = None)
          else kept_at l l' x)"

lemma mmap_any_effect:
  assumes wf: "vmas_wf (vma_tree s)" and top_ok: "top_addr \<le> user_address_end (vmas env)"
    and res: "bkeep_mmap_any_in_range (vmas env) (user_address_start (vmas env)) top_addr len prot
      flags hdl offset comment s = (ret, a, s')"
  shows "vmas_wf (vma_tree s')" "ref_slack s' h = ref_slack s h"
    "ret = 0 \<and> placed env len prot flags hdl offset comment False (vma_tree s) (vma_tree s') a \<or>
     ret < 0 \<and> (\<forall>x. kept_at (vma_tree s) (vma_tree s') x)"
proof -
  note e = bkeep_mmap_any_in_range_effect [OF wf res]
  show "vmas_wf (vma_tree s')" "ref_slack s' h = ref_slack s h" using e by auto
  show "ret = 0 \<and> placed env len prot flags hdl offset comment False (vma_tree s) (vma_tree s') a \<or>
     ret < 0 \<and> (\<forall>x. kept_at (vma_tree s) (vma_tree s') x)"
  proof (cases "ret < 0")
    case True
    then show ?thesis using e by auto
  next
    case False
    then have r: "ret = 0" "user_address_start (vmas env) \<le> a" "a < a + len" "a + len \<le> top_addr"
      using e by auto
    have "a + len \<le> user_address_end (vmas env)" using r(4) top_ok by order
    moreover have "if a \<le> x \<and> x < a + len
        then view (vma_tree s') x = Some (page (mapping_at a len prot flags hdl offset comment) x) \<and>
          view (vma_tree s) x = None
        else kept_at (vma_tree s) (vma_tree s') x" for x
      using e [of _ x] r(1) by (auto split: if_splits)
    ultimately show ?thesis using r by (simp add: placed_def)
  qed
qed

lemma placed_kept:
  assumes "\<And>x. kept_at l0 l x" "placed env len prot flags hdl offset comment False l l' a"
  shows "placed env len prot flags hdl offset comment False l0 l' a"
proof -
  have "view l0 x = None" if "view l x = None" for x
    using assms(1) [of x] that by (auto simp: kept_at_def)
  moreover have "kept_at l l' x \<Longrightarrow> kept_at l0 l' x" for x
    using kept_at_trans [OF assms(1)] .
  ultimately show ?thesis using assms(2) unfolding placed_def by (auto split: if_splits)
qed

definition mm_env_ok :: "mm_env \<Rightarrow> bool" where
  "mm_env_ok env \<longleftrightarrow> g_aslr_addr_top (vmas env) \<le> user_address_end (vmas env)"

lemma mmap_any_aslr_effect:
  assumes wf: "vmas_wf (vma_tree s)" and env: "mm_env_ok env"
    and res: "bkeep_mmap_any_aslr (vmas env) len prot flags hdl offset comment s = (ret, a, s')"
  shows "vmas_wf (vma_tree s')" "ref_slack s' h = ref_slack s h"
    "ret = 0 \<and> placed env len prot flags hdl offset comment False (vma_tree s) (vma_tree s') a \<or>
     ret < 0 \<and> (\<forall>x. kept_at (vma_tree s) (vma_tree s') x)"
proof -
  obtain r1 a1 s1 where m1: "bkeep_mmap_any_in_range (vmas env) (user_address_start (vmas env))
      (g_aslr_addr_top (vmas env)) len prot flags hdl offset comment s = (r1, a1, s1)"
    by (metis prod_cases3)
  note e1 = mmap_any_effect [OF wf env [unfolded mm_env_ok_def] m1]
  have "vmas_wf (vma_tree s') \<and> ref_slack s' h = ref_slack s h \<and>
    (ret = 0 \<and> placed env len prot flags hdl offset comment False (vma_tree s) (vma_tree s') a \<or>
     ret < 0 \<and> (\<forall>x. kept_at (vma_tree s) (vma_tree s') x))"
  proof (cases "r1 \<ge> 0")
    case True
    then show ?thesis using res m1 e1(1,3) e1(2) [of h] by (auto simp: bkeep_mmap_any_aslr_def)
  next
    case False
    then have m2: "bkeep_mmap_any_in_range (vmas env) (user_address_start (vmas env))
        (user_address_end (vmas env)) len prot flags hdl offset comment s1 = (ret, a, s')"
      using res m1 by (simp add: bkeep_mmap_any_aslr_def bkeep_mmap_any_def)
    note e2 = mmap_any_effect [OF e1(1) order_refl m2]
    have k: "kept_at (vma_tree s) (vma_tree s1) x" for x using e1(3) False by auto
    show ?thesis
      using e2(1,3) e2(2) [of h] e1(2) [of h] placed_kept [OF k] kept_at_trans [OF k] by auto
  qed
  then show "vmas_wf (vma_tree s')" "ref_slack s' h = ref_slack s h"
    "ret = 0 \<and> placed env len prot flags hdl offset comment False (vma_tree s) (vma_tree s') a \<or>
     ret < 0 \<and> (\<forall>x. kept_at (vma_tree s) (vma_tree s') x)" by auto
qed

lemma mmap_place_effect:
  assumes wf: "vmas_wf (vma_tree (bk s))" and env: "mm_env_ok env" and nowrap: "addr < addr + len"
    and res: "mmap_place env addr len prot flags hdl offset s = (r, s')"
  shows "vmas_wf (vma_tree (bk s')) \<and> ref_slack (bk s') h = ref_slack (bk s) h \<and>
    (case r of
       Inr a \<Rightarrow> placed env len prot flags hdl offset ''''
                 (has_flag flags (MAP_FIXED OR MAP_FIXED_NOREPLACE)) (vma_tree (bk s)) (vma_tree (bk s')) a \<and>
               (has_flag flags (MAP_FIXED OR MAP_FIXED_NOREPLACE) \<longrightarrow> a = addr)
     | Inl e \<Rightarrow> e < 0 \<and> (\<forall>x. kept_at (vma_tree (bk s)) (vma_tree (bk s')) x))"
proof (cases "has_flag flags (MAP_FIXED OR MAP_FIXED_NOREPLACE)")
  case True
  let ?start = "user_address_start (vmas env)" and ?fin = "user_address_end (vmas env)"
  obtain r1 s1 where m: "(if \<not> has_flag flags MAP_FIXED_NOREPLACE
      then do_msync_range env addr (addr + len) s else (0, s)) = (r1, s1)" by fastforce
  have k1: "vma_tree (bk s1) = vma_tree (bk s)" "ref_slack (bk s1) h = ref_slack (bk s) h"
    using m do_msync_range_keeps [of env addr "addr + len" s] by (auto split: if_splits)
  obtain r2 b where f: "bkeep_mmap_fixed (vmas env) addr len prot flags hdl offset '''' (bk s1) = (r2, b)"
    by fastforce
  have wf1: "vmas_wf (vma_tree (bk s1))" using wf k1 by simp
  note e = bkeep_mmap_fixed_effect [OF wf1 nowrap f]
  have unf: "(r, s') = (if addr < ?start \<or> ?fin < addr + len then (Inl (- EINVAL), s)
      else if r1 < 0 then (Inl r1, s1) else (if r2 < 0 then Inl r2 else Inr addr, s1\<lparr>bk := b\<rparr>))"
    using res True unfolding mmap_place_def Let_def m
    by (simp only: if_True prod.case f)
  consider (range) "addr < ?start \<or> ?fin < addr + len" "r = Inl (- EINVAL)" "s' = s"
    | (sync) "r1 < 0" "r = Inl r1" "s' = s1"
    | (fail) "r2 < 0" "r = Inl r2" "s' = s1\<lparr>bk := b\<rparr>"
    | (ok) "\<not> (addr < ?start \<or> ?fin < addr + len)" "\<not> r2 < 0" "r = Inr addr" "s' = s1\<lparr>bk := b\<rparr>"
    using unf by (auto split: if_splits)
  then show ?thesis
  proof cases
    case range
    then show ?thesis using wf by auto
  next
    case sync
    then show ?thesis using wf1 k1 by auto
  next
    case fail
    then show ?thesis using e [of h] k1 by auto
  next
    case ok
    have "if addr \<le> x \<and> x < addr + len
        then view (vma_tree b) x = Some (page (mapping_at addr len prot flags hdl offset '''') x)
        else kept_at (vma_tree (bk s)) (vma_tree b) x" for x
      using e [of h x] ok(2) k1(1) by (auto split: if_splits)
    then have "placed env len prot flags hdl offset '''' True (vma_tree (bk s)) (vma_tree b) addr"
      using ok(1) nowrap by (simp add: placed_def not_less)
    then show ?thesis using ok True e [of h] k1 by auto
  qed
next
  case False
  let ?start = "user_address_start (vmas env)" and ?fin = "user_address_end (vmas env)"
  obtain r1 a1 b1 where m1: "(if addr \<noteq> 0 \<and> ?start \<le> addr \<and> addr + len \<le> ?fin
      then bkeep_mmap_any_in_range (vmas env) ?start (addr + len) len prot flags hdl offset '''' (bk s)
      else (- 1, addr, bk s)) = (r1, a1, b1)" by (metis prod_cases3)
  have e1: "vmas_wf (vma_tree b1)" "ref_slack b1 h = ref_slack (bk s) h"
    "r1 = 0 \<and> placed env len prot flags hdl offset '''' False (vma_tree (bk s)) (vma_tree b1) a1 \<or>
     r1 < 0 \<and> (\<forall>x. kept_at (vma_tree (bk s)) (vma_tree b1) x)"
    using m1 wf mmap_any_effect [OF wf, of "addr + len" env len prot flags hdl offset "''''" r1 a1 b1]
    by (auto split: if_splits)
  obtain r2 a2 b2 where m2: "(if r1 < 0
      then bkeep_mmap_any_aslr (vmas env) len prot flags hdl offset '''' b1 else (r1, a1, b1)) = (r2, a2, b2)"
    by (metis prod_cases3)
  have e2: "vmas_wf (vma_tree b2)" "ref_slack b2 h = ref_slack (bk s) h"
    "r2 = 0 \<and> placed env len prot flags hdl offset '''' False (vma_tree (bk s)) (vma_tree b2) a2 \<or>
     r2 < 0 \<and> (\<forall>x. kept_at (vma_tree (bk s)) (vma_tree b2) x)"
  proof -
    have "vmas_wf (vma_tree b2) \<and> ref_slack b2 h = ref_slack (bk s) h \<and>
      (r2 = 0 \<and> placed env len prot flags hdl offset '''' False (vma_tree (bk s)) (vma_tree b2) a2 \<or>
       r2 < 0 \<and> (\<forall>x. kept_at (vma_tree (bk s)) (vma_tree b2) x))"
    proof (cases "r1 < 0")
      case True
      then have k: "kept_at (vma_tree (bk s)) (vma_tree b1) x" for x using e1(3) by auto
      have "bkeep_mmap_any_aslr (vmas env) len prot flags hdl offset '''' b1 = (r2, a2, b2)"
        using m2 True by simp
      note e = mmap_any_aslr_effect [OF e1(1) env this]
      show ?thesis
        using e(1,3) e(2) [of h] e1(2) placed_kept [OF k] kept_at_trans [OF k] by auto
    qed (use m2 e1 in auto)
    then show "vmas_wf (vma_tree b2)" "ref_slack b2 h = ref_slack (bk s) h"
      "r2 = 0 \<and> placed env len prot flags hdl offset '''' False (vma_tree (bk s)) (vma_tree b2) a2 \<or>
       r2 < 0 \<and> (\<forall>x. kept_at (vma_tree (bk s)) (vma_tree b2) x)" by auto
  qed
  have "(r, s') = (if r2 < 0 then Inl (- ENOMEM) else Inr a2, s\<lparr>bk := b2\<rparr>)"
    using res False unfolding mmap_place_def Let_def m1
    by (simp only: if_False prod.case m2)
  then show ?thesis using e2 False by auto
qed

lemma pal_to_unix_errno_negative:
  assumes "ret < 0"
  shows "pal_to_unix_errno ret < 0"
proof -
  have tab: "list_all (\<lambda>e. 0 < e) (drop 1 pal_errno_table)" "length pal_errno_table = 25"
    by (simp_all add: pal_errno_table_def)
  have "0 < pal_errno_table ! nat (- ret)" if le: "- ret \<le> 24"
  proof -
    obtain k where k: "nat (- ret) = Suc k" using assms by (metis neg_0_less_iff_less gr0_implies_Suc zero_less_nat_eq)
    have "k < 24" using le k by linarith
    then show ?thesis using tab k by (auto simp: list_all_length nth_drop)
  qed
  then show ?thesis using assms by (simp add: pal_to_unix_errno_def pal_to_unix_errno_positive_def)
qed

lemma unmap_failed_effect:
  assumes wf: "vmas_wf (vma_tree (bk s))" and nowrap: "addr < addr + len"
    and res: "unmap_failed env addr len is_internal s = Some s'"
  shows "vmas_wf (vma_tree (bk s'))" "ref_slack (bk s') h = ref_slack (bk s) h"
    "if addr \<le> a \<and> a < addr + len then view (vma_tree (bk s')) a = None
     else kept_at (vma_tree (bk s)) (vma_tree (bk s')) a"
proof -
  obtain ret v b where m: "bkeep_munmap (vmas env) addr len is_internal (bk s) = (ret, Some v, b)"
    and s': "s' = s\<lparr>bk := bkeep_remove_tmp_vma v b\<rparr>"
    using res by (auto simp: unmap_failed_def split: prod.splits if_splits option.splits)
  note e = munmap_then_remove [OF wf nowrap m]
  show "vmas_wf (vma_tree (bk s'))" "ref_slack (bk s') h = ref_slack (bk s) h"
    using e(1) e(2) [of h] by (simp_all add: s')
  show "if addr \<le> a \<and> a < addr + len then view (vma_tree (bk s')) a = None
     else kept_at (vma_tree (bk s)) (vma_tree (bk s')) a" using e(3) [of a] by (simp add: s')
qed

lemma put_hdl_keeps [simp]: "vma_tree (bk (put_hdl hdl s)) = vma_tree (bk s)"
  by (simp add: put_hdl_def put_file_def split: option.splits)

lemma get_file_keeps [simp]: "vma_tree (get_file hdl s) = vma_tree s"
  by (simp add: get_file_def split: option.splits)

lemma put_hdl_slack:
  assumes "ref_slack (bk s) h = ref_slack (get_file hdl b) h"
  shows "ref_slack (bk (put_hdl hdl s)) h = ref_slack b h"
  using assms by (auto simp: put_hdl_def ref_slack_def get_file_def put_file_def split: option.splits)

text \<open>The part of \<open>mmap\<close> after the placement: the host call, and the rollback when it fails.\<close>

lemma placed_rollback:
  assumes p: "placed env len prot flags hdl offset comment fixed l l1 a"
    and u: "\<And>x. if a \<le> x \<and> x < a + len then view l2 x = None else kept_at l1 l2 x"
  shows "kept_at l l2 x \<or> fixed \<and> a \<le> x \<and> x < a + len \<and> view l2 x = None"
proof (cases "a \<le> x \<and> x < a + len")
  case True
  then have "view l2 x = None" "\<not> fixed \<longrightarrow> view l x = None"
    using u [of x] p by (auto simp: placed_def)
  then show ?thesis using True by (auto simp: kept_at_def)
next
  case False
  then have "kept_at l l1 x" "kept_at l1 l2 x" using u [of x] p by (auto simp: placed_def)
  then show ?thesis using kept_at_trans by blast
qed

lemma mmap_host_keeps:
  assumes "mmap_host hdl a len prot flags offset s = (ret, s')"
  shows "bk s' = bk s"
  using assms by (auto simp: mmap_host_def host_call_keeps split: option.splits prod.splits)

lemma has_flag_and_mono: "has_flag (flags AND m) bits \<Longrightarrow> has_flag flags bits"
proof (rule ccontr)
  assume m: "has_flag (flags AND m) bits" and n: "\<not> has_flag flags bits"
  have "(flags AND m) AND bits = (flags AND bits) AND m" by (simp only: and.assoc and.commute [of m])
  then show False using m n by (simp add: has_flag_def)
qed

lemma mmap_flag_checks_flags:
  assumes "mmap_flag_checks env prot flags fd = Inr (hdl, flags')" "has_flag flags' bits"
  shows "has_flag flags bits"
  using assms
  by (auto simp: mmap_flag_checks_def Let_def map_sum_def split: if_splits sum.splits
      dest: has_flag_and_mono)

lemma has_flag_saved: "has_flag (mmap_saved_flags flags) bits \<Longrightarrow> has_flag flags bits"
  by (auto simp: mmap_saved_flags_def split: if_splits dest: has_flag_and_mono)


lemma mmap_effect:
  assumes wf: "vmas_wf (vma_tree (bk s))" and env: "mm_env_ok env"
    and res: "libos_syscall_mmap env addr0 len prot flags fd offset s = Some (r, s')"
  defines "addr \<equiv> if \<not> has_flag flags MAP_FIXED \<and> addr0 \<noteq> 0 then alloc_align_down addr0 else addr0"
    and "len' \<equiv> if \<not> is_alloc_aligned len then alloc_align_up len else len"
  shows "vmas_wf (vma_tree (bk s')) \<and> ref_slack (bk s') h = ref_slack (bk s) h \<and>
    (case r of
       Inr a \<Rightarrow> \<exists>hdl flags'. mmap_flag_checks env prot flags fd = Inr (hdl, flags') \<and>
         placed env len' prot (mmap_saved_flags flags') hdl offset ''''
           (has_flag (mmap_saved_flags flags') (MAP_FIXED OR MAP_FIXED_NOREPLACE)) (vma_tree (bk s)) (vma_tree (bk s')) a
     | Inl e \<Rightarrow> \<forall>x. kept_at (vma_tree (bk s)) (vma_tree (bk s')) x \<or>
         has_flag flags (MAP_FIXED OR MAP_FIXED_NOREPLACE) \<and> addr \<le> x \<and> x < addr + len' \<and>
         view (vma_tree (bk s')) x = None)"
proof (cases "addr \<noteq> 0 \<and> \<not> is_alloc_aligned addr \<or> fd \<ge> 0 \<and> \<not> is_alloc_aligned offset \<or>
    len' = 0 \<or> \<not> access_ok addr len' \<or> has_flag flags (VMA_UNMAPPED OR VMA_TAINTED OR VMA_INTERNAL)")
  case True
  then have "r = Inl (- EINVAL) \<and> s' = s"
    using res unfolding libos_syscall_mmap_def Let_def addr_def [symmetric] len'_def [symmetric]
    by (auto split: if_splits)
  then show ?thesis using wf by simp
next
  case False
  then have nowrap: "addr < addr + len'" using access_ok_nowrap by blast
  show ?thesis
  proof (cases "mmap_flag_checks env prot flags fd")
    case (Inl e)
    then have "r = Inl e \<and> s' = s"
      using res False unfolding libos_syscall_mmap_def Let_def addr_def [symmetric] len'_def [symmetric]
      by (auto split: if_splits)
    then show ?thesis using wf by simp
  next
    case (Inr hf)
    obtain hdl flags' where hf: "hf = (hdl, flags')" by fastforce
    define s1 where "s1 = s\<lparr>bk := get_file hdl (bk s)\<rparr>"
    obtain q s2 where pl: "mmap_place env addr len' prot (mmap_saved_flags flags') hdl offset s1 = (q, s2)"
      by fastforce
    have unf: "Some (r, s') = (case (q, s2) of
        (Inl e, s) \<Rightarrow> Some (Inl e, put_hdl hdl s)
      | (Inr a, s) \<Rightarrow>
          (let (ret, s) = mmap_host hdl a len' prot (mmap_saved_flags flags') offset s
           in if ret < 0
              then (case unmap_failed env a len' False s of
                      None \<Rightarrow> None | Some s \<Rightarrow> Some (Inl ret, put_hdl hdl s))
              else Some (Inr a, put_hdl hdl s)))"
      using res False Inr
      unfolding libos_syscall_mmap_def Let_def addr_def [symmetric] len'_def [symmetric]
        hf pl [symmetric] s1_def
      by (auto split: if_splits)
    have wf1: "vmas_wf (vma_tree (bk s1))" and t1: "vma_tree (bk s1) = vma_tree (bk s)"
      using wf by (simp_all add: s1_def)
    note e = mmap_place_effect [OF wf1 env nowrap pl]
    have fx: "has_flag (mmap_saved_flags flags') bits \<Longrightarrow> has_flag flags bits" for bits
      using mmap_flag_checks_flags [OF Inr [unfolded hf]] has_flag_saved by blast
    show ?thesis
    proof (cases q)
      case (Inl er)
      then have "r = Inl er" "s' = put_hdl hdl s2" using unf by simp_all
      then show ?thesis
        using e [of h] Inl t1 put_hdl_slack [of s2 h hdl "bk s"] by (auto simp: s1_def)
    next
      case (Inr a)
      obtain ret s3 where h3: "mmap_host hdl a len' prot (mmap_saved_flags flags') offset s2 = (ret, s3)"
        by fastforce
      note k3 = mmap_host_keeps [OF h3]
      let ?fixed = "has_flag (mmap_saved_flags flags') (MAP_FIXED OR MAP_FIXED_NOREPLACE)"
      have p: "placed env len' prot (mmap_saved_flags flags') hdl offset '''' ?fixed
          (vma_tree (bk s)) (vma_tree (bk s3)) a" "?fixed \<longrightarrow> a = addr"
        and w3: "vmas_wf (vma_tree (bk s3))" "ref_slack (bk s3) h = ref_slack (get_file hdl (bk s)) h"
        using e [of h] Inr t1 k3 by (auto simp: s1_def)
      show ?thesis
      proof (cases "ret < 0")
        case True
        then obtain s4 where u: "unmap_failed env a len' False s3 = Some s4" "r = Inl ret" "s' = put_hdl hdl s4"
          using unf Inr h3 by (auto split: option.splits)
        have nw: "a < a + len'" using p(1) by (simp add: placed_def)
        note f = unmap_failed_effect [OF w3(1) nw u(1)]
        have "kept_at (vma_tree (bk s)) (vma_tree (bk s4)) x \<or>
            ?fixed \<and> a \<le> x \<and> x < a + len' \<and> view (vma_tree (bk s4)) x = None" for x
          by (rule placed_rollback [OF p(1) f(3)])
        then show ?thesis
          using u f(1) f(2) [of h] w3(2) p(2) put_hdl_slack [of s4 h hdl "bk s"] fx by auto
      next
        case False
        then have "r = Inr a" "s' = put_hdl hdl s3" using unf Inr h3 by auto
        then show ?thesis
          using p(1) w3 put_hdl_slack [of s3 h hdl "bk s"]
            \<open>mmap_flag_checks env prot flags fd = Inr hf\<close> hf by auto
      qed
    qed
  qed
qed

section \<open>mprotect\<close>

lemma lookup_put_slack:
  assumes "lookup_vma addr b = (ret, Some i, b')"
  shows "vma_tree b' = vma_tree b" "ref_slack (put_file (ifile i) b') h = ref_slack b h"
  using assms
  by (auto simp: lookup_vma_def dump_vma_def ref_slack_def get_file_def put_file_def
      split: list.splits if_splits option.splits)

lemma lookup_none_keeps:
  assumes "lookup_vma addr b = (ret, None, b')"
  shows "b' = b"
  using assms by (auto simp: lookup_vma_def split: list.splits if_splits)

text \<open>
  A successful \<open>mprotect\<close> changes the protection of exactly the pages of the range, and without
  \<open>PROT_GROWSDOWN\<close> asks the host for the same range. A failing one may leave the books changed only
  when the host refused.
\<close>

lemma mprotect_effect:
  assumes wf: "vmas_wf (vma_tree (bk s))" and len: "len \<noteq> 0"
    and res: "libos_syscall_mprotect env addr len prot s = Some (ret, s')"
  defines "len' \<equiv> if \<not> is_alloc_aligned len then alloc_align_up len else len"
  shows "vmas_wf (vma_tree (bk s')) \<and> ref_slack (bk s') h = ref_slack (bk s) h \<and>
    (\<exists>l0. vmas_wf l0 \<and> (\<forall>a. kept_at (vma_tree (bk s)) l0 a) \<and>
       ((\<forall>a. changed_view addr (addr + len') prot l0 (vma_tree (bk s')) a) \<and>
          (ret = 0 \<and> \<not> has_flag prot PROT_GROWSDOWN \<longrightarrow>
             last (host_calls s') = PalVirtualMemoryProtect addr len' (linux_prot_to_pal prot 0)) \<or>
        ret < 0 \<and> vma_tree (bk s') = l0 \<and> host_calls s' = host_calls s))"
  (is "?goal s'")
proof (cases "bkeep_mprotect (vmas env) addr len' prot False (bk s) = None \<or>
    prot AND NOT (PROT_READ OR PROT_WRITE OR PROT_EXEC OR PROT_GROWSDOWN OR PROT_GROWSUP OR PROT_SEM) \<noteq> 0 \<or>
    prot AND (PROT_GROWSDOWN OR PROT_GROWSUP) = PROT_GROWSDOWN OR PROT_GROWSUP \<or>
    has_flag prot (PROT_GROWSUP OR PROT_SEM) \<or> addr = 0 \<or> \<not> is_alloc_aligned addr \<or> \<not> access_ok addr len'")
  case True
  then have "ret < 0 \<and> s' = s"
    using res len unfolding libos_syscall_mprotect_def Let_def len'_def [symmetric]
    by (auto split: if_splits)
  then show ?thesis using wf by (auto intro!: exI [of _ "vma_tree (bk s)"])
next
  case False
  then obtain r1 b where bm: "bkeep_mprotect (vmas env) addr len' prot False (bk s) = Some (r1, b)" by fastforce
  have unf: "Some (ret, s') = (if r1 < 0 then Some (r1, s\<lparr>bk := b\<rparr>)
      else (let (found, addr, b) =
                  (if has_flag prot PROT_GROWSDOWN
                   then (case lookup_vma addr b of
                           (ret, Some i, b) \<Rightarrow> (True, iaddr i, put_file (ifile i) b)
                         | (ret, None, b) \<Rightarrow> (False, addr, b))
                   else (True, addr, b));
                s = s\<lparr>bk := b\<rparr>
            in if \<not> found then Some (- ENOTRECOVERABLE, s)
               else (let (ret, s) = host_call (PalVirtualMemoryProtect addr len' (linux_prot_to_pal prot 0)) s
                     in Some (if ret < 0 then pal_to_unix_errno ret else 0, s))))"
    using res False bm len unfolding libos_syscall_mprotect_def Let_def len'_def [symmetric]
    by (auto split: if_splits)
  show ?thesis
  proof (cases "len' = 0")
    case True
    then have "r1 < 0" "b = bk s" using bm by (simp_all add: bkeep_mprotect_def)
    then have "ret < 0" "s' = s" using unf by simp_all
    then show ?thesis using wf by (auto intro!: exI [of _ "vma_tree (bk s)"])
  next
    case len': False
    then have nowrap: "addr < addr + len'" using access_ok_nowrap False by blast
    obtain s0 where e: "vmas_wf (vma_tree b)" "ref_slack b h = ref_slack (bk s) h"
      "vmas_wf (vma_tree s0)" "\<forall>a. kept_at (vma_tree (bk s)) (vma_tree s0) a"
      "r1 = 0 \<and> (\<forall>a. changed_view addr (addr + len') prot (vma_tree s0) (vma_tree b) a) \<or> r1 < 0 \<and> b = s0"
      using bkeep_mprotect_effect [OF wf nowrap bm, of h] by blast
    show ?thesis
    proof (cases "r1 < 0")
      case True
      then have r: "ret = r1" "s' = s\<lparr>bk := b\<rparr>" using unf by simp_all
      have "b = s0" using e(5) True by simp
      then have t: "vma_tree (bk s') = vma_tree s0" "ref_slack (bk s') h = ref_slack (bk s) h"
        "host_calls s' = host_calls s" "ret < 0" using r True e(2) by simp_all
      show ?thesis unfolding t(1,2) by (intro conjI exI [of _ "vma_tree s0"] disjI2 t e(3,4) refl)
    next
      case False
      obtain found addr1 b1 where lk: "(if has_flag prot PROT_GROWSDOWN
          then (case lookup_vma addr b of
                  (ret, Some i, b) \<Rightarrow> (True, iaddr i, put_file (ifile i) b)
                | (ret, None, b) \<Rightarrow> (False, addr, b))
          else (True, addr, b)) = (found, addr1, b1)" by (rule prod_cases3)
      have b1: "vma_tree b1 = vma_tree b" "ref_slack b1 h = ref_slack b h"
        "\<not> has_flag prot PROT_GROWSDOWN \<longrightarrow> found \<and> addr1 = addr"
        using lk by (auto simp: lookup_put_slack dest: lookup_none_keeps split: if_splits prod.splits option.splits)
      obtain r2 s2 where hc: "host_call (PalVirtualMemoryProtect addr1 len' (linux_prot_to_pal prot 0))
          (s\<lparr>bk := b1\<rparr>) = (r2, s2)" by fastforce
      note k2 = host_call_keeps [OF hc]
      have s': "ret < 0 \<and> s' = s\<lparr>bk := b1\<rparr> \<and> \<not> found \<or>
          ret = (if r2 < 0 then pal_to_unix_errno r2 else 0) \<and> s' = s2 \<and> found"
        using unf False unfolding lk by (simp add: Let_def hc split: if_splits)
      then have t: "vma_tree (bk s') = vma_tree b" "ref_slack (bk s') h = ref_slack (bk s) h"
        using b1 k2 e(2) by auto
      have c: "\<forall>a. changed_view addr (addr + len') prot (vma_tree s0) (vma_tree b) a"
        using e(5) False by simp
      have l: "ret = 0 \<and> \<not> has_flag prot PROT_GROWSDOWN \<longrightarrow>
          last (host_calls s') = PalVirtualMemoryProtect addr len' (linux_prot_to_pal prot 0)"
        using s' b1(3) k2 by auto
      show ?thesis unfolding t by (intro conjI exI [of _ "vma_tree s0"] disjI1 c l e(1,3,4) refl)
    qed
  qed
qed

section \<open>System allocations and stacks\<close>

lemma system_malloc_keeps:
  assumes wf: "vmas_wf (vma_tree (bk s))"
    and res: "system_malloc env sz s = Some (r, s')"
  shows "vmas_wf (vma_tree (bk s')) \<and> ref_slack (bk s') h = ref_slack (bk s) h"
proof -
  let ?len = "alloc_align_up sz" and ?flags = "MAP_PRIVATE OR MAP_ANONYMOUS OR VMA_INTERNAL"
  obtain ret addr b where m: "bkeep_mmap_any (vmas env) ?len (PROT_READ OR PROT_WRITE) ?flags None 0 ''slab'' (bk s)
      = (ret, addr, b)" by (rule prod_cases3)
  note e = mmap_any_effect [OF wf order_refl m [unfolded bkeep_mmap_any_def]]
  obtain r2 s2 where hc: "host_call (PalVirtualMemoryAlloc addr ?len (0x2 OR 0x1)) (s\<lparr>bk := b\<rparr>) = (r2, s2)"
    by fastforce
  note k = host_call_keeps [OF hc]
  show ?thesis
  proof (cases "ret < 0 \<or> \<not> r2 < 0")
    case True
    then have "bk s' = b" using res m hc k by (auto simp: system_malloc_def Let_def split: if_splits)
    then show ?thesis using e(1) e(2) [of h] by simp
  next
    case False
    then have ret: "\<not> ret < 0" "r2 < 0" by auto
    then obtain s3 where u: "unmap_failed env addr ?len True s2 = Some s3" "s' = s3"
      using res m hc by (auto simp: system_malloc_def Let_def split: if_splits)
    have nw: "addr < addr + ?len" using e(3) ret by (auto simp: placed_def)
    have w2: "vmas_wf (vma_tree (bk s2))" using e(1) k by simp
    show ?thesis using unmap_failed_effect(1,2) [OF w2 nw u(1)] u(2) k e(2) [of h] by simp
  qed
qed

lemma munmap_pair_keeps:
  assumes wf: "vmas_wf (vma_tree s)" and nowrap: "addr < addr + len"
    and m: "bkeep_munmap env addr len is_internal s = (ret, Some v, b)" and b: "b' = b"
  shows "vmas_wf (vma_tree (bkeep_remove_tmp_vma v b'))"
    "ref_slack (bkeep_remove_tmp_vma v b') h = ref_slack s h"
  using munmap_then_remove(1,2) [OF wf nowrap m] b by simp_all

lemma system_free_keeps:
  assumes wf: "vmas_wf (vma_tree (bk s))" and nowrap: "addr < addr + alloc_align_up sz"
    and res: "system_free env addr sz s = Some s'"
  shows "vmas_wf (vma_tree (bk s')) \<and> ref_slack (bk s') h = ref_slack (bk s) h"
proof -
  let ?len = "alloc_align_up sz"
  obtain ret tmp b where m: "bkeep_munmap (vmas env) addr ?len True (bk s) = (ret, tmp, b)"
    by (rule prod_cases3)
  obtain r2 s2 where hc: "host_call (PalVirtualMemoryFree addr ?len) (s\<lparr>bk := b\<rparr>) = (r2, s2)" by fastforce
  obtain v where v: "tmp = Some v" "s' = s2\<lparr>bk := bkeep_remove_tmp_vma v (bk s2)\<rparr>"
    using res m hc by (auto simp: system_free_def Let_def split: if_splits)
  have "bk s2 = b" using host_call_keeps [OF hc] by simp
  from munmap_pair_keeps [OF wf nowrap m [unfolded v(1)] this] show ?thesis by (simp add: v)
qed

lemma stack_out_fail_keeps:
  assumes wf: "vmas_wf (vma_tree (bk s))" and nowrap: "addr < addr + len"
    and res: "stack_out_fail env addr len need s = Some (r, s')"
  shows "r = None \<and> vmas_wf (vma_tree (bk s')) \<and> ref_slack (bk s') h = ref_slack (bk s) h"
proof -
  obtain ret tmp b where m: "bkeep_munmap (vmas env) addr len False (bk s) = (ret, tmp, b)"
    by (rule prod_cases3)
  obtain r2 s2 where hc: "(if need then host_call (PalVirtualMemoryFree addr len) (s\<lparr>bk := b\<rparr>)
      else (0, s\<lparr>bk := b\<rparr>)) = (r2, s2)" by fastforce
  obtain v where v: "tmp = Some v" "s' = s2\<lparr>bk := bkeep_remove_tmp_vma v (bk s2)\<rparr>" "r = None"
    using res m hc by (auto simp: stack_out_fail_def Let_def split: if_splits prod.splits)
  have "bk s2 = b" using hc host_call_keeps by (fastforce split: if_splits)
  from munmap_pair_keeps [OF wf nowrap m [unfolded v(1)] this] show ?thesis by (simp add: v)
qed

lemma stack_range:
  fixes stack psz sz :: u64
  assumes "unat sz + unat psz < 2 ^ 64" "stack < stack + (sz + psz)" "sz \<noteq> 0"
  shows "stack + psz < stack + psz + sz"
proof -
  have s: "unat (sz + psz) = unat sz + unat psz" using assms(1) by (simp add: unat_plus_if')
  have "unat stack + unat (sz + psz) < 2 ^ 64"
    using assms(2) u64_bound [of "sz + psz"] u64_bound [of stack]
    by (auto simp: word_less_nat_alt unat_plus_if' split: if_splits)
  then have "unat stack + (unat sz + unat psz) < 2 ^ 64" using s by simp
  moreover have "0 < unat sz" using assms(3) by (simp add: unat_gt_0)
  ultimately show ?thesis by (simp add: word_less_nat_alt unat_plus_if')
qed

lemma allocate_stack_keeps:
  assumes wf: "vmas_wf (vma_tree (bk s))" and env: "mm_env_ok env"
    and sizes: "unat (alloc_align_up sz) + unat (alloc_align_up psz) < 2 ^ 64"
    and res: "allocate_stack env sz psz user s = Some (r, s')"
  shows "vmas_wf (vma_tree (bk s')) \<and> ref_slack (bk s') h = ref_slack (bk s) h"
proof (cases user)
  case False
  then show ?thesis
    using res system_malloc_keeps [OF wf, of env "alloc_align_up sz + alloc_align_up psz" _ _ h]
    by (auto simp: allocate_stack_def Let_def)
next
  case usr: True
  let ?sz = "alloc_align_up sz" and ?psz = "alloc_align_up psz"
  let ?len = "?sz + ?psz" and ?flags = "MAP_PRIVATE OR MAP_ANONYMOUS OR MAP_GROWSDOWN"
  obtain ret stack b where m: "bkeep_mmap_any_aslr (vmas env) ?len 0 ?flags None 0 ''stack'' (bk s) = (ret, stack, b)"
    by (rule prod_cases3)
  note e = mmap_any_aslr_effect [OF wf env m]
  obtain r2 s2 where h2: "host_call (PalVirtualMemoryAlloc stack ?len 0) (s\<lparr>bk := b\<rparr>) = (r2, s2)" by fastforce
  note k2 = host_call_keeps [OF h2]
  have w2: "vmas_wf (vma_tree (bk s2))" "ref_slack (bk s2) h = ref_slack (bk s) h"
    using e(1) e(2) [of h] k2 by simp_all
  note res' = res [unfolded allocate_stack_def Let_def m prod.case h2]
  show ?thesis
  proof (cases "ret < 0")
    case True
    then have "s' = s\<lparr>bk := b\<rparr>" using usr res' by simp
    then show ?thesis using e(1) e(2) [of h] by simp
  next
    case False
    then have nw: "stack < stack + ?len" using e(3) by (auto simp: placed_def)
    note out = stack_out_fail_keeps [OF _ nw, of _ env _ r s' h]
    show ?thesis
    proof (cases "r2 < 0")
      case True
      then show ?thesis using usr res' False out [OF w2(1)] w2(2) by simp
    next
      case r2: False
      then obtain r3 b3 where bm: "bkeep_mprotect (vmas env) (stack + ?psz) ?sz (PROT_READ OR PROT_WRITE) False (bk s2)
          = Some (r3, b3)" using usr res' False by (auto split: option.splits)
      have w3: "vmas_wf (vma_tree b3)" "ref_slack b3 h = ref_slack (bk s) h"
      proof -
        have "vmas_wf (vma_tree b3) \<and> ref_slack b3 h = ref_slack (bk s2) h"
        proof (cases "?sz = 0")
          case True
          then show ?thesis using bm w2 by (simp add: bkeep_mprotect_def)
        next
          case False
          show ?thesis using bkeep_mprotect_effect [OF w2(1) stack_range [OF sizes nw False] bm, of h] by simp
        qed
        then show "vmas_wf (vma_tree b3)" "ref_slack b3 h = ref_slack (bk s) h" using w2 by simp_all
      qed
      obtain r4 s4 where h4: "host_call (PalVirtualMemoryProtect (stack + ?psz) ?sz 0x3) (s2\<lparr>bk := b3\<rparr>) = (r4, s4)"
        by fastforce
      note k4 = host_call_keeps [OF h4]
      have "stack_out_fail env stack ?len True (s2\<lparr>bk := b3\<rparr>) = Some (r, s') \<or>
          stack_out_fail env stack ?len True s4 = Some (r, s') \<or> s' = s4"
        using usr res' False r2 bm h4 by (auto split: if_splits)
      then show ?thesis
        using out [of "s2\<lparr>bk := b3\<rparr>"] out [of s4] w3 k4 by auto
    qed
  qed
qed

lemma bkeep_initial_vmas_wf:
  assumes "vmas_wf (vma_tree s)" "bkeep_initial_vmas vs s = (ret, s')"
    "\<forall>v \<in> set vs. vbegin v \<le> vend v \<and> length (vcomment v) < VMA_COMMENT_LEN"
  shows "vmas_wf (vma_tree s')"
  using assms
proof (induction vs s rule: bkeep_initial_vmas.induct)
  case (2 v vs s)
  show ?case
  proof (cases "vbegin v = vend v \<or> \<not> is_alloc_aligned (vbegin v) \<or> \<not> is_alloc_aligned (vend v) \<or>
      overlaps_next (vbegin v) (vend v) (vma_tree s)")
    case True
    then show ?thesis using 2 by (auto simp: bkeep_initial_vma_def Let_def split: if_splits)
  next
    case False
    have v: "vma_ok v" using False "2.prems"(3) by (auto simp: vma_ok_def)
    from insert_in_free_range(1) [OF "2.prems"(1) v] have "vmas_wf (vma_insert v (vma_tree s))" using False by simp
    then show ?thesis using 2 False by (simp add: bkeep_initial_vma_def)
  qed
qed simp

end
