(* ===== verification/User_Memory.thy ===== *)
theory User_Memory
  imports Mmap_Ops
begin

text \<open>
  The checks of pointers that system calls get from the application, \<^verbatim>\<open>test_user_memory\<close> and
  \<^verbatim>\<open>is_user_string_readable\<close> of \<^verbatim>\<open>libos_signal.c\<close>: a string is checked page by page, and this is the
  same as checking all its bytes.
\<close>

text \<open>The bytes of a page belong to one area, since areas are aligned.\<close>

lemma aligned_less_down:
  assumes "is_alloc_aligned b" "alloc_align_down x = alloc_align_down y"
  shows "x < b \<longleftrightarrow> y < b"
proof -
  have "unat x - unat x mod 4096 = unat y - unat y mod 4096"
    using assms(2) unat_align_down by metis
  then have "4096 * (unat x div 4096) = 4096 * (unat y div 4096)" by (simp add: minus_mod_eq_mult_div)
  then have d: "unat x div 4096 = unat y div 4096" by simp
  have "unat b mod 4096 = 0" using assms(1) by (simp add: aligned_mod)
  then obtain k where k: "unat b = 4096 * k" by auto
  have "u < 4096 * k \<longleftrightarrow> u div 4096 < k" for u :: nat
    by (simp add: div_less_iff_less_mult mult.commute)
  then show ?thesis unfolding word_less_nat_alt k d by (simp add: d)
qed

lemma user_page_same_page:
  assumes wf: "vmas_wf l" and pg: "alloc_align_down x = alloc_align_down y"
  shows "user_page prot (view l x) = user_page prot (view l y)"
  using wf
proof (induction l)
  case (Cons v l)
  have "vbegin v \<le> x \<longleftrightarrow> vbegin v \<le> y" "x < vend v \<longleftrightarrow> y < vend v"
    using Cons.prems aligned_less_down [OF _ pg] by (auto simp: wf_simps vma_ok_def not_less [symmetric])
  then show ?case using Cons by (auto simp: view_Cons wf_simps user_page_def page_def)
qed (simp add: view_Nil)

lemma unat_add_of_nat:
  assumes "unat (addr :: u64) + i < 2 ^ 64"
  shows "unat (addr + of_nat i) = unat addr + i"
proof -
  have "unat (of_nat i :: u64) = i" using assms by (simp add: unat_of_nat take_bit_nat_eq_self)
  then show ?thesis using assms by (simp add: unat_plus_if')
qed

lemma page_chunk_same_page:
  assumes "unat (addr :: u64) + unat len < 2 ^ 64" "is_alloc_aligned (addr + len)" "unat len \<le> 4096"
    "i < unat len"
  shows "alloc_align_down (addr + of_nat i) = alloc_align_down addr"
proof -
  have sum: "unat (addr + len) = unat addr + unat len" using assms(1) by (simp add: unat_plus_if')
  then obtain k where k: "unat addr + unat len = 4096 * k" using assms(2) aligned_mod by fastforce
  have k0: "0 < k" using k assms(4) by (cases k) auto
  have d: "u div 4096 = k - 1" if "unat addr \<le> u" "u < unat addr + unat len" for u
  proof -
    have "4096 * (k - 1) \<le> u" using that k assms(3) by (simp add: right_diff_distrib')
    moreover have "u < 4096 * Suc (k - 1)" using that k k0 by simp
    ultimately show ?thesis by (intro div_nat_eqI) (simp_all add: mult.commute)
  qed
  have u: "unat (addr + of_nat i) = unat addr + i" using assms(1,4) by (intro unat_add_of_nat) simp
  have "unat (alloc_align_down (addr + of_nat i)) = unat (alloc_align_down addr)"
    unfolding unat_align_down minus_mod_eq_mult_div u
    using d [of "unat addr + i"] d [of "unat addr"] assms(4) by simp
  then show ?thesis by (rule unsigned_word_eqI)
qed

definition readable_string :: "(u64 \<Rightarrow> 8 word) \<Rightarrow> libos_vma list \<Rightarrow> u64 \<Rightarrow> nat \<Rightarrow> bool" where
  "readable_string mem l addr n \<longleftrightarrow>
     unat addr + n < 2 ^ 64 \<and> (\<forall>i \<le> n. user_page PROT_READ (view l (addr + of_nat i))) \<and>
     (\<forall>i < n. mem (addr + of_nat i) \<noteq> 0) \<and> mem (addr + of_nat n) = 0"

lemma strnlen_full_iff:
  "strnlen mem addr len \<noteq> unat len \<longleftrightarrow> (\<exists>n < unat len. mem (addr + of_nat n) = 0)"
proof -
  let ?P = "\<lambda>i. mem (addr + of_nat i) \<noteq> 0"
  have "length (takeWhile ?P xs) = length xs \<longleftrightarrow> takeWhile ?P xs = xs" for xs
    by (metis append_eq_conv_conj takeWhile_dropWhile_id take_all order_refl)
  from this [of "[0..<unat len]"]
  have "length (takeWhile ?P [0..<unat len]) = unat len \<longleftrightarrow> takeWhile ?P [0..<unat len] = [0..<unat len]" by simp
  also have "\<dots> \<longleftrightarrow> (\<forall>i < unat len. ?P i)" by (auto simp: takeWhile_eq_all_conv)
  finally show ?thesis by (auto simp: strnlen_def)
qed

lemma readable_string_skip:
  assumes sum: "unat addr + unat len < 2 ^ 64"
    and page: "\<forall>i < unat len. user_page PROT_READ (view l (addr + of_nat i)) \<and> mem (addr + of_nat i) \<noteq> 0"
  shows "(\<exists>n. readable_string mem l addr n) \<longleftrightarrow> (\<exists>n. readable_string mem l (addr + len) n)"
proof -
  have shift: "addr + of_nat (unat len + i) = addr + len + of_nat i" for i by (simp add: ac_simps)
  have u: "unat (addr + len) = unat addr + unat len" using sum by (simp add: unat_plus_if')
  show ?thesis
  proof
    assume "\<exists>n. readable_string mem l addr n"
    then obtain n where n: "readable_string mem l addr n" by blast
    then have le: "unat len \<le> n" using page by (metis not_less readable_string_def)
    then obtain m where m: "n = unat len + m" using le_Suc_ex by blast
    have "user_page PROT_READ (view l (addr + len + of_nat i))" if "i \<le> m" for i
      using n that shift [of i] unfolding readable_string_def m by (metis nat_add_left_cancel_le)
    moreover have "mem (addr + len + of_nat i) \<noteq> 0" if "i < m" for i
      using n that shift [of i] unfolding readable_string_def m by (metis nat_add_left_cancel_less)
    ultimately have "readable_string mem l (addr + len) m"
      using n shift [of m] by (simp add: readable_string_def m u add.assoc)
    then show "\<exists>n. readable_string mem l (addr + len) n" by blast
  next
    assume "\<exists>n. readable_string mem l (addr + len) n"
    then obtain m where m: "readable_string mem l (addr + len) m" by blast
    have "user_page PROT_READ (view l (addr + of_nat i))" if "i \<le> unat len + m" for i
    proof (cases "i < unat len")
      case False
      then obtain j where j: "i = unat len + j" using le_Suc_ex not_less by blast
      then show ?thesis using m that by (simp add: readable_string_def add.assoc)
    qed (use page in simp)
    moreover have "mem (addr + of_nat i) \<noteq> 0" if "i < unat len + m" for i
    proof (cases "i < unat len")
      case False
      then obtain j where j: "i = unat len + j" using le_Suc_ex not_less by blast
      then show ?thesis using m that by (simp add: readable_string_def add.assoc)
    qed (use page in simp)
    ultimately have "readable_string mem l addr (unat len + m)"
      using m u by (simp add: readable_string_def add.assoc)
    then show "\<exists>n. readable_string mem l addr n" by blast
  qed
qed

lemma access_ok_sum:
  assumes "access_ok addr len"
  shows "unat addr + unat len < 2 ^ 64"
proof -
  have "\<not> addr + len < len" using assms by (simp add: access_ok_def)
  then show ?thesis
    using u64_bound [of addr] u64_bound [of len]
    by (auto simp: word_less_nat_alt unat_plus_if' not_less split: if_splits)
qed

text \<open>A range that ends in the last page of the address space or beyond it is not accessible.\<close>

lemma not_access_ok_high:
  assumes "\<not> access_ok addr len" "unat len \<le> 4096"
  shows "2 ^ 64 - 8192 \<le> unat addr"
proof (cases "addr + len < len")
  case True
  then have "2 ^ 64 \<le> unat addr + unat len"
    using u64_bound [of addr] u64_bound [of len]
    by (auto simp: word_less_nat_alt unat_plus_if' split: if_splits)
  then show ?thesis using assms(2) by simp
next
  case False
  then have s: "unat (addr + len) = unat addr + unat len"
    using u64_bound [of addr] u64_bound [of len]
    by (auto simp: word_less_nat_alt unat_plus_if' not_less split: if_splits)
  have "alloc_align_down (addr + len) = NOT (0x1000 - 1)"
    using assms(1) False by (simp add: access_ok_def alloc_align_down_and)
  then have "unat (alloc_align_down (addr + len)) = 2 ^ 64 - 4096" by simp
  then have "2 ^ 64 - 4096 \<le> unat (addr + len)" unfolding unat_align_down by simp
  then show ?thesis using s assms(2) by simp
qed

lemma high_not_user:
  assumes "\<forall>v \<in> set l. unat (vend v) \<le> 2 ^ 64 - 8192" "2 ^ 64 - 8192 \<le> unat addr"
  shows "view l addr = None"
  using assms by (auto simp: view_None_iff word_less_nat_alt)

lemma is_user_string_loop_iff:
  assumes wf: "vmas_wf l" and high: "\<forall>v \<in> set l. unat (vend v) \<le> 2 ^ 64 - 8192"
    and chunk: "next_page_addr = addr + len" "is_alloc_aligned next_page_addr" "0 < unat len" "unat len \<le> 4096"
  shows "is_user_string_loop mem l addr next_page_addr len \<longleftrightarrow> (\<exists>n. readable_string mem l addr n)"
  using wf high chunk
proof (induction mem l addr next_page_addr len rule: is_user_string_loop.induct)
  case (1 mem l addr next_page_addr len)
  note wf = "1.prems"(1) and high = "1.prems"(2) and chunk = "1.prems"(3-6)
  have first: "user_page PROT_READ (view l addr)" if "readable_string mem l addr n" for n
    using that by (auto simp: readable_string_def dest: spec [of _ 0])
  show ?case
  proof (cases "access_ok addr len \<and> user_page PROT_READ (view l addr)")
    case False
    then consider "\<not> access_ok addr len" | "access_ok addr len" "\<not> user_page PROT_READ (view l addr)" by blast
    then show ?thesis
    proof cases
      case 1
      then have "view l addr = None" using high_not_user [OF high] not_access_ok_high chunk(4) by blast
      then show ?thesis using 1 first by (auto simp: is_user_string_loop.simps [of mem l addr])
    next
      case 2
      have "addr \<le> addr" "addr < addr + len"
        using access_ok_nowrap [OF 2(1)] chunk(3) by (auto simp: unat_gt_0)
      then have "\<not> is_in_adjacent_user_vmas addr len PROT_READ l"
        using is_in_adjacent_user_vmas_iff [OF wf, of addr len PROT_READ] 2(2) by auto
      then show ?thesis using 2 first by (auto simp: is_user_string_loop.simps [of mem l addr])
    qed
  next
    case True
    then have ok: "access_ok addr len" and pg: "user_page PROT_READ (view l addr)" by auto
    have sum: "unat addr + unat len < 2 ^ 64" using access_ok_sum [OF ok] .
    have nw: "addr < addr + len" using access_ok_nowrap [OF ok] chunk(3) by (auto simp: unat_gt_0)
    have same: "user_page PROT_READ (view l (addr + of_nat i))" if "i < unat len" for i
      using user_page_same_page [OF wf page_chunk_same_page [OF sum chunk(2) [unfolded chunk(1)] chunk(4) that]]
        pg by simp
    have in_chunk: "user_page PROT_READ (view l a)" if "addr \<le> a" "a < addr + len" for a
    proof -
      define i where "i = unat a - unat addr"
      have u: "unat (addr + len) = unat addr + unat len" using sum by (simp add: unat_plus_if')
      have i: "i < unat len" "unat a = unat addr + i"
        using that u by (auto simp: i_def word_less_nat_alt word_le_nat_alt)
      then have "unat a = unat (addr + of_nat i)" using unat_add_of_nat [of addr i] sum by simp
      then have "a = addr + of_nat i" by (rule unsigned_word_eqI)
      then show ?thesis using same i by simp
    qed
    then have adj: "is_in_adjacent_user_vmas addr len PROT_READ l"
      using is_in_adjacent_user_vmas_iff [OF wf, of addr len PROT_READ] nw by auto
    show ?thesis
    proof (cases "strnlen mem addr len \<noteq> unat len")
      case True
      then obtain m where m: "m < unat len" "mem (addr + of_nat m) = 0" using strnlen_full_iff by blast
      define n where "n = (LEAST n. mem (addr + of_nat n) = 0)"
      have n: "mem (addr + of_nat n) = 0" "n \<le> m" "\<forall>i < n. mem (addr + of_nat i) \<noteq> 0"
        unfolding n_def using m(2) by (auto intro: LeastI Least_le dest: not_less_Least)
      then have "readable_string mem l addr n"
        using m(1) sum same by (auto simp: readable_string_def)
      then show ?thesis using True ok adj by (auto simp: is_user_string_loop.simps [of mem l addr])
    next
      case False
      then have "\<forall>i < unat len. mem (addr + of_nat i) \<noteq> 0" using strnlen_full_iff by blast
      then have skip: "(\<exists>n. readable_string mem l addr n) \<longleftrightarrow> (\<exists>n. readable_string mem l (addr + len) n)"
        using readable_string_skip [OF sum] same by blast
      have "is_alloc_aligned 0x1000" by (simp add: is_alloc_aligned_def)
      then have al: "is_alloc_aligned (next_page_addr + 0x1000)" using chunk(2) by blast
      have "is_user_string_loop mem l next_page_addr (next_page_addr + 0x1000) 0x1000 \<longleftrightarrow>
          (\<exists>n. readable_string mem l next_page_addr n)"
        by (rule "1.IH") (use ok adj False nw chunk wf high al in auto)
      then show ?thesis
        using ok adj False leD [of "addr + len" addr] nw chunk(1) skip
        by (auto simp: is_user_string_loop.simps [of mem l addr])
    qed
  qed
qed

text \<open>
  The check of a string pointer is the check of the memory up to and including the terminator, as
  the comment of \<^verbatim>\<open>is_user_string_readable\<close> says.
\<close>

lemma is_user_string_readable_iff:
  assumes wf: "vmas_wf (vma_tree (bk s))" and high: "\<forall>v \<in> set (vma_tree (bk s)). unat (vend v) \<le> 2 ^ 64 - 8192"
    and on: "g_check_invalid_ptrs env"
  shows "is_user_string_readable env mem addr s \<longleftrightarrow> (\<exists>n. readable_string mem (vma_tree (bk s)) addr n)"
proof -
  define nxt where "nxt = alloc_align_up (addr + 1)"
  have al: "is_alloc_aligned nxt" by (simp add: nxt_def)
  have nd: "nxt = alloc_align_down (addr + 0x1000)" by (simp add: nxt_def alloc_align_up_def add.commute)
  have d: "nxt - addr = 0x1000 - take_bit 12 addr"
  proof -
    have "unat (addr + 0x1000) mod 4096 = unat addr mod 4096"
      by (simp add: unat_word_ariths mod_mod_cancel)
    then have "unat (take_bit 12 (addr + 0x1000)) = unat (take_bit 12 addr)" by (simp only: unat_take_bit12)
    then have "take_bit 12 (addr + 0x1000) = take_bit 12 addr" by (rule unsigned_word_eqI)
    then show ?thesis using nd by (simp add: alloc_align_down_diff)
  qed
  have "take_bit 12 addr \<le> 0x1000" by (simp add: word_le_nat_alt unat_take_bit12)
  then have "unat (nxt - addr) = 4096 - unat addr mod 4096"
    unfolding d by (simp add: unat_sub unat_take_bit12)
  then have "0 < unat (nxt - addr)" "unat (nxt - addr) \<le> 4096" by simp_all
  from is_user_string_loop_iff [OF wf high _ al this, of addr mem]
  show ?thesis using on by (simp add: is_user_string_readable_def Let_def nxt_def)
qed

end
