(* ===== verification/Vma_Tree.thy ===== *)
theory Vma_Tree
  imports Avl_Tree Vma_Inv
begin

text \<open>
  The areas in the AVL tree of \<^verbatim>\<open>avl_tree.c\<close>: the order of the areas is a total order, and the tree
  operations that \<^verbatim>\<open>libos_vma.c\<close> calls compute the functions on the sequence of areas that model them.
\<close>

interpretation vma_order: tree_order vma_tree_cmp
  by unfold_locales (auto simp: vma_tree_cmp_def)

lemma vmas_wf_sorted:
  assumes "vmas_wf l"
  shows "sorted_wrt vma_tree_cmp l" "sorted_wrt (\<lambda>v w. cmp_addr_to_vma addr v \<longrightarrow> cmp_addr_to_vma addr w) l"
proof -
  have "sorted_wrt (\<lambda>v w. vend v < vend w) l"
    by (rule sorted_wrt_mono_rel [of l "\<lambda>v w. vend v \<le> vbegin w"])
      (use assms in \<open>auto simp: vmas_wf_def vma_ok_def intro: order_le_less_trans\<close>)
  then show "sorted_wrt vma_tree_cmp l" "sorted_wrt (\<lambda>v w. cmp_addr_to_vma addr v \<longrightarrow> cmp_addr_to_vma addr w) l"
    by (auto elim!: sorted_wrt_mono_rel [rotated] simp: vma_tree_cmp_def cmp_addr_to_vma_def)
qed

text \<open>Insertion, the lookup by address with its neighbours, and deletion of a node.\<close>

lemma tree_vma_insert:
  assumes "balanced t" "vmas_wf (inorder t)"
  shows "\<exists>t'. avl_tree_insert vma_tree_cmp v t = Some t' \<and> balanced t' \<and> inorder t' = vma_insert v (inorder t)"
  unfolding vma_insert_def by (rule vma_order.avl.ins_ok [OF assms(1) vmas_wf_sorted(1) [OF assms(2)]])

lemma tree_lookup_vma:
  assumes wf: "vmas_wf (inorder t)"
  shows "case avl_tree_lower_bound_fn cmp_addr_to_vma addr t of
      None \<Rightarrow> vmas_from addr (inorder t) = []
    | Some z \<Rightarrow> \<exists>v. node_at t z v \<and> vmas_before addr (inorder t) = node_before z \<and>
        vmas_from addr (inorder t) = v # node_after z"
proof -
  have split: "vmas_before addr (inorder t) @ vmas_from addr (inorder t) = inorder t"
    by (simp add: vmas_before_def vmas_from_def)
  have "node_from t (vmas_before addr (inorder t)) (avl_tree_lower_bound_fn cmp_addr_to_vma addr t)"
    unfolding vmas_before_def by (rule lower_bound_from [OF vmas_wf_sorted(2) [OF wf]])
  then show ?thesis
  proof (cases "avl_tree_lower_bound_fn cmp_addr_to_vma addr t")
    case None
    then have "vmas_before addr (inorder t) = inorder t"
      using \<open>node_from t _ _\<close> by (simp add: node_from_def)
    then show ?thesis using None split by simp
  next
    case (Some z)
    then obtain v where "node_at t z v" "node_before z = vmas_before addr (inorder t)"
      using \<open>node_from t _ _\<close> by (auto simp: node_from_def)
    moreover from this have "vmas_from addr (inorder t) = v # node_after z"
      using split node_at_inorder by (metis same_append_eq)
    ultimately show ?thesis using Some by auto
  qed
qed

lemma vmas_wf_distinct:
  assumes "vmas_wf (xs @ v # ys)"
  shows "v \<notin> set xs"
  using assms by (auto simp: wf_simps vma_ok_def dest!: bspec)

lemma tree_vma_delete:
  assumes "balanced t" "vmas_wf (inorder t)" "node_at t z v"
  shows "\<exists>t'. avl_tree_delete z = Some t' \<and> balanced t' \<and> inorder t' = remove1 v (inorder t)"
proof -
  from vma_order.avl.del_ok [OF assms(1,3)] obtain t' where
    t': "avl_tree_delete z = Some t'" "balanced t'" "inorder t' = node_before z @ node_after z" by blast
  have i: "inorder t = node_before z @ v # node_after z" using node_at_inorder [OF assms(3)] .
  then have "v \<notin> set (node_before z)" using assms(2) vmas_wf_distinct by simp
  then show ?thesis using t' i by (simp add: remove1_append)
qed

end
