(* ===== verification/Vma_Cache.thy ===== *)
theory Vma_Cache
  imports Prelude
begin

text \<open>
  The per-thread cache of free areas in \<^verbatim>\<open>libos_vma.c\<close>: a singly linked list of at most three objects
  whose head pointer, kept in the TCB, carries the length of the list in its two lowest bits. The
  pointers are modelled as 64-bit words, the \<^verbatim>\<open>next_free\<close> fields as a memory from addresses to
  pointers. The assertion in \<open>create_cache_ptr\<close> that the length is at most three has no effect in the
  modelled build; its callers pass no greater length.
\<close>

section \<open>Operations\<close>

abbreviation VMA_CACHE_SIZE :: u64 where "VMA_CACHE_SIZE \<equiv> 3"

record vma_cache =
  tcb_vma_cache :: u64
  next_free :: "u64 \<Rightarrow> u64"

definition cache2ptr :: "u64 \<Rightarrow> u64" where
  "cache2ptr vma = vma AND NOT VMA_CACHE_SIZE"

definition create_cache_ptr :: "u64 \<Rightarrow> u64 \<Rightarrow> u64" where
  "create_cache_ptr vma sz = vma OR sz"

definition cache2size :: "u64 \<Rightarrow> u64" where
  "cache2size vma = vma AND VMA_CACHE_SIZE"

definition get_from_thread_vma_cache :: "vma_cache \<Rightarrow> u64 \<times> vma_cache" where
  "get_from_thread_vma_cache c =
     (let vma = cache2ptr (tcb_vma_cache c)
      in if vma = 0 then (0, c) else (vma, c\<lparr>tcb_vma_cache := next_free c vma\<rparr>))"

definition add_to_thread_vma_cache :: "u64 \<Rightarrow> vma_cache \<Rightarrow> bool \<times> vma_cache" where
  "add_to_thread_vma_cache vma c =
     (let ptr = tcb_vma_cache c;
          sz = cache2size ptr
      in if sz \<ge> VMA_CACHE_SIZE then (False, c)
         else (True, c\<lparr>next_free := (next_free c)(vma := ptr),
                       tcb_vma_cache := create_cache_ptr vma (sz + 1)\<rparr>))"

text \<open>
  The two loops of \<^verbatim>\<open>remove_from_thread_vma_cache\<close>. The fuel bounds the number of rounds; a list of
  at most three objects needs no more than four.
\<close>

fun cache_find :: "nat \<Rightarrow> (u64 \<Rightarrow> u64) \<Rightarrow> u64 \<Rightarrow> u64 \<Rightarrow> bool" where
  "cache_find 0 nf to_remove vma = False"
| "cache_find (Suc fuel) nf to_remove vma =
     (if vma = 0 then False
      else if cache2ptr (nf vma) = to_remove then True
      else cache_find fuel nf to_remove (cache2ptr (nf vma)))"

fun cache_relink :: "nat \<Rightarrow> (u64 \<Rightarrow> u64) \<Rightarrow> u64 \<Rightarrow> u64 \<Rightarrow> (u64 \<Rightarrow> u64)" where
  "cache_relink 0 nf to_remove vma = nf"
| "cache_relink (Suc fuel) nf to_remove vma =
     (if vma = 0 then nf
      else (let nxt = cache2ptr (nf vma)
            in if nxt = to_remove then nf(vma := nf nxt)
               else cache_relink fuel (nf(vma := create_cache_ptr nxt (cache2size (nf vma) - 1)))
                      to_remove nxt))"

definition remove_from_thread_vma_cache :: "u64 \<Rightarrow> vma_cache \<Rightarrow> vma_cache" where
  "remove_from_thread_vma_cache to_remove c =
     (let first_vma = cache2ptr (tcb_vma_cache c)
      in if first_vma = to_remove then c\<lparr>tcb_vma_cache := next_free c first_vma\<rparr>
         else if \<not> cache_find 4 (next_free c) to_remove first_vma then c
         else c\<lparr>tcb_vma_cache := create_cache_ptr first_vma (cache2size first_vma - 1),
                next_free := cache_relink 4 (next_free c) to_remove first_vma\<rparr>)"

section \<open>The list of cached objects\<close>

definition vma_ptr_ok :: "u64 \<Rightarrow> bool" where
  "vma_ptr_ok p \<longleftrightarrow> p \<noteq> 0 \<and> p AND VMA_CACHE_SIZE = 0"

fun cache_chain :: "(u64 \<Rightarrow> u64) \<Rightarrow> u64 \<Rightarrow> u64 list \<Rightarrow> bool" where
  "cache_chain nf ptr [] = (ptr = 0)"
| "cache_chain nf ptr (x # xs) =
     (ptr = create_cache_ptr x (of_nat (Suc (length xs))) \<and> vma_ptr_ok x \<and> cache_chain nf (nf x) xs)"

definition cache_holds :: "vma_cache \<Rightarrow> u64 list \<Rightarrow> bool" where
  "cache_holds c xs \<longleftrightarrow> cache_chain (next_free c) (tcb_vma_cache c) xs \<and> distinct xs \<and> length xs \<le> 3"

lemma word_split_low: "(x :: u64) AND VMA_CACHE_SIZE = 0 \<Longrightarrow> x AND NOT VMA_CACHE_SIZE = x"
proof -
  assume "x AND VMA_CACHE_SIZE = 0"
  moreover have "x = (x AND VMA_CACHE_SIZE) OR (x AND NOT VMA_CACHE_SIZE)"
    by (simp only: bit.conj_disj_distrib [symmetric] bit.disj_cancel_right bit.conj_one_right)
  ultimately show ?thesis by (metis or.left_neutral)
qed

lemma tag_small:
  assumes "n \<le> 3"
  shows "of_nat n AND VMA_CACHE_SIZE = (of_nat n :: u64)" "of_nat n AND NOT VMA_CACHE_SIZE = (0 :: u64)"
proof -
  consider "n = 0" | "n = 1" | "n = 2" | "n = 3" using assms by linarith
  then show "of_nat n AND VMA_CACHE_SIZE = (of_nat n :: u64)" by cases simp_all
  consider "n = 0" | "n = 1" | "n = 2" | "n = 3" using assms by linarith
  then show "of_nat n AND NOT VMA_CACHE_SIZE = (0 :: u64)" by cases simp_all
qed

lemma tagged_pointer:
  assumes "vma_ptr_ok x" "n \<le> 3"
  shows "cache2ptr (create_cache_ptr x (of_nat n)) = x"
    "cache2size (create_cache_ptr x (of_nat n)) = of_nat n"
  using assms tag_small [OF assms(2)] word_split_low
  by (simp_all add: cache2ptr_def cache2size_def create_cache_ptr_def vma_ptr_ok_def
      bit.conj_disj_distrib2)

lemma cache_chain_upd:
  "x \<notin> set xs \<Longrightarrow> cache_chain (nf(x := p)) ptr xs = cache_chain nf ptr xs"
  by (induction xs arbitrary: ptr) auto

lemma cache_chain_tag:
  assumes "cache_chain nf ptr xs" "length xs \<le> 3"
  shows "cache2ptr ptr = (case xs of [] \<Rightarrow> 0 | x # _ \<Rightarrow> x)" "cache2size ptr = of_nat (length xs)"
proof -
  show "cache2ptr ptr = (case xs of [] \<Rightarrow> 0 | x # _ \<Rightarrow> x)"
    using assms tagged_pointer(1) [of "hd xs" "length xs"]
    by (cases xs) (auto simp: cache2ptr_def)
  show "cache2size ptr = of_nat (length xs)"
    using assms tagged_pointer(2) [of "hd xs" "length xs"]
    by (cases xs) (auto simp: cache2size_def)
qed

lemma get_from_cache:
  assumes "cache_holds c xs"
  shows "case xs of
      [] \<Rightarrow> get_from_thread_vma_cache c = (0, c)
    | x # ys \<Rightarrow> \<exists>c'. get_from_thread_vma_cache c = (x, c') \<and> x \<noteq> 0 \<and> cache_holds c' ys"
proof (cases xs)
  case Nil
  then show ?thesis using assms
    by (simp add: get_from_thread_vma_cache_def cache_holds_def cache2ptr_def)
next
  case (Cons x ys)
  have "cache2ptr (tcb_vma_cache c) = x" "x \<noteq> 0"
    using assms Cons cache_chain_tag(1) [of "next_free c" "tcb_vma_cache c" xs]
    by (auto simp: cache_holds_def vma_ptr_ok_def)
  then show ?thesis using assms Cons
    by (auto simp: get_from_thread_vma_cache_def cache_holds_def Let_def)
qed

lemma add_to_cache:
  assumes "cache_holds c xs" "vma_ptr_ok x" "x \<notin> set xs"
  shows "if length xs < 3 then \<exists>c'. add_to_thread_vma_cache x c = (True, c') \<and> cache_holds c' (x # xs)
    else add_to_thread_vma_cache x c = (False, c)"
proof -
  have len: "length xs \<le> 3" using assms(1) by (simp add: cache_holds_def)
  have sz: "cache2size (tcb_vma_cache c) = of_nat (length xs)"
    using assms(1) cache_chain_tag(2) by (auto simp: cache_holds_def)
  have lt: "(of_nat (length xs) :: u64) \<ge> VMA_CACHE_SIZE \<longleftrightarrow> \<not> length xs < 3"
  proof -
    consider "length xs = 0" | "length xs = 1" | "length xs = 2" | "length xs = 3" using len by linarith
    then show ?thesis by cases (simp_all add: word_le_nat_alt)
  qed
  show ?thesis using assms sz lt
    by (auto simp: add_to_thread_vma_cache_def cache_holds_def Let_def cache_chain_upd add.commute)
qed

lemma remove_head_from_cache:
  assumes "cache_holds c (x # xs)"
  shows "cache_holds (remove_from_thread_vma_cache x c) xs"
proof -
  have "cache2ptr (tcb_vma_cache c) = x"
    using assms cache_chain_tag(1) [of "next_free c" "tcb_vma_cache c" "x # xs"]
    by (auto simp: cache_holds_def)
  then show ?thesis using assms
    by (auto simp: remove_from_thread_vma_cache_def cache_holds_def)
qed

lemma cache_find_absent:
  assumes "cache_chain nf ptr xs" "length xs \<le> 3" "x \<notin> set xs" "x \<noteq> 0"
  shows "\<not> cache_find fuel nf x (cache2ptr ptr)"
  using assms
proof (induction fuel arbitrary: ptr xs)
  case (Suc fuel)
  show ?case
  proof (cases xs)
    case Nil
    then show ?thesis using Suc.prems by (simp add: cache2ptr_def)
  next
    case (Cons y ys)
    have ch: "cache_chain nf (nf y) ys" "length ys \<le> 3" "x \<notin> set ys" using Suc.prems Cons by auto
    have y: "cache2ptr ptr = y" using cache_chain_tag(1) [OF Suc.prems(1,2)] Cons by simp
    have "cache2ptr (nf y) \<noteq> x" using cache_chain_tag(1) [OF ch(1,2)] ch(3) Suc.prems(4)
      by (cases ys) auto
    with Suc.IH [OF ch(1,2,3) Suc.prems(4)] y show ?thesis by simp
  qed
qed simp

lemma remove_absent_from_cache:
  assumes "cache_holds c xs" "x \<notin> set xs" "x \<noteq> 0"
  shows "remove_from_thread_vma_cache x c = c"
proof -
  have ch: "cache_chain (next_free c) (tcb_vma_cache c) xs" "length xs \<le> 3"
    using assms(1) by (auto simp: cache_holds_def)
  have "cache2ptr (tcb_vma_cache c) \<noteq> x"
    using cache_chain_tag(1) [OF ch] assms(2,3) by (cases xs) auto
  then show ?thesis using cache_find_absent [OF ch assms(2,3), of 4]
    by (simp add: remove_from_thread_vma_cache_def Let_def)
qed

text \<open>Removing an object that is not the first one: the head pointer becomes all ones.\<close>

lemma remove_second_from_cache:
  assumes "cache_holds c (x # y # ys)"
  shows "tcb_vma_cache (remove_from_thread_vma_cache y c) = - 1"
proof -
  have ch: "cache_chain (next_free c) (tcb_vma_cache c) (x # y # ys)" "length (x # y # ys) \<le> 3"
    "x \<noteq> y" "vma_ptr_ok x"
    using assms by (auto simp: cache_holds_def)
  have x: "cache2ptr (tcb_vma_cache c) = x" using cache_chain_tag(1) [OF ch(1,2)] by simp
  have y: "cache2ptr (next_free c x) = y"
    using cache_chain_tag(1) [of "next_free c" "next_free c x" "y # ys"] ch by simp
  have "cache_find 4 (next_free c) y x"
    using y ch(4) by (simp add: vma_ptr_ok_def numeral_eq_Suc)
  moreover have "cache2size x = 0" using ch(4) by (simp add: cache2size_def vma_ptr_ok_def)
  ultimately show ?thesis using x ch(3)
    by (simp add: remove_from_thread_vma_cache_def Let_def create_cache_ptr_def)
qed

end
