(* ===== verification/Vma_Props.thy ===== *)
theory Vma_Props
  imports Vma_Tree Vma_Change Vma_Query Vma_Cache
begin

text \<open>
  The properties of the address space bookkeeping: the tree behind the sequence of areas, the search
  for free space, the range checks, the dumps, the cache of a thread, and two flaws of the
  implementation.
\<close>

text \<open>A free place of the right size between two addresses.\<close>

definition gap_at :: "u64 \<Rightarrow> u64 \<Rightarrow> u64 \<Rightarrow> libos_vma list \<Rightarrow> u64 \<Rightarrow> bool" where
  "gap_at bottom_addr top_addr len l x \<longleftrightarrow>
     bottom_addr \<le> x \<and> unat x + unat len \<le> unat top_addr \<and>
     (\<forall>a. x \<le> a \<and> unat a < unat x + unat len \<longrightarrow> view l a = None)"

lemma fits_unat: "fits x len b \<longleftrightarrow> unat x + unat len \<le> unat b"
proof
  assume f: "fits x len b"
  then have "x \<le> b" "len \<le> b - x" by (simp_all add: fits_def)
  moreover have "unat (b - x) = unat b - unat x" using \<open>x \<le> b\<close> by (simp add: unat_sub)
  ultimately show "unat x + unat len \<le> unat b" by (simp add: word_le_nat_alt)
next
  assume le: "unat x + unat len \<le> unat b"
  then have "x \<le> b" by (simp add: word_le_nat_alt)
  moreover from this have "unat (b - x) = unat b - unat x" by (simp add: unat_sub)
  ultimately show "fits x len b" using le by (simp add: fits_def word_le_nat_alt)
qed

lemma gap_at_fits:
  assumes wf: "vmas_wf l" and len: "len \<noteq> 0"
  shows "gap_at bottom_addr top_addr len l x \<longleftrightarrow>
    bottom_addr \<le> x \<and> fits x len top_addr \<and> (\<forall>v \<in> set l. vend v \<le> x \<or> fits x len (vbegin v))"
proof -
  have pos: "0 < unat len" using len by (simp add: unat_gt_0)
  have "(\<forall>a. x \<le> a \<and> unat a < unat x + unat len \<longrightarrow> view l a = None) \<longleftrightarrow>
      (\<forall>v \<in> set l. vend v \<le> x \<or> unat x + unat len \<le> unat (vbegin v))" (is "?free \<longleftrightarrow> ?apart")
  proof
    assume free: ?free
    show ?apart
    proof
      fix v assume v: "v \<in> set l"
      have ne: "vbegin v < vend v" using vmas_wf_nonempty [OF wf v] .
      have "\<not> (vbegin v \<le> max x (vbegin v) \<and> max x (vbegin v) < vend v)"
        if "unat (max x (vbegin v)) < unat x + unat len"
        using free that v by (metis max.cobounded1 view_None_iff)
      then show "vend v \<le> x \<or> unat x + unat len \<le> unat (vbegin v)"
        using ne pos by (cases "x \<le> vbegin v") (auto simp: max_def not_less)
    qed
  next
    assume apart: ?apart
    show ?free
    proof (intro allI impI)
      fix a assume a: "x \<le> a \<and> unat a < unat x + unat len"
      have "\<not> (vbegin v \<le> a \<and> a < vend v)" if "v \<in> set l" for v
        using apart that a by (auto simp: word_le_nat_alt word_less_nat_alt dest!: bspec)
      then show "view l a = None" by (simp add: view_None_iff)
    qed
  qed
  then show ?thesis by (simp add: gap_at_def fits_unat)
qed

lemma find_gap_highest:
  assumes wf: "vmas_wf l" and len: "len \<noteq> 0"
  shows "case find_gap bottom_addr top_addr len l of
      None \<Rightarrow> \<nexists>x. gap_at bottom_addr top_addr len l x
    | Some m \<Rightarrow> gap_at bottom_addr top_addr len l (m - len) \<and>
        (\<forall>x. gap_at bottom_addr top_addr len l x \<longrightarrow> x \<le> m - len)"
proof (cases "find_gap bottom_addr top_addr len l")
  case None
  then show ?thesis using find_gap_complete [OF wf] by (fastforce simp: gap_at_fits [OF wf len])
next
  case (Some m)
  from find_gap_sound [OF wf this] have m: "m \<le> top_addr" "fits bottom_addr len m"
    "\<forall>v \<in> set l. disjoint_range (m - len) m v" by auto
  have u: "unat (m - len) + unat len = unat m"
    using fits_le(1) [OF m(2)] by (simp add: unat_sub word_le_nat_alt)
  have "gap_at bottom_addr top_addr len l (m - len)"
    unfolding gap_at_fits [OF wf len] fits_unat u
    using fits_le(2) [OF m(2)] m(1,3) by (auto simp: disjoint_range_def word_le_nat_alt)
  moreover have "x \<le> m - len" if "gap_at bottom_addr top_addr len l x" for x
    using find_gap_complete [OF wf, of bottom_addr x len top_addr] that Some by (auto simp: gap_at_fits [OF wf len])
  ultimately show ?thesis using Some by simp
qed

text \<open>
  (C30) The AVL tree of areas computes the operations on the sequence of areas: inserting an area,
  looking up the first area that ends above an address together with everything before and after
  it, and deleting the node of an area. The trees stay balanced and no operation fails.
\<close>

theorem vma_tree_refines_sequence:
  assumes "balanced t" "vmas_wf (inorder t)"
  shows "(\<exists>t'. avl_tree_insert vma_tree_cmp v t = Some t' \<and> balanced t' \<and>
       inorder t' = vma_insert v (inorder t)) \<and>
    (case avl_tree_lower_bound_fn cmp_addr_to_vma addr t of
       None \<Rightarrow> vmas_from addr (inorder t) = []
     | Some z \<Rightarrow> \<exists>w. node_at t z w \<and> vmas_before addr (inorder t) = node_before z \<and>
         vmas_from addr (inorder t) = w # node_after z) \<and>
    (\<forall>z w. node_at t z w \<longrightarrow>
       (\<exists>t'. avl_tree_delete z = Some t' \<and> balanced t' \<and> inorder t' = remove1 w (inorder t)))"
  using tree_vma_insert [OF assms] tree_lookup_vma [OF assms(2)] tree_vma_delete [OF assms] by blast

definition demo_vma :: "u64 \<Rightarrow> u64 \<Rightarrow> libos_vma" where
  "demo_vma start fin =
     \<lparr>vbegin = start, vend = fin, vprot = PROT_READ, vflags = MAP_PRIVATE OR MAP_ANONYMOUS, vfile = None,
      voffset = 0, vcomment = ''demo''\<rparr>"

lemma demo_vmas_wf: "vmas_wf [demo_vma 0x1000 0x4000, demo_vma 0x6000 0x8000]"
  by (simp add: wf_simps vma_ok_def demo_vma_def is_alloc_aligned_def)

theorem vma_tree_refines_sequence_witness:
  "\<exists>t'. avl_tree_insert vma_tree_cmp (demo_vma 0x4000 0x6000)
      (Node Null (demo_vma 0x1000 0x4000) 1 (Node Null (demo_vma 0x6000 0x8000) 0 Null)) = Some t' \<and>
    inorder t' = [demo_vma 0x1000 0x4000, demo_vma 0x4000 0x6000, demo_vma 0x6000 0x8000]"
proof -
  let ?t = "Node Null (demo_vma 0x1000 0x4000) 1 (Node Null (demo_vma 0x6000 0x8000) 0 Null)"
  have "balanced ?t" "vmas_wf (inorder ?t)" using demo_vmas_wf by simp_all
  from vma_tree_refines_sequence [OF this, THEN conjunct1, of "demo_vma 0x4000 0x6000"]
  show ?thesis by (auto simp: vma_insert_def vma_tree_cmp_def demo_vma_def)
qed

text \<open>
  (C31) The search for a place of a new area finds the highest free place of the requested size in
  the given address range, and fails exactly when there is none.
\<close>

theorem find_gap_is_highest:
  assumes "vmas_wf l" "len \<noteq> 0"
  shows "case find_gap bottom_addr top_addr len l of
      None \<Rightarrow> \<nexists>x. gap_at bottom_addr top_addr len l x
    | Some m \<Rightarrow> gap_at bottom_addr top_addr len l (m - len) \<and>
        (\<forall>x. gap_at bottom_addr top_addr len l x \<longrightarrow> x \<le> m - len)"
  using find_gap_highest [OF assms] .

theorem find_gap_is_highest_witness:
  "find_gap 0x1000 0x10000 0x2000 [demo_vma 0x1000 0x4000, demo_vma 0x6000 0xf000] = Some 0x6000 \<and>
   gap_at 0x1000 0x10000 0x2000 [demo_vma 0x1000 0x4000, demo_vma 0x6000 0xf000] 0x4000"
proof -
  let ?l = "[demo_vma 0x1000 0x4000, demo_vma 0x6000 0xf000]"
  have "vmas_wf ?l" by (simp add: wf_simps vma_ok_def demo_vma_def is_alloc_aligned_def)
  moreover have "find_gap 0x1000 0x10000 0x2000 ?l = Some 0x6000" by code_simp
  ultimately show ?thesis using find_gap_is_highest [of ?l "0x2000" "0x1000" "0x10000"] by simp
qed

text \<open>
  (C32) Changing the protection of a range dereferences a null pointer exactly when the range starts
  inside the last area, ends at its end, the checks pass and the area is not asked to grow down.
  The comment in the code says that the checks at the beginning exclude this.
\<close>

theorem change_null_dereference:
  assumes "vmas_wf (vma_tree s)" "start < fin"
  shows "vma_bkeep_change env start fin prot is_internal s = None \<longleftrightarrow>
    (\<exists>pre v. vma_tree s = pre @ [v] \<and> vbegin v < start \<and> fin = vend v \<and>
       \<not> has_flag prot PROT_GROWSDOWN \<and> change_check env prot is_internal v = 0)"
  using vma_bkeep_change_crash [OF assms] .

definition demo_env :: vma_env where
  "demo_env = \<lparr>user_address_start = 0x10000, user_address_end = 0x100000, g_aslr_addr_top = 0x80000,
     vma_area_size = 0x10000, hdl_flags = (\<lambda>h. O_RDWR)\<rparr>"

definition demo_state :: "libos_vma list \<Rightarrow> vma_state" where
  "demo_state l = \<lparr>vma_tree = l, g_total_memory_size = 0, g_peak_total_memory_size = 0,
     hdl_refs = (\<lambda>h. 0), vma_allocs = []\<rparr>"

theorem change_null_dereference_witness:
  "vma_bkeep_change demo_env 0x7000 0x8000 PROT_READ False
     (demo_state [demo_vma 0x1000 0x4000, demo_vma 0x6000 0x8000]) = None"
proof -
  let ?s = "demo_state [demo_vma 0x1000 0x4000, demo_vma 0x6000 0x8000]"
  have wf: "vmas_wf (vma_tree ?s)" using demo_vmas_wf by (simp add: demo_state_def)
  have "vma_tree ?s = [demo_vma 0x1000 0x4000] @ [demo_vma 0x6000 0x8000] \<and>
      vbegin (demo_vma 0x6000 0x8000) < 0x7000 \<and> 0x8000 = vend (demo_vma 0x6000 0x8000) \<and>
      \<not> has_flag PROT_READ PROT_GROWSDOWN \<and> change_check demo_env PROT_READ False (demo_vma 0x6000 0x8000) = 0"
    by code_simp
  then show ?thesis using change_null_dereference [OF wf, of "0x7000" "0x8000"] by auto
qed

definition mapped_bytes :: "libos_vma list \<Rightarrow> u64" where
  "mapped_bytes l = sum_list (map (\<lambda>v. vend v - vbegin v) l)"

lemma mapped_bytes_simps [simp]:
  "mapped_bytes [] = 0" "mapped_bytes (v # l) = vend v - vbegin v + mapped_bytes l"
  "mapped_bytes (xs @ ys) = mapped_bytes xs + mapped_bytes ys"
  by (simp_all add: mapped_bytes_def)

lemma mapped_bytes_insert [simp]: "mapped_bytes (vma_insert v l) = vend v - vbegin v + mapped_bytes l"
proof -
  have "mapped_bytes l = mapped_bytes (takeWhile (\<lambda>w. \<not> vma_tree_cmp v w) l) +
      mapped_bytes (dropWhile (\<lambda>w. \<not> vma_tree_cmp v w) l)"
    by (metis mapped_bytes_simps(3) takeWhile_dropWhile_id)
  then show ?thesis by (simp add: vma_insert_def)
qed

lemma vmas_from_inside:
  assumes wf: "vmas_wf (xs @ v # ys)" and "vbegin v \<le> a" "a < vend v"
  shows "vmas_from a (xs @ v # ys) = v # ys" "vmas_before a (xs @ v # ys) = xs"
proof -
  have "\<not> cmp_addr_to_vma a x" if "x \<in> set xs" for x
    using wf that assms(2) by (fastforce simp: wf_simps cmp_addr_to_vma_def)
  then show "vmas_from a (xs @ v # ys) = v # ys" "vmas_before a (xs @ v # ys) = xs"
    using assms(3) by (simp_all add: vmas_from_def vmas_before_def dropWhile_append takeWhile_append
        cmp_addr_to_vma_def)
qed

text \<open>
  (C33) Cutting a hole into an area adds the length of the upper rest to the total of mapped memory,
  although the mapped memory shrinks by the length of the hole: the shortening of the area is never
  subtracted, so the total drifts away from the memory that is mapped.
\<close>

theorem hole_grows_memory_total:
  assumes "vmas_wf (vma_tree s)" "v \<in> set (vma_tree s)" "vbegin v < start" "start < fin" "fin < vend v"
    "is_internal_vma v = is_internal"
  shows "case vma_bkeep_remove start fin is_internal True s of (ret, used, freed, s') \<Rightarrow>
    ret = 0 \<and> freed = [] \<and> g_total_memory_size s' = g_total_memory_size s + (vend v - fin) \<and>
    mapped_bytes (vma_tree s') = mapped_bytes (vma_tree s) - (fin - start)"
proof -
  obtain xs ys where t: "vma_tree s = xs @ v # ys" using assms(2) by (meson split_list)
  have wf: "vmas_wf (xs @ v # ys)" using assms(1) t by simp
  have "start < vend v" using assms(4,5) by order
  note sp = vmas_from_inside [OF wf order_less_imp_le [OF assms(3)] this]
  have com: "length (vcomment v) < VMA_COMMENT_LEN" using wf by (simp add: wf_simps vma_ok_def)
  have "\<forall>w \<in> set ys. fin \<le> vbegin w" using wf assms(5) by (fastforce simp: wf_simps)
  then have own: "check_same_owner fin is_internal ys" by (cases ys) (auto simp: not_less)
  show ?thesis
    using assms(3-6) own com
    by (simp add: vma_bkeep_remove_def t sp split_vma_parts total_memory_size_add_def insert_counted_def Let_def
        get_file_def split: option.splits)
qed

theorem hole_grows_memory_total_witness:
  "case vma_bkeep_remove 0x2000 0x3000 False True (demo_state [demo_vma 0x1000 0x4000]) of (ret, used, freed, s') \<Rightarrow>
     ret = 0 \<and> g_total_memory_size s' = 0x1000 \<and> mapped_bytes (vma_tree s') = 0x2000"
proof -
  let ?s = "demo_state [demo_vma 0x1000 0x4000]"
  have "vmas_wf (vma_tree ?s)" by (simp add: demo_state_def wf_simps vma_ok_def demo_vma_def is_alloc_aligned_def)
  from hole_grows_memory_total [OF this, of "demo_vma 0x1000 0x4000" "0x2000" "0x3000" False]
  show ?thesis by (simp add: demo_state_def demo_vma_def is_internal_vma_def has_flag_def split: prod.splits)
qed

text \<open>
  (C34) Dumping the areas always ends, whatever the number of areas, when no other thread changes them
  meanwhile: it returns a copy of every area that passes the filter, in order, each with a reference
  to its file, or fails with \<open>-ENOMEM\<close> only after a failed allocation and then keeps no reference.
\<close>

theorem dump_all_vmas_complete:
  assumes "\<forall>v \<in> set (vma_tree s). vbegin v < - 1 \<and> 0 < vend v"
  shows "case dump_all_vmas include_unmapped al s of (ret, infos, al', s') \<Rightarrow>
    let ws = filter (if include_unmapped then vma_filter_all else vma_filter_exclude_unmapped) (vma_tree s) in
    vma_tree s' = vma_tree s \<and>
    (ret = 0 \<and> infos = map dump_vma ws \<and> (\<forall>h. hdl_refs s' h = hdl_refs s h + file_count ws h) \<or>
     ret = - ENOMEM \<and> infos = [] \<and> hdl_refs s' = hdl_refs s \<and> False \<in> set al)"
proof -
  have "vmas_from 0 (vma_tree s) = vma_tree s"
    using assms by (cases "vma_tree s") (simp_all add: vmas_from_def cmp_addr_to_vma_def)
  then have all: "vmas_in_range 0 (- 1) (vma_tree s) = vma_tree s"
    using assms by (simp add: vmas_in_range_def takeWhile_eq_all_conv)
  obtain ret infos al' s' where d: "dump_all_vmas include_unmapped al s = (ret, infos, al', s')"
    by (rule prod_cases4)
  from dump_vmas_loop_spec [OF d [unfolded dump_all_vmas_def dump_vmas_def]] show ?thesis
    unfolding all d by (simp add: Let_def)
qed

theorem dump_all_vmas_complete_witness:
  "case dump_all_vmas False [] (demo_state [demo_vma 0x1000 0x4000, unmapped_vma 0x4000 0x6000]) of
     (ret, infos, al', s') \<Rightarrow> ret = 0 \<and> infos = [dump_vma (demo_vma 0x1000 0x4000)]"
proof -
  let ?s = "demo_state [demo_vma 0x1000 0x4000, unmapped_vma 0x4000 0x6000]"
  have "\<forall>v \<in> set (vma_tree ?s). vbegin v < - 1 \<and> 0 < vend v" by (simp add: demo_state_def demo_vma_def)
  from dump_all_vmas_complete [OF this, of False "[]"] show ?thesis
    by (auto simp: Let_def demo_state_def demo_vma_def unmapped_vma_def vma_filter_exclude_unmapped_def has_flag_def
        split: prod.splits)
qed

text \<open>
  The traversal that checks a range of user memory answers yes exactly when every address of the
  range lies in an area of the application with all requested protections.
\<close>

theorem adjacent_user_vmas_exact:
  assumes "vmas_wf l" "addr \<le> addr + len"
  shows "is_in_adjacent_user_vmas addr len prot l \<longleftrightarrow>
    (\<forall>a. addr \<le> a \<and> a < addr + len \<longrightarrow>
       (\<exists>pr flags file comment. view l a = Some (pr, flags, file, comment) \<and>
          \<not> has_flag flags (VMA_INTERNAL OR VMA_UNMAPPED) \<and> pr AND prot = prot))"
proof -
  have "user_page prot p \<longleftrightarrow> (\<exists>pr flags file comment. p = Some (pr, flags, file, comment) \<and>
      \<not> has_flag flags (VMA_INTERNAL OR VMA_UNMAPPED) \<and> pr AND prot = prot)" for p
    by (auto simp: user_page_def split: option.splits)
  then show ?thesis using is_in_adjacent_user_vmas_iff [OF assms, of prot] by simp
qed

theorem adjacent_user_vmas_exact_witness:
  "\<not> is_in_adjacent_user_vmas 0x3000 0x4000 PROT_READ [demo_vma 0x1000 0x4000, demo_vma 0x6000 0x8000]"
proof -
  have "view [demo_vma 0x1000 0x4000, demo_vma 0x6000 0x8000] 0x5000 = None"
    by (simp add: view_None_iff demo_vma_def)
  then show ?thesis
    using adjacent_user_vmas_exact [OF demo_vmas_wf, of "0x3000" "0x4000" PROT_READ]
    by (auto dest!: spec [of _ "0x5000"])
qed

text \<open>
  (C35) An object put into the cache of a thread is the next one taken out, and the cache then holds
  what it held before; a full cache refuses it. The length in the low bits of the pointer is kept
  exact.
\<close>

theorem thread_cache_roundtrip:
  assumes "cache_holds c xs" "vma_ptr_ok x" "x \<notin> set xs"
  shows "case add_to_thread_vma_cache x c of
      (False, c') \<Rightarrow> length xs = 3 \<and> c' = c
    | (True, c') \<Rightarrow> cache_holds c' (x # xs) \<and>
        (case get_from_thread_vma_cache c' of (y, c'') \<Rightarrow> y = x \<and> cache_holds c'' xs)"
proof (cases "length xs < 3")
  case True
  then obtain c' where c': "add_to_thread_vma_cache x c = (True, c')" "cache_holds c' (x # xs)"
    using add_to_cache [OF assms] by auto
  then show ?thesis using get_from_cache [OF c'(2)] by auto
next
  case False
  moreover have "length xs \<le> 3" using assms(1) by (simp add: cache_holds_def)
  ultimately show ?thesis using add_to_cache [OF assms] by auto
qed

theorem thread_cache_roundtrip_witness:
  "\<exists>c'. add_to_thread_vma_cache 0x7000 \<lparr>tcb_vma_cache = 0, next_free = (\<lambda>p. 0)\<rparr> = (True, c') \<and>
     fst (get_from_thread_vma_cache c') = 0x7000"
proof -
  have "cache_holds \<lparr>tcb_vma_cache = 0, next_free = (\<lambda>p. 0)\<rparr> []" "vma_ptr_ok 0x7000"
    by (simp_all add: cache_holds_def vma_ptr_ok_def)
  from thread_cache_roundtrip [OF this] show ?thesis by (auto split: prod.splits bool.splits)
qed

end
