(* ===== verification/Mmap_Props.thy ===== *)
theory Mmap_Props
  imports User_Memory Vma_Props
begin

text \<open>
  The properties of the memory system calls: every call keeps the books of the address space, what
  mapping, unmapping and protecting do to each page, the check of string pointers, and two places
  where the host and the files are given the wrong range.
\<close>

section \<open>All calls keep the books\<close>

text \<open>
  A step of the process: one of the memory system calls, an allocation of system memory or of a
  stack that returns. Sizes of stacks do not overflow, and system memory is freed where it lies.
\<close>

inductive mm_step :: "mm_env \<Rightarrow> mm_state \<Rightarrow> mm_state \<Rightarrow> bool" for env where
  mmap: "libos_syscall_mmap env addr len prot flags fd offset s = Some (r, s') \<Longrightarrow> mm_step env s s'"
| munmap: "libos_syscall_munmap env addr len s = Some (ret, s') \<Longrightarrow> mm_step env s s'"
| mprotect: "libos_syscall_mprotect env addr len prot s = Some (ret, s') \<Longrightarrow> mm_step env s s'"
| msync: "libos_syscall_msync env start len flags s = (ret, s') \<Longrightarrow> mm_step env s s'"
| system_malloc: "system_malloc env sz s = Some (p, s') \<Longrightarrow> mm_step env s s'"
| system_free: "system_free env addr sz s = Some s' \<Longrightarrow> addr < addr + alloc_align_up sz \<Longrightarrow> mm_step env s s'"
| stack: "allocate_stack env sz psz user s = Some (p, s') \<Longrightarrow>
    unat (alloc_align_up sz) + unat (alloc_align_up psz) < 2 ^ 64 \<Longrightarrow> mm_step env s s'"

inductive mm_reachable :: "mm_env \<Rightarrow> (nat \<Rightarrow> int) \<Rightarrow> mm_state \<Rightarrow> bool" for env refs where
  init: "bkeep_initial_vmas vs b = (ret, b') \<Longrightarrow> vma_tree b = [] \<Longrightarrow>
    \<forall>v \<in> set vs. vbegin v \<le> vend v \<and> length (vcomment v) < VMA_COMMENT_LEN \<and> vfile v = None \<Longrightarrow>
    hdl_refs b = refs \<Longrightarrow> bk s = b' \<Longrightarrow> mm_reachable env refs s"
| step: "mm_reachable env refs s \<Longrightarrow> mm_step env s s' \<Longrightarrow> mm_reachable env refs s'"

lemma mprotect_keeps:
  assumes wf: "vmas_wf (vma_tree (bk s))" and res: "libos_syscall_mprotect env addr len prot s = Some (ret, s')"
  shows "vmas_wf (vma_tree (bk s')) \<and> ref_slack (bk s') h = ref_slack (bk s) h"
proof (cases "len = 0")
  case True
  then have "s' = s" using res by (auto simp: libos_syscall_mprotect_def Let_def split: if_splits)
  then show ?thesis using wf by simp
next
  case False
  from mprotect_effect [OF wf False res, of h] show ?thesis by blast
qed

lemma msync_keeps:
  assumes "libos_syscall_msync env start len flags s = (ret, s')"
  shows "vma_tree (bk s') = vma_tree (bk s)" "ref_slack (bk s') h = ref_slack (bk s) h"
  using assms by (auto simp: libos_syscall_msync_def Let_def do_msync_range_keeps split: if_splits)

lemma mm_step_keeps:
  assumes "mm_step env s s'" "mm_env_ok env" "vmas_wf (vma_tree (bk s))"
  shows "vmas_wf (vma_tree (bk s')) \<and> ref_slack (bk s') h = ref_slack (bk s) h"
  using assms
proof cases
  case mmap
  from mmap_effect [OF assms(3,2) this, of h] show ?thesis by simp
next
  case munmap
  from munmap_effect [OF assms(3) this, of h] show ?thesis by simp
next
  case mprotect
  from mprotect_keeps [OF assms(3) this] show ?thesis .
next
  case msync
  from msync_keeps [OF this] assms(3) show ?thesis by simp
next
  case system_malloc
  from system_malloc_keeps [OF assms(3) this] show ?thesis .
next
  case (system_free addr sz)
  from system_free_keeps [OF assms(3) this(2,1)] show ?thesis .
next
  case (stack sz psz user p)
  from allocate_stack_keeps [OF assms(3,2) this(2,1)] show ?thesis .
qed

lemma bkeep_initial_vmas_refs:
  assumes "bkeep_initial_vmas vs s = (ret, s')" "\<forall>v \<in> set vs. vfile v = None"
  shows "ref_slack s' h = ref_slack s h"
  using assms
  by (induction vs s rule: bkeep_initial_vmas.induct)
    (auto simp: bkeep_initial_vma_def Let_def split: if_splits)

lemma mm_reachable_books:
  assumes "mm_reachable env refs s" "mm_env_ok env"
  shows "vmas_wf (vma_tree (bk s)) \<and> (\<forall>h. ref_slack (bk s) h = refs h)"
  using assms(1)
proof induction
  case (init vs b ret b' s)
  have "vmas_wf (vma_tree b')" using bkeep_initial_vmas_wf [OF _ init(1)] init by simp
  moreover have "ref_slack b' h = refs h" for h
    using bkeep_initial_vmas_refs [OF init(1), of h] init by (simp add: ref_slack_def)
  ultimately show ?case using init by simp
next
  case (step s s')
  then show ?case using mm_step_keeps [OF step(2) assms(2)] by simp
qed

definition demo_mm_env :: mm_env where
  "demo_mm_env = \<lparr>vmas = demo_env, syncs = \<lparr>fs_has_msync = (\<lambda>h. True), may_write = (\<lambda>h. True)\<rparr>,
     msync_op = (\<lambda>c. 0), fd_handle = (\<lambda>fd. if fd = 3 then Some 7 else None), fs_has_mmap = (\<lambda>h. True),
     g_check_invalid_ptrs = True\<rparr>"

definition demo_mm :: "libos_vma list \<Rightarrow> mm_state" where
  "demo_mm l = \<lparr>bk = demo_state l, info_allocs = [], msyncs = [], host_calls = [], host_rets = []\<rparr>"

lemma demo_mm_simps [simp]:
  "vma_tree (bk (demo_mm l)) = l" "hdl_refs (bk (demo_mm l)) = (\<lambda>h. 0)" "mm_env_ok demo_mm_env"
  by (simp_all add: demo_mm_def demo_state_def mm_env_ok_def demo_mm_env_def demo_env_def)

definition mapped_and :: "((int + u64) \<times> mm_state) option \<Rightarrow> (u64 \<Rightarrow> mm_state \<Rightarrow> bool) \<Rightarrow> bool" where
  "mapped_and x P = (case x of Some (Inr a, s) \<Rightarrow> P a s | _ \<Rightarrow> False)"

lemma mapped_andE:
  assumes "mapped_and x P"
  obtains a s where "x = Some (Inr a, s)" "P a s"
proof (cases x)
  case (Some y)
  obtain r s where "y = (r, s)" by fastforce
  then show ?thesis using assms that Some by (cases r) (auto simp: mapped_and_def)
qed (use assms in \<open>simp add: mapped_and_def\<close>)

text \<open>
  (C25) In every state that the memory calls can produce from the initial areas, the areas of the
  address space are non-empty, aligned, disjoint and in order, and every file handle has exactly one
  reference for each area that maps it on top of those held elsewhere - on all paths, failing
  allocations, failing host calls and rollbacks included.
\<close>

theorem memory_books_kept:
  assumes "mm_env_ok env" "mm_reachable env refs s"
  shows "sorted_wrt (\<lambda>v w. vend v \<le> vbegin w) (vma_tree (bk s)) \<and>
    (\<forall>v \<in> set (vma_tree (bk s)). vbegin v < vend v \<and> is_alloc_aligned (vbegin v) \<and> is_alloc_aligned (vend v)) \<and>
    (\<forall>h. hdl_refs (bk s) h = refs h + int (length (filter (\<lambda>v. vfile v = Some h) (vma_tree (bk s)))))"
proof -
  have "file_count l h = int (length (filter (\<lambda>v. vfile v = Some h) l))" for l h
    by (induction l) simp_all
  then show ?thesis
    using mm_reachable_books [OF assms(2,1)] by (auto simp: vmas_wf_def vma_ok_def ref_slack_def diff_eq_eq)
qed

theorem memory_books_kept_witness:
  "\<exists>s r. libos_syscall_mmap demo_mm_env 0 0x3000 PROT_READ MAP_PRIVATE 3 0 (demo_mm []) = Some (Inr r, s) \<and>
     hdl_refs (bk s) 7 = 1 \<and> sorted_wrt (\<lambda>v w. vend v \<le> vbegin w) (vma_tree (bk s))"
proof -
  have "mapped_and (libos_syscall_mmap demo_mm_env 0 0x3000 PROT_READ MAP_PRIVATE 3 0 (demo_mm []))
      (\<lambda>a s. map vfile (vma_tree (bk s)) = [Some 7])" by code_simp
  then obtain r s where m: "libos_syscall_mmap demo_mm_env 0 0x3000 PROT_READ MAP_PRIVATE 3 0 (demo_mm []) = Some (Inr r, s)"
    and v: "map vfile (vma_tree (bk s)) = [Some 7]" by (rule mapped_andE)
  have "mm_reachable demo_mm_env (\<lambda>h. 0) (demo_mm [])"
    by (rule mm_reachable.init [where vs = "[]" and b = "bk (demo_mm [])"]) simp_all
  then have "mm_reachable demo_mm_env (\<lambda>h. 0) s"
    using mm_step.mmap [OF m] by (rule mm_reachable.step)
  from memory_books_kept [OF _ this] m v show ?thesis by (auto simp: map_eq_Cons_conv)
qed

text \<open>
  (C26) A successful \<open>mmap\<close> returns the start of a range of the rounded length inside the user address
  range; every page of it then has the requested protection, flags, file and file offset, and every
  other page is as before. Without a fixed address the range was free before. A failing \<open>mmap\<close>
  changes no page, except that with a fixed address the old mapping of the range may be gone.
  In all cases the references to file handles are balanced.
\<close>

theorem mmap_maps_range:
  assumes "vmas_wf (vma_tree (bk s))" "mm_env_ok env"
    and "libos_syscall_mmap env addr0 len prot flags fd offset s = Some (r, s')"
  defines "addr \<equiv> if \<not> has_flag flags MAP_FIXED \<and> addr0 \<noteq> 0 then alloc_align_down addr0 else addr0"
    and "len' \<equiv> if \<not> is_alloc_aligned len then alloc_align_up len else len"
  shows "(\<forall>h. ref_slack (bk s') h = ref_slack (bk s) h) \<and>
    (case r of
       Inr a \<Rightarrow> \<exists>hdl flags'. mmap_flag_checks env prot flags fd = Inr (hdl, flags') \<and>
         user_address_start (vmas env) \<le> a \<and> a < a + len' \<and> a + len' \<le> user_address_end (vmas env) \<and>
         (\<forall>x. if a \<le> x \<and> x < a + len'
              then view (vma_tree (bk s')) x =
                     Some (page (mapping_at a len' prot (mmap_saved_flags flags') hdl offset '''') x) \<and>
                   (has_flag (mmap_saved_flags flags') (MAP_FIXED OR MAP_FIXED_NOREPLACE) \<or>
                    view (vma_tree (bk s)) x = None)
              else kept_at (vma_tree (bk s)) (vma_tree (bk s')) x)
     | Inl e \<Rightarrow> \<forall>x. kept_at (vma_tree (bk s)) (vma_tree (bk s')) x \<or>
         has_flag flags (MAP_FIXED OR MAP_FIXED_NOREPLACE) \<and> addr \<le> x \<and> x < addr + len' \<and>
         view (vma_tree (bk s')) x = None)"
proof -
  note e = mmap_effect [OF assms(1-3), folded addr_def len'_def]
  show ?thesis
  proof (cases r)
    case (Inl er)
    then show ?thesis using e by auto
  next
    case (Inr a)
    then obtain hdl flags' where p: "mmap_flag_checks env prot flags fd = Inr (hdl, flags')"
      "placed env len' prot (mmap_saved_flags flags') hdl offset ''''
        (has_flag (mmap_saved_flags flags') (MAP_FIXED OR MAP_FIXED_NOREPLACE)) (vma_tree (bk s)) (vma_tree (bk s')) a"
      using e [of undefined] by auto
    have "\<forall>h. ref_slack (bk s') h = ref_slack (bk s) h" using e by simp
    moreover have "if a \<le> x \<and> x < a + len'
        then view (vma_tree (bk s')) x =
               Some (page (mapping_at a len' prot (mmap_saved_flags flags') hdl offset '''') x) \<and>
             (has_flag (mmap_saved_flags flags') (MAP_FIXED OR MAP_FIXED_NOREPLACE) \<or>
              view (vma_tree (bk s)) x = None)
        else kept_at (vma_tree (bk s)) (vma_tree (bk s')) x" for x
      using p(2) [unfolded placed_def, THEN conjunct2, THEN conjunct2, THEN conjunct2, THEN spec, of x]
      by (auto split: if_splits)
    ultimately show ?thesis using p unfolding Inr placed_def sum.case by blast
  qed
qed

theorem mmap_maps_range_witness:
  "\<exists>s. libos_syscall_mmap demo_mm_env 0 0x2fff PROT_READ MAP_PRIVATE 3 0x5000 (demo_mm []) = Some (Inr 0x7d000, s) \<and>
     view (vma_tree (bk s)) 0x7e000 = Some (PROT_READ, MAP_PRIVATE, Some (7, 0x6000), '''')"
proof -
  let ?m = "libos_syscall_mmap demo_mm_env 0 0x2fff PROT_READ MAP_PRIVATE 3 0x5000 (demo_mm [])"
  have "mapped_and ?m (\<lambda>a s. a = 0x7d000)" by code_simp
  then obtain s where m: "?m = Some (Inr 0x7d000, s)" by (auto elim: mapped_andE)
  have wf: "vmas_wf (vma_tree (bk (demo_mm [])))" by simp
  have len: "alloc_align_up 0x2fff = 0x3000" "\<not> is_alloc_aligned 0x2fff" by code_simp+
  have fl: "mmap_flag_checks demo_mm_env PROT_READ MAP_PRIVATE 3 = Inr (Some 7, MAP_PRIVATE)"
    "mmap_saved_flags MAP_PRIVATE = MAP_PRIVATE" by code_simp+
  have pg: "page (mapping_at 0x7d000 0x3000 PROT_READ MAP_PRIVATE (Some 7) 0x5000 '''') 0x7e000 =
      (PROT_READ, MAP_PRIVATE, Some (7, 0x6000), '''')" by code_simp
  from mmap_maps_range [OF wf _ m] m show ?thesis
    by (auto simp: len fl pg dest!: spec [of _ "0x7e000"])
qed

text \<open>
  (C27) \<open>munmap\<close> leaves every address of the range unmapped, after asking the host to free exactly this
  range, and no other page changes; when it fails it changes no page. The references of the removed
  areas to their files are given back.
\<close>

theorem munmap_unmaps_range:
  assumes "vmas_wf (vma_tree (bk s))" "libos_syscall_munmap env addr len s = Some (ret, s')"
  defines "len' \<equiv> if \<not> is_alloc_aligned len then alloc_align_up len else len"
  shows "(\<forall>h. ref_slack (bk s') h = ref_slack (bk s) h) \<and>
    (ret = 0 \<and> addr < addr + len' \<and> PalVirtualMemoryFree addr len' \<in> set (host_calls s') \<and>
       (\<forall>a. if addr \<le> a \<and> a < addr + len' then view (vma_tree (bk s')) a = None
            else kept_at (vma_tree (bk s)) (vma_tree (bk s')) a) \<or>
     ret < 0 \<and> (\<forall>a. kept_at (vma_tree (bk s)) (vma_tree (bk s')) a))"
proof -
  note e = munmap_effect [OF assms(1,2), folded len'_def]
  then have "ret = 0 \<or> ret < 0" by blast
  then show ?thesis using e by auto
qed

theorem munmap_unmaps_range_witness:
  "\<exists>s. libos_syscall_munmap demo_mm_env 0x2000 0xfff (demo_mm [demo_vma 0x1000 0x4000, demo_vma 0x6000 0x8000]) = Some (0, s) \<and>
     view (vma_tree (bk s)) 0x2800 = None \<and> PalVirtualMemoryFree 0x2000 0x1000 \<in> set (host_calls s)"
proof -
  let ?m = "libos_syscall_munmap demo_mm_env 0x2000 0xfff (demo_mm [demo_vma 0x1000 0x4000, demo_vma 0x6000 0x8000])"
  have "map_option fst ?m = Some 0" by code_simp
  then obtain s where m: "?m = Some (0, s)" by auto
  have wf: "vmas_wf (vma_tree (bk (demo_mm [demo_vma 0x1000 0x4000, demo_vma 0x6000 0x8000])))"
    using demo_vmas_wf by simp
  have len: "alloc_align_up 0xfff = 0x1000" "\<not> is_alloc_aligned 0xfff" by code_simp+
  from munmap_unmaps_range [OF wf m] m show ?thesis
    by (auto simp: len dest!: spec [of _ "0x2800"])
qed





text \<open>
  (C29) Checking a string pointer from the application page by page is the same as checking all its
  bytes up to and including the terminator: the check answers yes exactly when there is a terminator
  such that every byte up to it lies in readable memory of the application. It always returns. The
  areas end below the last two pages of the address space.
\<close>

theorem user_string_check_exact:
  assumes "vmas_wf (vma_tree (bk s))" "\<forall>v \<in> set (vma_tree (bk s)). unat (vend v) \<le> 2 ^ 64 - 8192"
    "g_check_invalid_ptrs env"
  shows "is_user_string_readable env mem addr s \<longleftrightarrow>
    (\<exists>n. unat addr + n < 2 ^ 64 \<and> (\<forall>i < n. mem (addr + of_nat i) \<noteq> 0) \<and> mem (addr + of_nat n) = 0 \<and>
       (\<forall>i \<le> n. user_page PROT_READ (view (vma_tree (bk s)) (addr + of_nat i))))"
  unfolding is_user_string_readable_iff [OF assms] readable_string_def by blast

theorem user_string_check_exact_witness:
  "is_user_string_readable demo_mm_env (\<lambda>a. if a = 0x3002 then 0 else 65) 0x3000 (demo_mm [demo_vma 0x1000 0x4000])"
proof -
  let ?s = "demo_mm [demo_vma 0x1000 0x4000]"
  have wf: "vmas_wf (vma_tree (bk ?s))" by (simp add: wf_simps vma_ok_def demo_vma_def is_alloc_aligned_def)
  have high: "\<forall>v \<in> set (vma_tree (bk ?s)). unat (vend v) \<le> 2 ^ 64 - 8192" by (simp add: demo_vma_def)
  have on: "g_check_invalid_ptrs demo_mm_env" by (simp add: demo_mm_env_def)
  have three: "i \<le> 2 \<longleftrightarrow> i = 0 \<or> i = 1 \<or> i = (2 :: nat)" "i < 2 \<longleftrightarrow> i = 0 \<or> i = (1 :: nat)" for i by auto
  have "\<forall>i \<le> 2. user_page PROT_READ (view (vma_tree (bk ?s)) (0x3000 + of_nat i))"
    by (auto simp: three view_Cons view_Nil demo_vma_def page_def user_page_def has_flag_def)
  then show ?thesis
    unfolding user_string_check_exact [OF wf high on]
    by (intro exI [of _ 2]) (auto simp: three)
qed

text \<open>
  With \<open>PROT_GROWSDOWN\<close> the call changes the books from the start of the area to the end of the
  range, but asks the host for a range of the given length from the start of the area: here the page
  at \<open>0x3000\<close> is writable in the books while the host was asked to protect only the page at \<open>0x1000\<close>.
\<close>

lemma growsdown_protects_other_range:
  "\<exists>s. libos_syscall_mprotect demo_mm_env 0x3000 0x1000 (PROT_READ OR PROT_WRITE OR PROT_GROWSDOWN)
        (demo_mm [(demo_vma 0x1000 0x4000)\<lparr>vflags := MAP_PRIVATE OR MAP_ANONYMOUS OR MAP_GROWSDOWN\<rparr>]) = Some (0, s) \<and>
     map_option fst (view (vma_tree (bk s)) 0x3000) = Some (PROT_READ OR PROT_WRITE) \<and>
     host_calls s = [PalVirtualMemoryProtect 0x1000 0x1000 3]"
proof -
  let ?m = "libos_syscall_mprotect demo_mm_env 0x3000 0x1000 (PROT_READ OR PROT_WRITE OR PROT_GROWSDOWN)
      (demo_mm [(demo_vma 0x1000 0x4000)\<lparr>vflags := MAP_PRIVATE OR MAP_ANONYMOUS OR MAP_GROWSDOWN\<rparr>])"
  have "map_option (\<lambda>(ret, s). (ret, map vbegin (vma_tree (bk s)), map vend (vma_tree (bk s)),
      map vprot (vma_tree (bk s)), host_calls s)) ?m
      = Some (0, [0x1000], [0x4000], [3], [PalVirtualMemoryProtect 0x1000 0x1000 3])" by code_simp
  then obtain s where m: "?m = Some (0, s)" "map vbegin (vma_tree (bk s)) = [0x1000]" "map vend (vma_tree (bk s)) = [0x4000]"
    "map vprot (vma_tree (bk s)) = [3]" "host_calls s = [PalVirtualMemoryProtect 0x1000 0x1000 3]" by auto
  from m(2-4) obtain v where "vma_tree (bk s) = [v]" "vbegin v = 0x1000" "vend v = 0x4000" "vprot v = 3"
    by (auto simp: map_eq_Cons_conv)
  then have "map_option fst (view (vma_tree (bk s)) 0x3000) = Some 3" by (simp add: view_Cons view_Nil page_def)
  then show ?thesis using m(1,5) by simp
qed

text \<open>
  Writing back a range that starts inside a shared file mapping passes the file offset of the
  start of the mapping with the address of the start of the range: the offset is too small by the
  distance of the two, so the data goes to the wrong place of the file. Here the last page of an area
  is unmapped.
\<close>

lemma msync_offset_not_adjusted:
  "\<exists>s. libos_syscall_munmap demo_mm_env 0x3000 0x1000
       (demo_mm [(demo_vma 0x1000 0x4000)\<lparr>vflags := MAP_SHARED, vfile := Some 7\<rparr>]) = Some (0, s) \<and>
     map (\<lambda>c. (mfile c, maddr c, moffset c)) (msyncs s) = [(7, 0x3000, 0)] \<and>
     page ((demo_vma 0x1000 0x4000)\<lparr>vflags := MAP_SHARED, vfile := Some 7\<rparr>) 0x3000 =
       (PROT_READ, MAP_SHARED, Some (7, 0x2000), ''demo'')"
proof -
  let ?v = "(demo_vma 0x1000 0x4000)\<lparr>vflags := MAP_SHARED, vfile := Some 7\<rparr>"
  have "map_option (\<lambda>(ret, s). (ret, map (\<lambda>c. (mfile c, maddr c, moffset c)) (msyncs s)))
      (libos_syscall_munmap demo_mm_env 0x3000 0x1000 (demo_mm [?v])) = Some (0, [(7, 0x3000, 0)])" by code_simp
  moreover have "page ?v 0x3000 = (PROT_READ, MAP_SHARED, Some (7, 0x2000), ''demo'')"
    by (simp add: demo_vma_def page_def)
  ultimately show ?thesis by auto
qed

end
