(* ===== verification/Data_Convert.thy ===== *)
theory Data_Convert
  imports Prelude
begin

text \<open>
  Byte, hex and big-endian conversions of the blockchain node,
  \<^verbatim>\<open>fisco-smart/bcos-utilities/bcos-utilities/DataConvertUtility.h/.cpp\<close> and \<^verbatim>\<open>Common.h\<close>. The integer
  types \<^verbatim>\<open>u160\<close> and \<^verbatim>\<open>u256\<close> are words; \<^verbatim>\<open>s256\<close> keeps a sign and a magnitude and is an integer.
\<close>

type_synonym u8 = "8 word"
type_synonym u16 = "16 word"
type_synonym u256 = "256 word"
type_synonym bytes = "u8 list"

section \<open>Hex strings\<close>

definition convertCharToHexNumber :: "char \<Rightarrow> int" where
  "convertCharToHexNumber c =
     (let n = of_char c :: int
      in if of_char (CHR ''0'') \<le> n \<and> n \<le> of_char (CHR ''9'') then n - of_char (CHR ''0'')
         else if of_char (CHR ''a'') \<le> n \<and> n \<le> of_char (CHR ''f'') then n - of_char (CHR ''a'') + 10
         else if of_char (CHR ''A'') \<le> n \<and> n \<le> of_char (CHR ''F'') then n - of_char (CHR ''A'') + 10
         else - 1)"

definition hexCharsCollection :: string where
  "hexCharsCollection = ''0123456789abcdef''"

definition toHexString :: "bytes \<Rightarrow> string \<Rightarrow> string" where
  "toHexString data prefix =
     prefix @ concat (map (\<lambda>b. [hexCharsCollection ! unat ((drop_bit 4 b) AND 0x0f),
                                hexCharsCollection ! unat (b AND 0x0f)]) data)"

definition isHexString :: "string \<Rightarrow> bool" where
  "isHexString s =
     (let s = (if take 2 s = ''0x'' then drop 2 s else s)
      in list_all (\<lambda>c. convertCharToHexNumber c \<noteq> - 1) s)"

text \<open>
  The loop over pairs of characters, with its 32-bit index; behind the last character the string holds
  a zero. A loop that does not end has the value \<open>None\<close>, a thrown exception \<open>Some None\<close>.
\<close>

definition char_at :: "string \<Rightarrow> 32 word \<Rightarrow> char" where
  "char_at s i = (if unat i < length s then s ! unat i else CHR 0x00)"

partial_function (option) hex_loop :: "string \<Rightarrow> 32 word \<Rightarrow> bytes \<Rightarrow> bytes option option" where
  "hex_loop s i bytesData =
     (if unat i < length s
      then (let highValue = convertCharToHexNumber (char_at s i);
                lowValue = convertCharToHexNumber (char_at s (i + 1))
            in if highValue = - 1 \<or> lowValue = - 1 then Some None
               else hex_loop s (i + 2) (bytesData @ [word_of_int (highValue * 16) + word_of_int lowValue]))
      else Some (Some bytesData))"

definition fromHexString :: "string \<Rightarrow> bytes option option" where
  "fromHexString s =
     (let startIndex = (if length s \<ge> 2 \<and> s ! 0 = CHR ''0'' \<and> s ! 1 = CHR ''x'' then 2 else 0)
      in if length s mod 2 \<noteq> 0
         then (let h = convertCharToHexNumber (char_at s startIndex)
               in if h = - 1 then Some None
                  else hex_loop s (startIndex + 1) [word_of_int h])
         else hex_loop s startIndex [])"

section \<open>Big-endian integers\<close>

fun toBigEndian :: "'a::len word \<Rightarrow> nat \<Rightarrow> bytes" where
  "toBigEndian val 0 = []"
| "toBigEndian val (Suc i) = toBigEndian (drop_bit 8 val) i @ [ucast (val AND 0xff)]"

definition fromBigEndian :: "bytes \<Rightarrow> 'a::len word" where
  "fromBigEndian bs = foldl (\<lambda>ret b. push_bit 8 ret OR ucast b) 0 bs"

definition toBigEndian_u256 :: "u256 \<Rightarrow> bytes" where
  "toBigEndian_u256 val = toBigEndian val 32"

definition toBigEndian_u160 :: "160 word \<Rightarrow> bytes" where
  "toBigEndian_u160 val = toBigEndian val 20"

lemma unat_drop_bit_div: "unat (drop_bit k v) = unat v div 2 ^ k"
  by (metis unat_drop_bit_eq drop_bit_eq_div)

lemma drop_bit_less: "(v :: 'a::len word) \<noteq> 0 \<Longrightarrow> unat (drop_bit 8 v) < unat v"
  unfolding unat_drop_bit_div by (simp add: unat_gt_0)

function significant_bytes :: "'a::len word \<Rightarrow> nat" where
  "significant_bytes v = (if v = 0 then 0 else Suc (significant_bytes (drop_bit 8 v)))"
  by pat_completeness auto
termination
  by (relation "measure unat") (simp_all add: drop_bit_less)

declare significant_bytes.simps [simp del]

definition toCompactBigEndian :: "'a::len word \<Rightarrow> nat \<Rightarrow> bytes" where
  "toCompactBigEndian val min_size = toBigEndian val (max min_size (significant_bytes val))"

section \<open>Signed 256-bit numbers\<close>

definition u2s :: "u256 \<Rightarrow> int" where
  "u2s u = (if bit u 255 then - (2 ^ 256 - uint u) else uint u)"

definition s2u :: "int \<Rightarrow> u256" where
  "s2u i = (if i \<ge> 0 then word_of_int i else word_of_int (2 ^ 256 + i))"

section \<open>Lemmas\<close>

lemma length_toBigEndian [simp]: "length (toBigEndian v n) = n"
  by (induction v n rule: toBigEndian.induct) simp_all

lemma fromBigEndian_snoc: "fromBigEndian (bs @ [b]) = push_bit 8 (fromBigEndian bs) OR ucast b"
  by (simp add: fromBigEndian_def)

text \<open>Reading back gives the low bytes of the value.\<close>

lemma from_toBigEndian: "fromBigEndian (toBigEndian v n) = take_bit (8 * n) v"
proof (induction v n rule: toBigEndian.induct)
  case (2 v n)
  have "push_bit 8 (take_bit (8 * n) (drop_bit 8 v)) OR ucast (ucast (v AND 0xff) :: u8) = take_bit (8 * Suc n) v"
  proof (rule bit_eqI)
    fix k
    have m: "(0xff :: 'a word) = mask 8" by (simp add: mask_eq_exp_minus_1)
    show "bit (push_bit 8 (take_bit (8 * n) (drop_bit 8 v)) OR ucast (ucast (v AND 0xff) :: u8)) k =
        bit (take_bit (8 * Suc n) v) k"
      unfolding m by (cases "k < 8") (auto simp: bit_simps dest: bit_imp_le_length)
  qed
  then show ?case using 2 by (simp add: fromBigEndian_snoc)
qed (simp add: fromBigEndian_def)

text \<open>A byte is its two hex digits.\<close>

lemma hex_digit:
  assumes "n < 16"
  shows "convertCharToHexNumber (hexCharsCollection ! n) = int n"
proof -
  have "list_all (\<lambda>n. convertCharToHexNumber (hexCharsCollection ! n) = int n) [0..<16]" by code_simp
  then show ?thesis using assms by (simp add: list_all_iff)
qed

lemma hex_byte:
  fixes b :: u8
  shows "word_of_int (int (unat (drop_bit 4 b AND 0x0f)) * 16) + word_of_int (int (unat (b AND 0x0f))) = b"
proof -
  have m: "(0x0f :: u8) = mask 4" by (simp add: mask_eq_exp_minus_1)
  have lo: "unat (b AND 0x0f) = unat b mod 16"
    unfolding m take_bit_eq_mask [symmetric] unsigned_take_bit_eq by (simp add: take_bit_eq_mod)
  have "unat (drop_bit 4 b AND 0x0f) = take_bit 4 (unat (drop_bit 4 b))"
    unfolding m take_bit_eq_mask [symmetric] by (rule unsigned_take_bit_eq)
  also have "\<dots> = (unat b div 16) mod 16"
    unfolding unat_drop_bit_div by (simp add: take_bit_eq_mod)
  also have "\<dots> = unat b div 16"
    using unsigned_less [of b, where ?'a = nat] by simp
  finally have hi: "unat (drop_bit 4 b AND 0x0f) = unat b div 16" .
  have "int (unat b div 16) * 16 + int (unat b mod 16) = int (unat b)"
    by (metis div_mult_mod_eq of_nat_add of_nat_mult of_nat_numeral)
  then have "(word_of_int (int (unat b div 16) * 16) + word_of_int (int (unat b mod 16)) :: u8) = word_of_int (int (unat b))"
    by (metis wi_hom_add)
  then show ?thesis unfolding lo hi by simp
qed

lemma nibble_bounds: "unat (drop_bit 4 b AND 0x0f) < 16" "unat (b AND 0x0f) < 16" for b :: u8
proof -
  have "unat (x AND 0x0f) < 16" for x :: u8
  proof -
    have m: "(0x0f :: u8) = mask 4" by (simp add: mask_eq_exp_minus_1)
    show ?thesis unfolding m take_bit_eq_mask [symmetric] unsigned_take_bit_eq by (simp add: take_bit_eq_mod)
  qed
  then show "unat (drop_bit 4 b AND 0x0f) < 16" "unat (b AND 0x0f) < 16" by blast+
qed

text \<open>What the loop does on strings whose length fits in its index: it takes the characters by pairs.\<close>

fun hex_pairs :: "string \<Rightarrow> bytes option" where
  "hex_pairs [] = Some []"
| "hex_pairs [c] = None"
| "hex_pairs (c # d # cs) =
     (let highValue = convertCharToHexNumber c; lowValue = convertCharToHexNumber d
      in if highValue = - 1 \<or> lowValue = - 1 then None
         else map_option ((#) (word_of_int (highValue * 16) + word_of_int lowValue)) (hex_pairs cs))"

lemma unat_add_small: "unat i + k < 2 ^ 32 \<Longrightarrow> unat (i + of_nat k :: 32 word) = unat i + k"
  by (subst unat_add_lem [THEN iffD1]) (simp_all add: unat_of_nat take_bit_nat_eq_self)

lemma hex_loop_pairs:
  assumes "length s < 2 ^ 32" "unat i \<le> length s" "even (length s - unat i)"
  shows "hex_loop s i acc = Some (map_option ((@) acc) (hex_pairs (drop (unat i) s)))"
  using assms(2,3)
proof (induction "length s - unat i" arbitrary: i acc rule: less_induct)
  case less
  show ?case
  proof (cases "unat i < length s")
    case True
    then have two: "unat i + 2 \<le> length s" using less(2,3) by (cases "length s = unat i + 1") auto
    have i: "unat (i + 1) = unat i + 1" "unat (i + 2) = unat i + 2"
      using unat_add_small [of i 1] unat_add_small [of i 2] two assms(1) by auto
    define c d where "c = s ! unat i" and "d = s ! (unat i + 1)"
    have at: "char_at s i = c" "char_at s (i + 1) = d"
      using two i by (simp_all add: char_at_def c_def d_def)
    have drop: "drop (unat i) s = c # d # drop (unat i + 2) s"
      using two by (simp add: c_def d_def Cons_nth_drop_Suc)
    have IH: "hex_loop s (i + 2) acc' = Some (map_option ((@) acc') (hex_pairs (drop (unat i + 2) s)))" for acc'
      using less(1) [of "i + 2" acc'] i two less(3) by simp
    show ?thesis
      using True IH
      by (subst hex_loop.simps) (cases "hex_pairs (drop (unat i + 2) s)", simp_all add: at drop Let_def)
  next
    case False
    then show ?thesis using less(2) by (subst hex_loop.simps) simp
  qed
qed

definition hex_read :: "string \<Rightarrow> bytes option" where
  "hex_read s =
     (let rest = (if take 2 s = ''0x'' then drop 2 s else s)
      in if length s mod 2 \<noteq> 0
         then (let h = convertCharToHexNumber (hd rest)
               in if h = - 1 then None
                  else map_option ((#) (word_of_int h)) (hex_pairs (tl rest)))
         else hex_pairs rest)"

lemma prefix_0x: "take 2 s = ''0x'' \<longleftrightarrow> length s \<ge> 2 \<and> s ! 0 = CHR ''0'' \<and> s ! 1 = CHR ''x''"
proof (cases s)
  case (Cons c cs)
  then show ?thesis by (cases cs) auto
qed simp

lemma fromHexString_read:
  assumes "length s < 2 ^ 32"
  shows "fromHexString s = Some (hex_read s)"
proof -
  define k :: nat where "k = (if take 2 s = ''0x'' then 2 else 0)"
  have k: "k \<le> length s" "even k" using prefix_0x [of s] by (auto simp: k_def)
  have start: "(if length s \<ge> 2 \<and> s ! 0 = CHR ''0'' \<and> s ! 1 = CHR ''x'' then 2 else 0) = (of_nat k :: 32 word)"
    unfolding prefix_0x [symmetric] k_def by simp
  have rest: "(if take 2 s = ''0x'' then drop 2 s else s) = drop k s" by (simp add: k_def)
  have uk: "unat (of_nat k :: 32 word) = k" by (simp add: k_def)
  show ?thesis
  proof (cases "even (length s)")
    case True
    then show ?thesis using hex_loop_pairs [OF assms, of "of_nat k" "[]"] k
      unfolding fromHexString_def hex_read_def start rest Let_def uk
      by (cases "hex_pairs (drop k s)") simp_all
  next
    case False
    then have less: "k < length s" using k by (cases "k = length s") auto
    have uk1: "unat (of_nat k + 1 :: 32 word) = k + 1" by (simp add: k_def)
    have hd: "hd (drop k s) = s ! k" "tl (drop k s) = drop (Suc k) s" "char_at s (of_nat k) = s ! k"
      using less uk by (simp_all add: hd_drop_conv_nth tl_drop drop_Suc char_at_def)
    show ?thesis using False less k hex_loop_pairs [OF assms, of "of_nat k + 1" "[word_of_int (convertCharToHexNumber (s ! k))]"]
      unfolding fromHexString_def hex_read_def start rest Let_def uk1 hd
      by (cases "hex_pairs (drop (Suc k) s)") (simp_all add: mod_2_eq_odd)
  qed
qed

text \<open>On a longer string the index wraps around, and the loop ends only at a character that is not hex.\<close>

lemma hex_loop_long:
  assumes "2 ^ 32 \<le> length s" "list_all (\<lambda>c. convertCharToHexNumber c \<noteq> - 1) s"
  shows "hex_loop s i acc = None"
proof (cases "hex_loop s i acc")
  case (Some r)
  have inb: "unat j < length s" for j :: "32 word"
    using unsigned_less [of j, where ?'a = nat] assms(1) by simp
  then have hex: "convertCharToHexNumber (char_at s j) \<noteq> - 1" for j
    using assms(2) by (simp add: char_at_def list_all_length)
  have "False"
  proof (rule hex_loop.raw_induct [of "\<lambda>s' i acc r. s' \<noteq> s", THEN notE, OF _ Some refl])
    fix loop s' i acc r
    assume IH: "\<And>s' i acc r. loop s' i acc = Some r \<Longrightarrow> s' \<noteq> s"
      and body: "(if unat i < length s'
        then let highValue = convertCharToHexNumber (char_at s' i); lowValue = convertCharToHexNumber (char_at s' (i + 1))
             in if highValue = - 1 \<or> lowValue = - 1 then Some None
                else loop s' (i + 2) (acc @ [word_of_int (highValue * 16) + word_of_int lowValue])
        else Some (Some acc)) = Some r"
    show "s' \<noteq> s"
    proof
      assume "s' = s"
      then have "loop s (i + 2) (acc @ [word_of_int (convertCharToHexNumber (char_at s i) * 16) +
          word_of_int (convertCharToHexNumber (char_at s (i + 1)))]) = Some r"
        using body inb [of i] hex [of i] hex [of "i + 1"] by (simp add: Let_def)
      then show False using IH by blast
    qed
  qed
  then show ?thesis ..
qed

lemma hex_string_long:
  assumes "2 ^ 32 \<le> length s" "list_all (\<lambda>c. convertCharToHexNumber c \<noteq> - 1) s"
  shows "fromHexString s = None"
proof -
  have inb: "unat j < length s" for j :: "32 word"
    using unsigned_less [of j, where ?'a = nat] assms(1) by simp
  then have "convertCharToHexNumber (char_at s j) \<noteq> - 1" for j
    using assms(2) by (simp add: char_at_def list_all_length)
  then show ?thesis using hex_loop_long [OF assms] by (simp add: fromHexString_def Let_def)
qed

lemma hex_pairs_of_bytes: "hex_pairs (toHexString data []) = Some data"
proof (induction data)
  case (Cons b data)
  have neg: "uint x \<noteq> - 1" for x :: u8 using uint_ge_0 [of x] by linarith
  have "word_of_int (uint (drop_bit 4 b AND 0x0f) * 16) + word_of_int (uint (b AND 0x0f)) = b"
    using hex_byte [of b] by simp
  then show ?case using Cons by (simp add: toHexString_def hex_digit nibble_bounds neg Let_def)
qed (simp add: toHexString_def)

lemma toHexString_prefix: "toHexString data prefix = prefix @ toHexString data []"
  by (simp add: toHexString_def)

lemma length_toHexString: "length (toHexString data []) = 2 * length data"
  by (induction data) (simp_all add: toHexString_def)

lemma hex_not_x: "n < 16 \<Longrightarrow> hexCharsCollection ! n \<noteq> CHR ''x''"
  using hex_digit [of n] by (auto simp: convertCharToHexNumber_def)

lemma toHexString_no_0x: "take 2 (toHexString data []) \<noteq> ''0x''"
  by (cases data) (auto simp: toHexString_def hex_not_x nibble_bounds)

lemma hex_read_toHexString:
  assumes "prefix = [] \<or> prefix = ''0x''"
  shows "hex_read (toHexString data prefix) = Some data"
proof -
  have even: "length (toHexString data prefix) mod 2 = 0"
    using assms by (auto simp: toHexString_prefix [of data prefix] length_toHexString)
  show ?thesis
  proof (cases "prefix = []")
    case True
    then show ?thesis using even toHexString_no_0x hex_pairs_of_bytes
      by (simp add: hex_read_def Let_def)
  next
    case False
    then have "prefix = ''0x''" using assms by simp
    then show ?thesis using even hex_pairs_of_bytes
      by (simp add: hex_read_def Let_def toHexString_prefix [of data "''0x''"])
  qed
qed

lemma hex_pairs_None: "hex_pairs s = None \<longleftrightarrow> odd (length s) \<or> (\<exists>c \<in> set s. convertCharToHexNumber c = - 1)"
  by (induction s rule: hex_pairs.induct) (auto simp: Let_def)

text \<open>Conversion from hex fails exactly on strings that are not hex.\<close>

lemma hex_read_None: "hex_read s = None \<longleftrightarrow> \<not> isHexString s"
proof -
  define r where "r = (if take 2 s = ''0x'' then drop 2 s else s)"
  note r = r_def [symmetric]
  have len: "length s mod 2 = length r mod 2"
    using prefix_0x [of s] by (auto simp: r_def mod_2_eq_odd)
  have hex: "isHexString s \<longleftrightarrow> (\<forall>c \<in> set r. convertCharToHexNumber c \<noteq> - 1)"
    by (simp add: isHexString_def list_all_iff r_def)
  show ?thesis
  proof (cases "length r mod 2 = 0")
    case True
    then show ?thesis using len r hex by (auto simp: hex_read_def hex_pairs_None even_iff_mod_2_eq_zero)
  next
    case False
    then obtain c cs where c: "r = c # cs" by (cases r) auto
    then have "even (length cs)" using False by (auto simp: mod_2_eq_odd)
    then show ?thesis using False len r hex c by (auto simp: hex_read_def Let_def hex_pairs_None)
  qed
qed

lemma significant_bytes_bound: "unat (v :: 'a::len word) < 2 ^ (8 * significant_bytes v)"
proof (induction v rule: significant_bytes.induct)
  case (1 v)
  show ?case
  proof (cases "v = 0")
    case False
    have "unat (drop_bit 8 v) = unat v div 256" unfolding unat_drop_bit_div by simp
    then have "unat v div 256 < 2 ^ (8 * significant_bytes (drop_bit 8 v))" using 1 False by simp
    then show ?thesis using False
      by (subst significant_bytes.simps) (simp add: power_add div_less_iff_less_mult mult.commute)
  qed simp
qed

lemma from_toCompactBigEndian: "fromBigEndian (toCompactBigEndian v m) = v"
proof -
  have "unat v < 2 ^ (8 * max m (significant_bytes v))"
    by (rule order_less_le_trans [OF significant_bytes_bound]) (simp add: power_increasing)
  then have "unat (take_bit (8 * max m (significant_bytes v)) v) = unat v"
    unfolding unsigned_take_bit_eq by (simp add: take_bit_nat_eq_self)
  then show ?thesis unfolding toCompactBigEndian_def from_toBigEndian by (rule unsigned_word_eqI)
qed

lemma s2u_u2s: "s2u (u2s u) = u"
proof (cases "bit u 255")
  case True
  have "uint u < 2 ^ 256" using uint_lt2p [of u] by simp
  then show ?thesis using True by (simp add: s2u_def u2s_def)
qed (simp add: s2u_def u2s_def)

end
