(* ===== verification/Scale.thy ===== *)
theory Scale
  imports Data_Convert
begin

text \<open>
  The SCALE codec of the blockchain node, \<^verbatim>\<open>fisco-smart/bcos-codec/bcos-codec/scale\<close>: the encoder and
  the decoder stream with their operators for integers, compact integers, booleans, 256-bit numbers,
  pairs, tuples, variants, pointers, optionals, fixed-size data, vectors, strings and maps.

  A template over an item type is a function of the operator of that type. An exception is the left
  value of a sum; \<open>OUT_OF_BOUNDS\<close> stands for moving the iterator of the input span behind its end,
  which the code does not check and which is left to the span (GSL ends the process). The encoder
  stream is the list of bytes written so far. The iterator and the index of the decoder move together
  and are one position; the addition in \<^verbatim>\<open>hasMore\<close> wraps at 64 bits. Boost and the allocator are
  parameters: the bytes of an \<^verbatim>\<open>endian_buffer\<close>, the conversion of an unbounded integer to a machine
  integer, and the outcome of resizing a vector. Decoding into a \<^verbatim>\<open>std::list\<close> calls \<^verbatim>\<open>reserve\<close>, which
  lists do not have, and is left out.
\<close>

section \<open>Results and streams\<close>

datatype scale_error =
    NEGATIVE_COMPACT_INTEGER | COMPACT_INTEGER_TOO_BIG | DEREF_NULLPOINTER | NOT_ENOUGH_DATA
  | UNEXPECTED_VALUE | WRONG_TYPE_INDEX | TOO_MANY_ITEMS | LENGTH_ERROR | OUT_OF_BOUNDS | SIGNED_OVERFLOW

type_synonym 'a res = "scale_error + 'a"

definition and_then :: "'a res \<Rightarrow> ('a \<Rightarrow> 'b res) \<Rightarrow> 'b res" where
  "and_then r f = (case r of Inl e \<Rightarrow> Inl e | Inr x \<Rightarrow> f x)"

lemma and_then_simps [simp]: "and_then (Inl e) f = Inl e" "and_then (Inr x) f = f x"
  by (simp_all add: and_then_def)

datatype resize_outcome = Resized | Bad_alloc | Length_error

record scale_env =
  endian_data :: "nat \<Rightarrow> nat \<Rightarrow> bytes"
  convert_to :: "nat \<Rightarrow> int \<Rightarrow> nat"
  resize :: "nat \<Rightarrow> resize_outcome"

record decoder =
  m_span :: bytes
  m_currentIndex :: nat

type_synonym 'a encode = "'a \<Rightarrow> bytes \<Rightarrow> bytes res"
type_synonym 'a decode = "decoder \<Rightarrow> ('a \<times> decoder) res"

section \<open>Encoding integers\<close>

definition putByte :: "u8 \<Rightarrow> bytes \<Rightarrow> bytes" where
  "putByte v s = s @ [v]"

definition encodeInteger :: "scale_env \<Rightarrow> 'a::len word encode" where
  "encodeInteger env val s = Inr (fold putByte (endian_data env (LENGTH('a) div 8) (unat val)) s)"

definition enc_integral :: "scale_env \<Rightarrow> 'a::len word encode" where
  "enc_integral env val s =
     (if LENGTH('a) = 8 then Inr (putByte (ucast val) s) else encodeInteger env val s)"

definition enc_bool :: "bool encode" where
  "enc_bool v s = Inr (putByte (if v then 1 else 0) s)"

abbreviation kMinUint16 :: int where "kMinUint16 \<equiv> 2 ^ 6"
abbreviation kMinUint32 :: int where "kMinUint32 \<equiv> 2 ^ 14"
abbreviation kMinBigInteger :: int where "kMinBigInteger \<equiv> 2 ^ 30"

fun countBytes :: "nat \<Rightarrow> nat" where
  "countBytes v = (if v div 256 \<noteq> 0 then Suc (countBytes (v div 256)) else 1)"

declare countBytes.simps [simp del]

definition compactLen :: "nat \<Rightarrow> nat" where
  "compactLen val =
     (if int val < kMinUint16 then 1 else if int val < kMinUint32 then 2
      else if int val < kMinBigInteger then 4 else countBytes val)"

definition encodeFirstCategory :: "u8 \<Rightarrow> bytes \<Rightarrow> bytes" where
  "encodeFirstCategory val s = putByte (push_bit 2 val) s"

definition encodeSecondCategory :: "u16 \<Rightarrow> bytes \<Rightarrow> bytes" where
  "encodeSecondCategory val s =
     (let v = push_bit 2 val + 1;
          minor_byte = ucast (v AND 0xff);
          v = drop_bit 8 v;
          major_byte = ucast (v AND 0xff)
      in putByte major_byte (putByte minor_byte s))"

definition encodeThirdCategory :: "scale_env \<Rightarrow> u32 encode" where
  "encodeThirdCategory env val s = encodeInteger env (push_bit 2 val + 2) s"

text \<open>The least significant bytes of a non-negative integer.\<close>

fun big_integer_bytes :: "nat \<Rightarrow> int \<Rightarrow> bytes" where
  "big_integer_bytes 0 v = []"
| "big_integer_bytes (Suc n) v = word_of_int (v mod 256) # big_integer_bytes n (v div 256)"

definition encodeCompactInteger :: "scale_env \<Rightarrow> int encode" where
  "encodeCompactInteger env val s =
     (if val < 0 then Inl NEGATIVE_COMPACT_INTEGER
      else if val < kMinUint16 then Inr (encodeFirstCategory (of_nat (convert_to env 8 val)) s)
      else if val < kMinUint32 then Inr (encodeSecondCategory (of_nat (convert_to env 16 val)) s)
      else if val < kMinBigInteger then encodeThirdCategory env (of_nat (convert_to env 32 val)) s
      else (let bigIntLength = countBytes (nat val)
            in if bigIntLength > 67 then Inl COMPACT_INTEGER_TOO_BIG
               else (let header = of_nat ((bigIntLength - 4) * 4 + 3)
                     in Inr (fold putByte (header # big_integer_bytes bigIntLength val) s))))"

definition enc_u256 :: "u256 encode" where
  "enc_u256 val s = Inr (s @ toBigEndian_u256 val)"

definition enc_s256 :: "int encode" where
  "enc_s256 val s = enc_u256 (s2u val) s"

section \<open>Encoding compound data\<close>

definition encodeOptionalBool :: "bool option encode" where
  "encodeOptionalBool v s =
     Inr (putByte (case v of None \<Rightarrow> 0 | Some b \<Rightarrow> (if \<not> b then 2 else 1)) s)"

definition enc_optional :: "'a encode \<Rightarrow> 'a option encode" where
  "enc_optional enc v s =
     (case v of None \<Rightarrow> Inr (putByte 0 s) | Some x \<Rightarrow> enc x (putByte 1 s))"

definition enc_ptr :: "'a encode \<Rightarrow> 'a option encode" where
  "enc_ptr enc v s = (case v of None \<Rightarrow> Inl DEREF_NULLPOINTER | Some x \<Rightarrow> enc x s)"

definition enc_pair :: "'a encode \<Rightarrow> 'b encode \<Rightarrow> ('a \<times> 'b) encode" where
  "enc_pair enc1 enc2 p s = and_then (enc1 (fst p) s) (enc2 (snd p))"

definition enc_tuple3 :: "'a encode \<Rightarrow> 'b encode \<Rightarrow> 'c encode \<Rightarrow> ('a \<times> 'b \<times> 'c) encode" where
  "enc_tuple3 enc1 enc2 enc3 t s =
     (case t of (x, y, z) \<Rightarrow> and_then (enc1 x s) (\<lambda>s. and_then (enc2 y s) (enc3 z)))"

definition enc_variant2 :: "'a encode \<Rightarrow> 'b encode \<Rightarrow> ('a + 'b) encode" where
  "enc_variant2 enc1 enc2 v s =
     (case v of Inl x \<Rightarrow> enc1 x (putByte 0 s) | Inr y \<Rightarrow> enc2 y (putByte 1 s))"

fun enc_items :: "'a encode \<Rightarrow> 'a list encode" where
  "enc_items enc [] s = Inr s"
| "enc_items enc (x # xs) s = and_then (enc x s) (enc_items enc xs)"

text \<open>Arrays and fixed-size bytes have no length in front.\<close>

definition enc_array :: "'a encode \<Rightarrow> 'a list encode" where
  "enc_array enc a s = enc_items enc a s"

definition encodeCollection :: "scale_env \<Rightarrow> 'a encode \<Rightarrow> 'a list encode" where
  "encodeCollection env enc xs s =
     and_then (encodeCompactInteger env (int (length xs)) s) (enc_items enc xs)"

text \<open>Byte-sized items, as in byte vectors and strings; a map is the list of its pairs by key.\<close>

definition enc_byte :: "u8 encode" where
  "enc_byte v s = Inr (putByte v s)"

definition enc_FixedBytes :: "bytes encode" where
  "enc_FixedBytes fixedData s = enc_items enc_byte fixedData s"

definition enc_vector_bytes :: "scale_env \<Rightarrow> bytes encode" where
  "enc_vector_bytes env v s = encodeCollection env enc_byte v s"

definition enc_string :: "scale_env \<Rightarrow> string encode" where
  "enc_string env v s = encodeCollection env (\<lambda>c. enc_byte (of_char c)) v s"

definition enc_map :: "scale_env \<Rightarrow> 'k encode \<Rightarrow> 'v encode \<Rightarrow> ('k \<times> 'v) list encode" where
  "enc_map env enck encv m s = encodeCollection env (enc_pair enck encv) m s"

section \<open>Decoding integers\<close>

definition hasMore :: "nat \<Rightarrow> decoder \<Rightarrow> bool" where
  "hasMore n d \<longleftrightarrow> (m_currentIndex d + n) mod 2 ^ 64 \<le> length (m_span d)"

definition nextByte :: "u8 decode" where
  "nextByte d =
     (if \<not> hasMore 1 d then Inl NOT_ENOUGH_DATA
      else Inr (m_span d ! m_currentIndex d, d\<lparr>m_currentIndex := m_currentIndex d + 1\<rparr>))"

text \<open>The loop with the table of multipliers.\<close>

fun read_little_endian :: "nat \<Rightarrow> nat \<Rightarrow> u64 \<Rightarrow> u64 decode" where
  "read_little_endian i 0 v d = Inr (v, d)"
| "read_little_endian i (Suc n) v d =
     and_then (nextByte d) (\<lambda>(b, d). read_little_endian (Suc i) n (v + 2 ^ (8 * i) * ucast b) d)"

text \<open>
  The negation of a signed type of four bytes or more overflows on the least value, which C++ leaves
  undefined: \<^const>\<open>SIGNED_OVERFLOW\<close>. Narrower types are promoted to \<^verbatim>\<open>int\<close> before the negation and wrap
  when they are cut again.
\<close>

definition decodeInteger :: "bool \<Rightarrow> 'a::len word decode" where
  "decodeInteger is_unsigned d =
     (let size = LENGTH('a) div 8
      in if \<not> hasMore size d then Inl NOT_ENOUGH_DATA
         else and_then (read_little_endian 0 size 0 d) (\<lambda>(v, d).
           let is_positive_signed = v < 2 ^ (8 * size - 1)
           in if is_unsigned \<or> is_positive_signed then Inr (ucast v, d)
              else if 4 \<le> size \<and> v = 2 ^ (8 * size - 1) then Inl SIGNED_OVERFLOW
              else Inr (- ucast (NOT v + 1), d)))"

definition decodeBool :: "bool decode" where
  "decodeBool d =
     and_then (nextByte d) (\<lambda>(b, d). if b = 0 then Inr (False, d) else if b = 1 then Inr (True, d)
                                      else Inl UNEXPECTED_VALUE)"

definition dec_integral :: "bool \<Rightarrow> 'a::len word decode" where
  "dec_integral is_unsigned d =
     (if LENGTH('a) = 8 then and_then (nextByte d) (\<lambda>(b, d). Inr (ucast b, d))
      else decodeInteger is_unsigned d)"

fun read_big_integer :: "nat \<Rightarrow> int \<Rightarrow> int \<Rightarrow> int decode" where
  "read_big_integer 0 multiplier v d = Inr (v, d)"
| "read_big_integer (Suc n) multiplier v d =
     and_then (nextByte d) (\<lambda>(b, d). read_big_integer n (multiplier * 256) (v + uint b * multiplier) d)"

text \<open>The switch on the two low bits of the first byte.\<close>

definition decodeCompactRest :: "u8 \<Rightarrow> int decode" where
  "decodeCompactRest first_byte d =
     (let flag = first_byte AND 3
      in if flag = 0 then Inr (uint (drop_bit 2 first_byte), d)
         else if flag = 1
         then and_then (nextByte d) (\<lambda>(second_byte, d).
                Inr (uint (drop_bit 2 (ucast (first_byte AND 0xfc) + ucast second_byte * 256 :: u64)), d))
         else if flag = 2
         then (if \<not> hasMore 3 d then Inl NOT_ENOUGH_DATA
               else and_then (read_little_endian 1 3 (ucast first_byte) d) (\<lambda>(number, d).
                      Inr (uint (drop_bit 2 number), d)))
         else (let bytes_count = unat (drop_bit 2 first_byte) + 4
               in if \<not> hasMore bytes_count d then Inl NOT_ENOUGH_DATA
                  else read_big_integer bytes_count 1 0 d))"

definition decodeCompactInteger :: "int decode" where
  "decodeCompactInteger d = and_then (nextByte d) (\<lambda>(first_byte, d). decodeCompactRest first_byte d)"

definition dec_u256 :: "u256 decode" where
  "dec_u256 d =
     (if length (m_span d) < m_currentIndex d + 32 then Inl OUT_OF_BOUNDS
      else Inr (fromBigEndian (take 32 (drop (m_currentIndex d) (m_span d))),
                d\<lparr>m_currentIndex := m_currentIndex d + 32\<rparr>))"

definition dec_s256 :: "int decode" where
  "dec_s256 d = and_then (dec_u256 d) (\<lambda>(v, d). Inr (u2s v, d))"

section \<open>Decoding compound data\<close>

definition decodeOptionalBool :: "bool option decode" where
  "decodeOptionalBool d =
     and_then (nextByte d) (\<lambda>(b, d).
       if b = 0 then Inr (None, d) else if b = 2 then Inr (Some False, d)
       else if b = 1 then Inr (Some True, d) else Inl UNEXPECTED_VALUE)"

definition dec_optional :: "'a decode \<Rightarrow> 'a option decode" where
  "dec_optional dec d =
     and_then (decodeBool d) (\<lambda>(has_value, d).
       if \<not> has_value then Inr (None, d) else and_then (dec d) (\<lambda>(x, d). Inr (Some x, d)))"

definition dec_ptr :: "'a decode \<Rightarrow> 'a option decode" where
  "dec_ptr dec d = and_then (dec d) (\<lambda>(x, d). Inr (Some x, d))"

definition dec_pair :: "'a decode \<Rightarrow> 'b decode \<Rightarrow> ('a \<times> 'b) decode" where
  "dec_pair dec1 dec2 d =
     and_then (dec1 d) (\<lambda>(x, d). and_then (dec2 d) (\<lambda>(y, d). Inr ((x, y), d)))"

definition dec_tuple3 :: "'a decode \<Rightarrow> 'b decode \<Rightarrow> 'c decode \<Rightarrow> ('a \<times> 'b \<times> 'c) decode" where
  "dec_tuple3 dec1 dec2 dec3 d =
     and_then (dec1 d) (\<lambda>(x, d). and_then (dec2 d) (\<lambda>(y, d).
       and_then (dec3 d) (\<lambda>(z, d). Inr ((x, y, z), d))))"

definition dec_variant2 :: "'a decode \<Rightarrow> 'b decode \<Rightarrow> ('a + 'b) decode" where
  "dec_variant2 dec1 dec2 d =
     and_then (nextByte d) (\<lambda>(type_index, d).
       if type_index \<ge> 2 then Inl WRONG_TYPE_INDEX
       else if type_index = 0 then and_then (dec1 d) (\<lambda>(x, d). Inr (Inl x, d))
       else and_then (dec2 d) (\<lambda>(y, d). Inr (Inr y, d)))"

fun dec_items :: "'a decode \<Rightarrow> nat \<Rightarrow> 'a list decode" where
  "dec_items dec 0 d = Inr ([], d)"
| "dec_items dec (Suc n) d =
     and_then (dec d) (\<lambda>(x, d). and_then (dec_items dec n d) (\<lambda>(xs, d). Inr (x # xs, d)))"

definition dec_array :: "'a decode \<Rightarrow> nat \<Rightarrow> 'a list decode" where
  "dec_array dec n d = dec_items dec n d"

definition dec_FixedBytes :: "nat \<Rightarrow> bytes decode" where
  "dec_FixedBytes n d = dec_items nextByte n d"

definition resized :: "scale_env \<Rightarrow> nat \<Rightarrow> 'a res \<Rightarrow> 'a res" where
  "resized env n r =
     (case resize env n of Resized \<Rightarrow> r | Bad_alloc \<Rightarrow> Inl TOO_MANY_ITEMS | Length_error \<Rightarrow> Inl LENGTH_ERROR)"

definition dec_vector :: "scale_env \<Rightarrow> 'a decode \<Rightarrow> 'a list decode" where
  "dec_vector env dec d =
     and_then (decodeCompactInteger d) (\<lambda>(size, d).
       let item_count = convert_to env 64 size
       in resized env item_count (dec_items dec item_count d))"

text \<open>Byte-sized items are copied from the span at once.\<close>

definition dec_vector_bytes :: "scale_env \<Rightarrow> bytes decode" where
  "dec_vector_bytes env d =
     and_then (decodeCompactInteger d) (\<lambda>(size, d).
       let item_count = convert_to env 64 size
       in resized env item_count
            (if length (m_span d) < m_currentIndex d + item_count then Inl OUT_OF_BOUNDS
             else Inr (take item_count (drop (m_currentIndex d) (m_span d)),
                       d\<lparr>m_currentIndex := m_currentIndex d + item_count\<rparr>)))"

definition dec_string :: "scale_env \<Rightarrow> string decode" where
  "dec_string env d = and_then (dec_vector_bytes env d) (\<lambda>(v, d). Inr (map (\<lambda>b. char_of (unat b)) v, d))"

text \<open>A map is kept in the order of its keys; a second entry for a key is dropped.\<close>

fun emplace :: "'k::linorder \<times> 'v \<Rightarrow> ('k \<times> 'v) list \<Rightarrow> ('k \<times> 'v) list" where
  "emplace p [] = [p]"
| "emplace p (q # m) =
     (if fst p < fst q then p # q # m else if fst q < fst p then q # emplace p m else q # m)"

fun dec_map_items :: "('k::linorder \<times> 'v) decode \<Rightarrow> nat \<Rightarrow> ('k \<times> 'v) list \<Rightarrow> ('k \<times> 'v) list decode" where
  "dec_map_items dec 0 m d = Inr (m, d)"
| "dec_map_items dec (Suc n) m d = and_then (dec d) (\<lambda>(p, d). dec_map_items dec n (emplace p m) d)"

definition dec_map :: "scale_env \<Rightarrow> 'k::linorder decode \<Rightarrow> 'v decode \<Rightarrow> ('k \<times> 'v) list decode" where
  "dec_map env deck decv d =
     and_then (decodeCompactInteger d) (\<lambda>(size, d).
       dec_map_items (dec_pair deck decv) (convert_to env 64 size) [] d)"

section \<open>Whole values\<close>

definition encode :: "'a encode \<Rightarrow> 'a \<Rightarrow> bytes res" where
  "encode enc x = enc x []"

definition decode :: "'a decode \<Rightarrow> bytes \<Rightarrow> 'a res" where
  "decode dec bs = and_then (dec \<lparr>m_span = bs, m_currentIndex = 0\<rparr>) (\<lambda>(x, d). Inr x)"

end
