(* ===== verification/Scale_Laws.thy ===== *)
theory Scale_Laws
  imports Scale
begin

text \<open>
  The contract between the encoder and the decoder: what an operator writes, the operator of the same
  type reads back, wherever the bytes stand in the input and whatever follows them. The locale states
  it for a type; the operators for compound types inherit it from those of their items.
\<close>

section \<open>Writing and reading\<close>

definition emits :: "'a encode \<Rightarrow> 'a \<Rightarrow> bytes \<Rightarrow> bool" where
  "emits enc x bs \<longleftrightarrow> (\<forall>s. enc x s = Inr (s @ bs))"

definition stream_at :: "bytes \<Rightarrow> bytes \<Rightarrow> decoder" where
  "stream_at pre rest = \<lparr>m_span = pre @ rest, m_currentIndex = length pre\<rparr>"

definition reads :: "'a decode \<Rightarrow> bytes \<Rightarrow> 'a \<Rightarrow> bool" where
  "reads dec bs x \<longleftrightarrow> (\<forall>pre rest. length pre + length bs + length rest < 2 ^ 64 \<longrightarrow>
     dec (stream_at pre (bs @ rest)) = Inr (x, stream_at (pre @ bs) rest))"

lemma putByte_fold [simp]: "fold putByte bs s = s @ bs"
  by (induction bs arbitrary: s) (simp_all add: putByte_def)

lemma reads_return: "reads (\<lambda>d. Inr (x, d)) [] x"
  by (simp add: reads_def)

lemma reads_and_then:
  assumes "reads dec1 bs1 x" "reads (dec2 x) bs2 y"
  shows "reads (\<lambda>d. and_then (dec1 d) (\<lambda>(x, d). dec2 x d)) (bs1 @ bs2) y"
  unfolding reads_def
proof (intro allI impI)
  fix pre rest :: bytes assume len: "length pre + length (bs1 @ bs2) + length rest < 2 ^ 64"
  have "dec1 (stream_at pre (bs1 @ bs2 @ rest)) = Inr (x, stream_at (pre @ bs1) (bs2 @ rest))"
    using assms(1) [unfolded reads_def, rule_format, of pre "bs2 @ rest"] len by simp
  moreover have "dec2 x (stream_at (pre @ bs1) (bs2 @ rest)) = Inr (y, stream_at ((pre @ bs1) @ bs2) rest)"
    using assms(2) [unfolded reads_def, rule_format, of "pre @ bs1" rest] len by simp
  ultimately show "and_then (dec1 (stream_at pre ((bs1 @ bs2) @ rest))) (\<lambda>(x, d). dec2 x d) =
      Inr (y, stream_at (pre @ bs1 @ bs2) rest)" by simp
qed

lemma reads_map:
  assumes "reads dec bs x"
  shows "reads (\<lambda>d. and_then (dec d) (\<lambda>(x, d). Inr (f x, d))) bs (f x)"
  using reads_and_then [where ?dec2.0 = "\<lambda>x d. Inr (f x, d)", OF assms reads_return] by simp

lemma hasMore_at: "n \<le> length rest \<Longrightarrow> length pre + length rest < 2 ^ 64 \<Longrightarrow> hasMore n (stream_at pre rest)"
  by (simp add: hasMore_def stream_at_def)

lemma reads_nextByte: "reads nextByte [b] b"
  unfolding reads_def
proof (intro allI impI)
  fix pre rest :: bytes assume "length pre + length [b] + length rest < 2 ^ 64"
  then have "hasMore 1 (stream_at pre ([b] @ rest))" by (intro hasMore_at) simp_all
  then show "nextByte (stream_at pre ([b] @ rest)) = Inr (b, stream_at (pre @ [b]) rest)"
    by (simp add: nextByte_def stream_at_def)
qed

lemma reads_Cons:
  assumes "reads (dec b) bs x"
  shows "reads (\<lambda>d. and_then (nextByte d) (\<lambda>(b, d). dec b d)) (b # bs) x"
  using reads_and_then [where ?dec2.0 = dec, OF reads_nextByte assms] by simp

lemma reads_guard:
  assumes "reads dec bs x" "n \<le> length bs"
  shows "reads (\<lambda>d. if \<not> hasMore n d then Inl e else dec d) bs x"
  using assms hasMore_at [of n] by (simp add: reads_def)

section \<open>The contract\<close>

locale scale_codec =
  fixes enc :: "'a encode" and dec :: "'a decode" and ok :: "'a \<Rightarrow> bool"
  assumes roundtrip: "ok x \<Longrightarrow> \<exists>bs. emits enc x bs \<and> reads dec bs x"
begin

lemma encode_decode:
  assumes "ok x" "encode enc x = Inr bs" "length (bs @ rest) < 2 ^ 64"
  shows "decode dec (bs @ rest) = Inr x"
proof -
  obtain cs where cs: "emits enc x cs" "reads dec cs x" using roundtrip [OF assms(1)] by blast
  then have "cs = bs" using assms(2) by (simp add: emits_def encode_def)
  then have "dec (stream_at [] (bs @ rest)) = Inr (x, stream_at ([] @ bs) rest)"
    using cs(2) assms(3) unfolding reads_def by (metis add.left_neutral length_append list.size(3))
  then show ?thesis by (simp add: decode_def stream_at_def)
qed

lemma encode_succeeds: "ok x \<Longrightarrow> \<exists>bs. encode enc x = Inr bs"
  using roundtrip by (auto simp: emits_def encode_def)

text \<open>No encoding is a proper prefix of another one, and different values have different encodings.\<close>

lemma prefix_free:
  assumes "ok x" "ok y" "encode enc x = Inr bs" "encode enc y = Inr (bs @ cs)" "length (bs @ cs) < 2 ^ 64"
  shows "x = y \<and> cs = []"
proof -
  have "decode dec ((bs @ cs) @ []) = Inr y" using encode_decode [OF assms(2,4), of "[]"] assms(5) by simp
  moreover have "decode dec (bs @ cs) = Inr x" using encode_decode [OF assms(1,3,5)] .
  ultimately have "x = y" by simp
  then show ?thesis using assms(3,4) by simp
qed

end

locale scale_codec2 = a: scale_codec enc1 dec1 ok1 + b: scale_codec enc2 dec2 ok2
  for enc1 :: "'a encode" and dec1 ok1 and enc2 :: "'b encode" and dec2 ok2

section \<open>Pairs, variants, optionals and pointers\<close>

sublocale scale_codec2 \<subseteq> pair: scale_codec "enc_pair enc1 enc2" "dec_pair dec1 dec2" "\<lambda>(x, y). ok1 x \<and> ok2 y"
proof
  fix p assume "case p of (x, y) \<Rightarrow> ok1 x \<and> ok2 y"
  then obtain x y where p: "p = (x, y)" "ok1 x" "ok2 y" by (cases p) auto
  obtain bs cs where b: "emits enc1 x bs" "reads dec1 bs x" "emits enc2 y cs" "reads dec2 cs y"
    using a.roundtrip [OF p(2)] b.roundtrip [OF p(3)] by blast
  have "emits (enc_pair enc1 enc2) p (bs @ cs)"
    using b(1,3) by (simp add: emits_def enc_pair_def p)
  moreover have "reads (dec_pair dec1 dec2) (bs @ cs) p"
    unfolding dec_pair_def [abs_def] p
    by (rule reads_and_then [where ?dec2.0 = "\<lambda>x d. and_then (dec2 d) (\<lambda>(y, d). Inr ((x, y), d))", OF b(2)])
      (rule reads_map [OF b(4)])
  ultimately show "\<exists>bs. emits (enc_pair enc1 enc2) p bs \<and> reads (dec_pair dec1 dec2) bs p" by blast
qed

sublocale scale_codec2 \<subseteq> variant2: scale_codec "enc_variant2 enc1 enc2" "dec_variant2 dec1 dec2"
  "\<lambda>v. case v of Inl x \<Rightarrow> ok1 x | Inr y \<Rightarrow> ok2 y"
proof
  fix v assume ok: "case v of Inl x \<Rightarrow> ok1 x | Inr y \<Rightarrow> ok2 y"
  let ?pick = "\<lambda>(type_index :: u8) d. if type_index \<ge> 2 then Inl WRONG_TYPE_INDEX
       else if type_index = 0 then and_then (dec1 d) (\<lambda>(x, d). Inr (Inl x, d))
       else and_then (dec2 d) (\<lambda>(y, d). Inr (Inr y, d))"
  show "\<exists>bs. emits (enc_variant2 enc1 enc2) v bs \<and> reads (dec_variant2 dec1 dec2) bs v"
  proof (cases v)
    case (Inl x)
    then obtain bs where b: "emits enc1 x bs" "reads dec1 bs x" using ok a.roundtrip by auto
    have "emits (enc_variant2 enc1 enc2) v (0 # bs)" using b(1) Inl by (simp add: emits_def enc_variant2_def putByte_def)
    moreover have "reads (?pick 0) bs v" using reads_map [OF b(2), of Inl] Inl by simp
    then have "reads (dec_variant2 dec1 dec2) (0 # bs) v"
      unfolding dec_variant2_def [abs_def] by (rule reads_Cons [where dec = ?pick])
    ultimately show ?thesis by blast
  next
    case (Inr y)
    then obtain bs where b: "emits enc2 y bs" "reads dec2 bs y" using ok b.roundtrip by auto
    have "emits (enc_variant2 enc1 enc2) v (1 # bs)" using b(1) Inr by (simp add: emits_def enc_variant2_def putByte_def)
    moreover have "reads (?pick 1) bs v" using reads_map [OF b(2), of Inr] Inr by (simp add: word_le_nat_alt)
    then have "reads (dec_variant2 dec1 dec2) (1 # bs) v"
      unfolding dec_variant2_def [abs_def] by (rule reads_Cons [where dec = ?pick])
    ultimately show ?thesis by blast
  qed
qed

lemma reads_decodeBool: "reads decodeBool [if b then 1 else 0] b"
proof -
  let ?pick = "\<lambda>(c :: u8) d. if c = 0 then Inr (False, d) else if c = 1 then Inr (True, d) else Inl UNEXPECTED_VALUE"
  have "reads (?pick (if b then 1 else 0)) [] b" using reads_return [of b] by (cases b) simp_all
  then show ?thesis unfolding decodeBool_def [abs_def] by (rule reads_Cons [where dec = ?pick])
qed

context scale_codec
begin

lemma optional_codec: "scale_codec (enc_optional enc) (dec_optional dec) (pred_option ok)"
proof
  fix v assume ok: "pred_option ok v"
  show "\<exists>bs. emits (enc_optional enc) v bs \<and> reads (dec_optional dec) bs v"
  proof (cases v)
    case None
    have "reads (dec_optional dec) ([if False then 1 else 0] @ []) None"
      unfolding dec_optional_def [abs_def]
      by (rule reads_and_then [where ?dec2.0 = "\<lambda>h d. if \<not> h then Inr (None, d) else and_then (dec d) (\<lambda>(x, d). Inr (Some x, d))", OF reads_decodeBool [of False]]) (simp add: reads_return)
    then show ?thesis using None by (auto simp: emits_def enc_optional_def putByte_def intro!: exI [of _ "[0]"])
  next
    case (Some x)
    then obtain bs where b: "emits enc x bs" "reads dec bs x" using ok roundtrip by auto
    have "reads (dec_optional dec) ([if True then 1 else 0] @ bs) (Some x)"
      unfolding dec_optional_def [abs_def]
      by (rule reads_and_then [where ?dec2.0 = "\<lambda>h d. if \<not> h then Inr (None, d) else and_then (dec d) (\<lambda>(x, d). Inr (Some x, d))", OF reads_decodeBool [of True]]) (simp add: reads_map [OF b(2)])
    then show ?thesis using Some b(1)
      by (auto simp: emits_def enc_optional_def putByte_def intro!: exI [of _ "1 # bs"])
  qed
qed

lemma ptr_codec: "scale_codec (enc_ptr enc) (dec_ptr dec) (\<lambda>v. case v of None \<Rightarrow> False | Some x \<Rightarrow> ok x)"
proof
  fix v assume "case v of None \<Rightarrow> False | Some x \<Rightarrow> ok x"
  then obtain x where v: "v = Some x" "ok x" by (auto split: option.splits)
  then obtain bs where b: "emits enc x bs" "reads dec bs x" using roundtrip by blast
  then have "emits (enc_ptr enc) v bs \<and> reads (dec_ptr dec) bs v"
    using reads_map [OF b(2), of Some] v by (simp add: emits_def enc_ptr_def dec_ptr_def [abs_def])
  then show "\<exists>bs. emits (enc_ptr enc) v bs \<and> reads (dec_ptr dec) bs v" by blast
qed

end

end
