(* ===== verification/Scale_Int.thy ===== *)
theory Scale_Int
  imports Scale_Laws
begin

text \<open>
  Integers of the SCALE codec: fixed-width integers, signed and unsigned, and compact integers of all
  four categories satisfy the contract of the codec.
\<close>

section \<open>The parameters\<close>

text \<open>
  What is documented of Boost: an \<^verbatim>\<open>endian_buffer\<close> of order \<^verbatim>\<open>little\<close> holds the bytes of the value from
  the least significant one, and \<^verbatim>\<open>convert_to\<close> keeps a value that fits.
\<close>

definition scale_env_ok :: "scale_env \<Rightarrow> bool" where
  "scale_env_ok env \<longleftrightarrow>
     (\<forall>n v. endian_data env n v = map (\<lambda>i. of_nat (v div 256 ^ i)) [0..<n]) \<and>
     (\<forall>bits v. 0 \<le> v \<and> v < 2 ^ bits \<longrightarrow> convert_to env bits v = nat v)"

section \<open>Fixed-width integers\<close>

definition le_bytes :: "nat \<Rightarrow> nat \<Rightarrow> bytes" where
  "le_bytes n v = map (\<lambda>i. of_nat (v div 256 ^ i)) [0..<n]"

lemma length_le_bytes [simp]: "length (le_bytes n v) = n"
  by (simp add: le_bytes_def)

lemma le_bytes_0 [simp]: "le_bytes 0 v = []"
  by (simp add: le_bytes_def)

lemma le_bytes_Suc: "le_bytes (Suc n) v = of_nat v # le_bytes n (v div 256)"
  by (simp add: le_bytes_def map_upt_Suc div_mult2_eq del: upt_Suc)

lemma ucast_byte: "(ucast (of_nat v :: u8) :: u64) = of_nat (v mod 256)"
proof -
  have b: "unat (of_nat v :: u8) = v mod 256" by (simp add: unat_of_nat take_bit_eq_mod)
  have "v mod 256 < 2 ^ 64" by (rule order_less_trans [of _ 256]) simp_all
  then have "unat (ucast (of_nat v :: u8) :: u64) = unat (of_nat (v mod 256) :: u64)"
    unfolding unsigned_ucast_eq b by (simp add: unat_of_nat take_bit_nat_eq_self)
  then show ?thesis by (rule unsigned_word_eqI)
qed

lemma reads_little_endian:
  "reads (read_little_endian i n v) (le_bytes n w) (v + 2 ^ (8 * i) * of_nat (w mod 256 ^ n))"
proof (induction n arbitrary: i v w)
  case 0
  then show ?case using reads_return by simp
next
  case (Suc n)
  have "w mod 256 ^ Suc n = w mod 256 + 256 * ((w div 256) mod 256 ^ n)"
    by (simp add: mod_mult2_eq add.commute)
  then have sum: "v + 2 ^ (8 * i) * of_nat (w mod 256 ^ Suc n) =
      v + 2 ^ (8 * i) * ucast (of_nat w :: u8) + 2 ^ (8 * Suc i) * of_nat ((w div 256) mod 256 ^ n)"
    by (simp add: ucast_byte power_add algebra_simps)
  have "reads (\<lambda>d. and_then (nextByte d) (\<lambda>(b, d). read_little_endian (Suc i) n (v + 2 ^ (8 * i) * ucast b) d))
      (of_nat w # le_bytes n (w div 256))
      (v + 2 ^ (8 * i) * ucast (of_nat w :: u8) + 2 ^ (8 * Suc i) * of_nat ((w div 256) mod 256 ^ n))"
    by (rule reads_Cons [where dec = "\<lambda>b. read_little_endian (Suc i) n (v + 2 ^ (8 * i) * ucast b)"]) (rule Suc)
  then show ?case unfolding le_bytes_Suc sum by (simp add: reads_def)
qed

text \<open>The negation of the negated value is the value: the signed branch computes the same bits.\<close>

lemma ucast_neg_neg:
  assumes "LENGTH('a::len) \<le> 64"
  shows "- (ucast (NOT (v :: u64) + 1) :: 'a word) = ucast v"
proof -
  have cut: "take_bit LENGTH('a) (- k) = take_bit LENGTH('a) (- take_bit 64 k)" for k :: int
  proof -
    have "take_bit LENGTH('a) (- take_bit 64 k) = take_bit LENGTH('a) (- take_bit LENGTH('a) (take_bit 64 k))"
      by (rule take_bit_minus [symmetric])
    also have "take_bit LENGTH('a) (take_bit 64 k) = take_bit LENGTH('a) k"
      using assms by (simp add: take_bit_take_bit min_absorb1)
    also have "take_bit LENGTH('a) (- take_bit LENGTH('a) k) = take_bit LENGTH('a) (- k)" by (rule take_bit_minus)
    finally show ?thesis by (rule sym)
  qed
  have "(ucast (- v) :: 'a word) = - ucast v"
    using assms by transfer (simp add: take_bit_take_bit min_absorb1 cut [symmetric])
  then show ?thesis by (simp add: minus_eq_not_plus_1 [symmetric])
qed

lemma ucast_up_down:
  assumes "LENGTH('a::len) \<le> LENGTH('b::len)"
  shows "ucast (ucast (x :: 'a word) :: 'b word) = x"
proof (rule unsigned_word_eqI)
  show "uint (ucast (ucast x :: 'b word) :: 'a word) = uint x"
    using assms by (simp add: unsigned_ucast_eq take_bit_word_eq_self)
qed

definition least_signed :: "'a::len word \<Rightarrow> bool" where
  "least_signed x \<longleftrightarrow> 32 \<le> LENGTH('a) \<and> x = 2 ^ (LENGTH('a) - 1)"

lemma ucast_least:
  assumes "LENGTH('a::len) = 8 * n" "0 < n" "n \<le> 8"
  shows "(ucast (x :: 'a word) :: u64) = 2 ^ (8 * n - 1) \<longleftrightarrow> x = 2 ^ (8 * n - 1)"
proof -
  have "(ucast (2 ^ (8 * n - 1) :: 'a word) :: u64) = 2 ^ (8 * n - 1)"
    using assms by transfer (simp add: take_bit_push_bit)
  moreover have "x = y" if "(ucast x :: u64) = ucast y" for y :: "'a word"
  proof -
    have "LENGTH('a) \<le> LENGTH(64)" using assms by simp
    then show ?thesis using arg_cong [OF that, of "ucast :: u64 \<Rightarrow> 'a word"]
      by (simp only: ucast_up_down)
  qed
  ultimately show ?thesis by metis
qed

lemma reads_bytes_of:
  fixes x :: "'a::len word"
  assumes n: "LENGTH('a) = 8 * n"
  shows "reads (read_little_endian 0 n 0) (le_bytes n (unat x)) (ucast x)"
proof -
  have "unat x < 2 ^ (8 * n)" using unsigned_less [of x, where ?'a = nat] n(1) by simp
  moreover have "(256 :: nat) ^ n = 2 ^ (8 * n)" by (simp add: power_mult)
  ultimately have "unat x mod 256 ^ n = unat x" by (intro mod_less) simp
  then have "0 + 2 ^ (8 * 0) * of_nat (unat x mod 256 ^ n) = (ucast x :: u64)" by simp
  then show ?thesis using reads_little_endian [of 0 n 0 "unat x"] by simp
qed

lemma reads_decodeInteger:
  assumes n: "LENGTH('a::len) = 8 * n" "0 < n" "n \<le> 8" and x: "is_unsigned \<or> \<not> least_signed (x :: 'a word)"
  shows "reads (decodeInteger is_unsigned) (le_bytes n (unat x)) x"
proof -
  have len: "LENGTH('a) \<le> 64" "LENGTH('a) div 8 = n" using n by simp_all
  let ?fin = "\<lambda>(v :: u64) d. if is_unsigned \<or> v < 2 ^ (8 * n - 1) then Inr (ucast v :: 'a word, d)
    else if 4 \<le> n \<and> v = 2 ^ (8 * n - 1) then Inl SIGNED_OVERFLOW else Inr (- ucast (NOT v + 1), d)"
  have "is_unsigned \<or> \<not> (4 \<le> n \<and> (ucast x :: u64) = 2 ^ (8 * n - 1))"
    using x unfolding ucast_least [OF n] least_signed_def n(1) by auto
  then have "?fin (ucast x) = (\<lambda>d. Inr (x, d))"
    by (auto simp: ucast_neg_neg [OF len(1)] ucast_up_down len)
  then have "reads (?fin (ucast x)) [] x" by (rule ssubst) (rule reads_return)
  from reads_and_then [where ?dec2.0 = ?fin, OF reads_bytes_of [OF n(1)] this]
  have "reads (\<lambda>d. and_then (read_little_endian 0 n 0 d) (\<lambda>(v, d). ?fin v d)) (le_bytes n (unat x)) x" by simp
  from reads_guard [OF this, of n NOT_ENOUGH_DATA]
  show ?thesis unfolding decodeInteger_def [abs_def] Let_def len(2) by simp
qed

lemma decodeInteger_least:
  assumes n: "LENGTH('a::len) = 8 * n" "n \<le> 8" and x: "least_signed (x :: 'a word)"
    and "length pre + length (le_bytes n (unat x)) + length rest < 2 ^ 64"
  shows "(decodeInteger False :: 'a word decode) (stream_at pre (le_bytes n (unat x) @ rest)) = Inl SIGNED_OVERFLOW"
proof -
  have len: "LENGTH('a) div 8 = n" "4 \<le> n" "0 < n" using n x by (simp_all add: least_signed_def)
  have v: "(ucast x :: u64) = 2 ^ (8 * n - 1)"
    using ucast_least [OF n(1) len(3) n(2)] x by (simp add: least_signed_def n(1))
  have "hasMore n (stream_at pre (le_bytes n (unat x) @ rest))" using assms(4) by (intro hasMore_at) simp_all
  then show ?thesis
    using reads_bytes_of [OF n(1), of x, unfolded reads_def, rule_format, OF assms(4)] len
    by (simp add: decodeInteger_def v)
qed

lemma encodes_integral:
  assumes env: "scale_env_ok env" and n: "LENGTH('a::len) = 8 * n" "n \<noteq> 1"
  shows "emits (enc_integral env) (x :: 'a word) (le_bytes n (unat x))"
    and "dec_integral is_unsigned = (decodeInteger is_unsigned :: 'a word decode)"
  using n env by (auto simp: emits_def enc_integral_def encodeInteger_def le_bytes_def scale_env_ok_def dec_integral_def)

lemma enc_integral_codec:
  assumes env: "scale_env_ok env" and n: "LENGTH('a::len) = 8 * n" "0 < n" "n \<le> 8"
  shows "scale_codec (enc_integral env :: 'a word encode) (dec_integral is_unsigned)
    (\<lambda>x. is_unsigned \<or> \<not> least_signed x)"
proof
  fix x :: "'a word"
  assume x: "is_unsigned \<or> \<not> least_signed x"
  show "\<exists>bs. emits (enc_integral env) x bs \<and> reads (dec_integral is_unsigned) bs x"
  proof (cases "n = 1")
    case True
    have "ucast (ucast x :: u8) = x" using n True by (intro ucast_up_down) simp
    then have "reads (dec_integral is_unsigned) [ucast x] x"
      using reads_map [OF reads_nextByte [of "ucast x"], of "ucast :: u8 \<Rightarrow> 'a word"] n True
      by (simp add: dec_integral_def [abs_def])
    moreover have "emits (enc_integral env) x [ucast x]"
      using n True by (simp add: emits_def enc_integral_def putByte_def)
    ultimately show ?thesis by blast
  next
    case False
    show ?thesis
      using encodes_integral [OF env n(1) False] reads_decodeInteger [OF n x] by metis
  qed
qed

section \<open>Compact integers\<close>

lemma countBytes_bound: "v < 256 ^ countBytes v"
proof (induction v rule: countBytes.induct)
  case (1 v)
  show ?case
  proof (cases "v div 256 = 0")
    case True
    then show ?thesis by (subst countBytes.simps) (simp add: div_eq_0_iff)
  next
    case False
    then have "v div 256 < 256 ^ countBytes (v div 256)" using 1 by simp
    then have "v < 256 * 256 ^ countBytes (v div 256)" by (simp add: div_less_iff_less_mult mult.commute)
    then show ?thesis using False by (subst countBytes.simps) simp
  qed
qed

lemma countBytes_least: "v < 256 ^ Suc n \<Longrightarrow> countBytes v \<le> Suc n"
proof (induction n arbitrary: v)
  case 0
  then show ?case by (subst countBytes.simps) simp
next
  case (Suc n)
  then have "v div 256 < 256 ^ Suc n" by (simp add: div_less_iff_less_mult mult.commute)
  then show ?case using Suc.IH by (subst countBytes.simps) simp
qed

lemma countBytes_big: "2 ^ 30 \<le> v \<Longrightarrow> 4 \<le> countBytes v"
proof (rule ccontr)
  assume v: "2 ^ 30 \<le> v" and "\<not> 4 \<le> countBytes v"
  then have "(256 :: nat) ^ countBytes v \<le> 256 ^ 3" by (intro power_increasing) simp_all
  with countBytes_bound [of v] v show False by simp
qed

lemma countBytes_max: "countBytes v \<le> 67 \<longleftrightarrow> v < 2 ^ 536"
proof -
  have p: "(256 :: nat) ^ 67 = 2 ^ 536" by simp
  show ?thesis
  proof
    assume "countBytes v \<le> 67"
    then have "(256 :: nat) ^ countBytes v \<le> 256 ^ 67" by (intro power_increasing) simp_all
    then show "v < 2 ^ 536" using countBytes_bound [of v] p by simp
  next
    assume "v < 2 ^ 536"
    then show "countBytes v \<le> 67" using countBytes_least [of v 66] p by simp
  qed
qed

lemma length_big_integer_bytes [simp]: "length (big_integer_bytes n v) = n"
  by (induction n v rule: big_integer_bytes.induct) simp_all

lemma reads_big_integer:
  assumes "0 \<le> v"
  shows "reads (read_big_integer n m acc) (big_integer_bytes n v) (acc + m * (v mod 256 ^ n))"
  using assms
proof (induction n arbitrary: m acc v)
  case 0
  then show ?case using reads_return by simp
next
  case (Suc n)
  have b: "uint (word_of_int (v mod 256) :: u8) = v mod 256" by (simp add: uint_word_of_int_eq take_bit_eq_mod)
  have "v mod 256 ^ Suc n = v mod 256 + 256 * ((v div 256) mod 256 ^ n)"
    by (simp add: zmod_zmult2_eq add.commute)
  then have sum: "acc + m * (v mod 256 ^ Suc n) =
      acc + uint (word_of_int (v mod 256) :: u8) * m + m * 256 * ((v div 256) mod 256 ^ n)"
    unfolding b by (simp add: algebra_simps)
  have "0 \<le> v div 256" using Suc.prems by simp
  from Suc.IH [OF this, of "m * 256" "acc + uint (word_of_int (v mod 256) :: u8) * m"]
  have "reads (\<lambda>d. and_then (nextByte d) (\<lambda>(b, d). read_big_integer n (m * 256) (acc + uint b * m) d))
      (word_of_int (v mod 256) # big_integer_bytes n (v div 256))
      (acc + uint (word_of_int (v mod 256) :: u8) * m + m * 256 * ((v div 256) mod 256 ^ n))"
    by (rule reads_Cons [where dec = "\<lambda>b. read_big_integer n (m * 256) (acc + uint b * m)"])
  then show ?case unfolding sum by (simp add: reads_def)
qed

text \<open>The two low bits of the first byte, and the bits above them.\<close>

lemma byte_flag: "unat (b AND 3) = unat b mod 4" for b :: u8
proof -
  have m: "(3 :: u8) = mask 2" by (simp add: mask_eq_exp_minus_1)
  show ?thesis unfolding m take_bit_eq_mask [symmetric] unsigned_take_bit_eq by (simp add: take_bit_eq_mod)
qed

lemma byte_flag_eq: "b AND 3 = of_nat k \<longleftrightarrow> unat b mod 4 = k" if "k < 4" for b :: u8
proof -
  have "unat (of_nat k :: u8) = k" using that by (simp add: unat_of_nat take_bit_nat_eq_self)
  then show ?thesis by (metis byte_flag unsigned_word_eqI)
qed

lemmas byte_flags = byte_flag_eq [of 0, simplified] byte_flag_eq [of 1, simplified] byte_flag_eq [of 2, simplified]

lemma byte_high: "unat (b AND 0xfc) = unat b - unat b mod 4" for b :: u8
proof -
  have m: "(0xfc :: u8) = NOT (mask 2)" by (simp add: mask_eq_exp_minus_1)
  have "b = (b AND mask 2) OR (b AND NOT (mask 2))"
    by (simp only: bit.conj_disj_distrib [symmetric] bit.disj_cancel_right bit.conj_one_right)
  also have "\<dots> = (b AND mask 2) + (b AND NOT (mask 2))"
    by (rule disjunctive_add [symmetric]) (auto simp: bit_simps)
  finally have d: "b AND 0xfc = b - take_bit 2 b"
    unfolding m take_bit_eq_mask by (metis add_diff_cancel_left')
  have t: "unat (take_bit 2 b) = unat b mod 4"
    unfolding unsigned_take_bit_eq by (simp add: take_bit_eq_mod)
  have "take_bit 2 b \<le> b" by (simp add: word_le_nat_alt t)
  then show ?thesis unfolding d by (simp add: unat_sub t)
qed

lemma unat_times4:
  assumes "unat (x :: 'a::len word) * 4 + k < 2 ^ LENGTH('a)"
  shows "unat (push_bit 2 x + of_nat k) = unat x * 4 + k"
proof -
  have k: "unat (of_nat k :: 'a word) = k" using assms by (simp add: unat_of_nat take_bit_nat_eq_self)
  have "unat (push_bit 2 x) = unat x * 4"
    using assms by (simp add: push_bit_eq_mult unat_word_ariths take_bit_eq_mod mod_mult_right_eq)
  then show ?thesis using assms k by (simp add: unat_word_ariths)
qed

lemma uint_drop2: "uint (drop_bit 2 x) = int (unat x div 4)"
proof -
  have "uint (drop_bit 2 x) = int (unat (drop_bit 2 x))" by simp
  then show ?thesis unfolding unat_drop_bit_div by simp
qed

lemma reads_compact:
  assumes "reads (decodeCompactRest b) bs v"
  shows "reads decodeCompactInteger (b # bs) v"
  using reads_Cons [of decodeCompactRest, OF assms] by (simp add: decodeCompactInteger_def [abs_def])

lemma unat_of_nat_less: "n < 2 ^ LENGTH('a) \<Longrightarrow> unat (of_nat n :: 'a::len word) = n"
  by (simp add: unat_of_nat take_bit_nat_eq_self)

lemma reads_first_category:
  assumes "val < 64"
  shows "reads decodeCompactInteger [push_bit 2 (of_nat val)] (int val)"
proof -
  let ?b = "push_bit 2 (of_nat val) :: u8"
  have "unat (of_nat val :: u8) = val" using assms by (intro unat_of_nat_less) simp
  then have u: "unat ?b = val * 4" using unat_times4 [of "of_nat val :: u8" 0] assms by simp
  then have "decodeCompactRest ?b = (\<lambda>d. Inr (int val, d))"
    using byte_flags(1) [of ?b] by (auto simp: decodeCompactRest_def uint_drop2 simp del: uint_nat)
  then show ?thesis by (intro reads_compact) (simp add: reads_return)
qed

lemma low_byte: "unat (ucast (w AND 0xff) :: u8) = unat w mod 256" if "8 \<le> LENGTH('a)" for w :: "'a::len word"
proof -
  have m: "(0xff :: 'a word) = mask 8" by (simp add: mask_eq_exp_minus_1)
  show ?thesis
    unfolding m take_bit_eq_mask [symmetric] unsigned_ucast_eq unsigned_take_bit_eq by (simp add: take_bit_eq_mod)
qed

lemma drop_low:
  fixes k m :: nat
  assumes "(k + 1) mod m mod 4 = 1"
  shows "(k + 1) mod m - 1 + (k + 1) div m * m = k"
proof -
  have "(k + 1) div m * m + (k + 1) mod m = k + 1" by (rule div_mult_mod_eq)
  moreover have "(k + 1) mod m \<noteq> 0" using assms by (intro notI) simp
  ultimately show ?thesis by linarith
qed

lemma reads_second_category:
  assumes "val < 2 ^ 14"
  shows "reads decodeCompactInteger
    [ucast ((push_bit 2 (of_nat val :: u16) + 1) AND 0xff),
     ucast (drop_bit 8 (push_bit 2 (of_nat val :: u16) + 1) AND 0xff)] (int val)"
proof -
  let ?w = "push_bit 2 (of_nat val :: u16) + 1"
  let ?b = "ucast (?w AND 0xff) :: u8" and ?c = "ucast (drop_bit 8 ?w AND 0xff) :: u8"
  have "unat (of_nat val :: u16) = val" using assms by (intro unat_of_nat_less) simp
  then have w: "unat ?w = val * 4 + 1" using unat_times4 [of "of_nat val :: u16" 1] assms by simp
  have b: "unat ?b = (val * 4 + 1) mod 256" by (simp add: low_byte w)
  have "unat ?c = ((val * 4 + 1) div 256) mod 256"
    using low_byte [of "drop_bit 8 ?w"] unat_drop_bit_div [of 8 ?w] w by simp
  moreover have "(val * 4 + 1) div 256 < 256" using assms by simp
  ultimately have c: "unat ?c = (val * 4 + 1) div 256" by simp
  have "(val * 4 + 1) mod 4 = 1" by presburger
  then have m4: "(val * 4 + 1) mod 256 mod 4 = 1" by (simp add: mod_mod_cancel)
  let ?n = "ucast (?b AND 0xfc) + ucast ?c * 256 :: u64"
  have "?n = of_nat (unat (?b AND 0xfc)) + of_nat (unat ?c) * 256" by simp
  also have "\<dots> = of_nat ((val * 4 + 1) mod 256 - 1 + (val * 4 + 1) div 256 * 256)"
    unfolding byte_high b c m4 by simp
  also have "(val * 4 + 1) mod 256 - 1 + (val * 4 + 1) div 256 * 256 = val * 4"
    using m4 by (rule drop_low)
  finally have nn: "?n = of_nat (val * 4)" .
  have n: "unat ?n = val * 4" unfolding nn by (rule unat_of_nat_less) (use assms in simp)
  have "reads (\<lambda>d. and_then (nextByte d) (\<lambda>(second_byte, d).
      Inr (uint (drop_bit 2 (ucast (?b AND 0xfc) + ucast second_byte * 256 :: u64)), d))) [?c] (int val)"
    using reads_map [OF reads_nextByte [of ?c], of "\<lambda>c. uint (drop_bit 2 (ucast (?b AND 0xfc) + ucast c * 256 :: u64))"]
    by (simp only: uint_drop2 n) simp
  moreover have "?b AND 3 = 1" "?b AND 3 \<noteq> 0" using byte_flags(1,2) [of ?b] b m4 by simp_all
  ultimately have "reads (decodeCompactRest ?b) [?c] (int val)" by (simp add: decodeCompactRest_def [abs_def] Let_def)
  then show ?thesis by (rule reads_compact)
qed


lemma low_byte_split: "ucast (of_nat w :: u8) + 2 ^ (8 * 1) * of_nat (w div 256) = (of_nat w :: u64)"
proof -
  have "(of_nat (w mod 256 + 256 * (w div 256)) :: u64) = of_nat (w mod 256) + of_nat 256 * of_nat (w div 256)"
    by (simp only: of_nat_add of_nat_mult)
  moreover have "w mod 256 + 256 * (w div 256) = w" by simp
  ultimately show ?thesis unfolding ucast_byte by simp
qed

lemma reads_third_category:
  assumes "w mod 4 = 2" "w < 2 ^ 32"
  shows "reads decodeCompactInteger (le_bytes 4 w) (int (w div 4))"
proof -
  define b :: u8 where "b = of_nat w"
  have ub: "unat b = w mod 256" unfolding b_def unat_of_nat by (simp add: take_bit_eq_mod)
  have m4: "w mod 256 mod 4 = 2" using assms(1) by (simp add: mod_mod_cancel)
  have flag: "b AND 3 = 2" "b AND 3 \<noteq> 0" "b AND 3 \<noteq> 1" using byte_flags [of b] ub m4 by simp_all
  have "w div 256 < 256 ^ 3" using assms(2) by simp
  then have "(w div 256) mod 256 ^ 3 = w div 256" by simp
  then have nn: "ucast b + 2 ^ (8 * 1) * of_nat ((w div 256) mod 256 ^ 3) = (of_nat w :: u64)"
    unfolding b_def by (simp only: low_byte_split)
  have n: "unat (of_nat w :: u64) = w" by (rule unat_of_nat_less) (use assms in simp)
  have val: "uint (drop_bit 2 (of_nat w :: u64)) = int (w div 4)" unfolding uint_drop2 n by simp
  have "reads (\<lambda>d. and_then (read_little_endian 1 3 (ucast b) d) (\<lambda>(number, d). Inr (uint (drop_bit 2 number), d)))
      (le_bytes 3 (w div 256)) (int (w div 4))"
    using reads_map [OF reads_little_endian [of 1 3 "ucast b" "w div 256"], of "\<lambda>n. uint (drop_bit 2 n)"]
    unfolding nn val .
  from reads_guard [OF this, of 3 NOT_ENOUGH_DATA]
  have "reads (decodeCompactRest b) (le_bytes 3 (w div 256)) (int (w div 4))"
    using flag by (simp add: decodeCompactRest_def [abs_def] Let_def)
  then have "reads decodeCompactInteger (b # le_bytes 3 (w div 256)) (int (w div 4))" by (rule reads_compact)
  then show ?thesis using le_bytes_Suc [of 3 w] by (simp add: b_def)
qed

lemma reads_fourth_category:
  assumes "4 \<le> n" "n \<le> 67" "0 \<le> v" "v < 256 ^ n"
  shows "reads decodeCompactInteger (of_nat ((n - 4) * 4 + 3) # big_integer_bytes n v) v"
proof -
  define b :: u8 where "b = of_nat ((n - 4) * 4 + 3)"
  have "(n - 4) * 4 + 3 < 2 ^ 8" using assms(2) by simp
  then have b: "unat b = (n - 4) * 4 + 3" unfolding b_def by (subst unat_of_nat_less) simp_all
  have "(k * 4 + 3) mod 4 = 3" "(k * 4 + 3) div 4 = k" for k :: nat by presburger+
  from this [of "n - 4"]
  have flag: "b AND 3 \<noteq> 0" "b AND 3 \<noteq> 1" "b AND 3 \<noteq> 2" and "unat (drop_bit 2 b) = n - 4"
    using byte_flags [of b] b unat_drop_bit_div [of 2 b] by simp_all
  then have cnt: "unat (drop_bit 2 b) + 4 = n" using assms(1) by simp
  have "reads (read_big_integer n 1 0) (big_integer_bytes n v) v"
    using reads_big_integer [OF assms(3), of n 1 0] assms(3,4) by simp
  from reads_guard [OF this, of n NOT_ENOUGH_DATA]
  have "reads (decodeCompactRest b) (big_integer_bytes n v) v"
    using flag cnt by (simp add: decodeCompactRest_def [abs_def] Let_def)
  then show ?thesis unfolding b_def by (rule reads_compact)
qed

text \<open>All non-negative integers below \<open>2 ^ 536\<close>, and only those, can be encoded.\<close>

lemma compact_codec:
  assumes env: "scale_env_ok env"
  shows "scale_codec (encodeCompactInteger env) decodeCompactInteger (\<lambda>v. 0 \<le> v \<and> v < 2 ^ 536)"
proof
  fix v :: int assume v: "0 \<le> v \<and> v < 2 ^ 536"
  define val where "val = nat v"
  have iv: "v = int val" using v by (simp add: val_def)
  have cv: "convert_to env bits v = val" if "v < 2 ^ bits" for bits
    using env v that by (simp add: scale_env_ok_def val_def)
  consider (1) "val < 64" | (2) "64 \<le> val" "val < 2 ^ 14" | (3) "2 ^ 14 \<le> val" "val < 2 ^ 30" | (4) "2 ^ 30 \<le> val"
    by linarith
  then show "\<exists>bs. emits (encodeCompactInteger env) v bs \<and> reads decodeCompactInteger bs v"
  proof cases
    case 1
    then have "emits (encodeCompactInteger env) v [push_bit 2 (of_nat val)]"
      using cv [of 8] iv by (simp add: emits_def encodeCompactInteger_def encodeFirstCategory_def putByte_def)
    then show ?thesis using reads_first_category [OF 1] iv by blast
  next
    case 2
    then have "emits (encodeCompactInteger env) v [ucast ((push_bit 2 (of_nat val :: u16) + 1) AND 0xff),
        ucast (drop_bit 8 (push_bit 2 (of_nat val :: u16) + 1) AND 0xff)]"
      using cv [of 16] iv
      by (simp add: emits_def encodeCompactInteger_def encodeSecondCategory_def putByte_def Let_def)
    then show ?thesis using reads_second_category [OF 2(2)] iv by blast
  next
    case 3
    have "unat (of_nat val :: u32) = val" using 3 by (intro unat_of_nat_less) simp
    then have "unat (push_bit 2 (of_nat val :: u32) + 2) = val * 4 + 2"
      using unat_times4 [of "of_nat val :: u32" 2] 3 by simp
    then have "emits (encodeCompactInteger env) v (le_bytes 4 (val * 4 + 2))"
      using cv [of 32] iv 3 env
      by (simp add: emits_def encodeCompactInteger_def encodeThirdCategory_def encodeInteger_def scale_env_ok_def le_bytes_def)
    moreover have "(val * 4 + 2) mod 4 = 2" "(val * 4 + 2) div 4 = val" by presburger+
    ultimately show ?thesis using reads_third_category [of "val * 4 + 2"] 3(2) iv by auto
  next
    case 4
    have "val < 2 ^ 536"
    proof -
      have "int val < int (2 ^ 536)" using v iv by simp
      then show ?thesis by (simp only: of_nat_less_iff)
    qed
    then have n: "4 \<le> countBytes val" "countBytes val \<le> 67"
      using countBytes_big [OF 4] countBytes_max [of val] by blast+
    have "int val < int (256 ^ countBytes val)" using countBytes_bound [of val] by (simp only: of_nat_less_iff)
    then have "v < 256 ^ countBytes val" using iv by simp
    then have "reads decodeCompactInteger (of_nat ((countBytes val - 4) * 4 + 3) # big_integer_bytes (countBytes val) v) v"
      using reads_fourth_category [OF n] v by blast
    moreover have "\<not> v < kMinBigInteger" using 4 iv by simp
    then have "emits (encodeCompactInteger env) v (of_nat ((countBytes val - 4) * 4 + 3) # big_integer_bytes (countBytes val) v)"
      using n v by (simp add: emits_def encodeCompactInteger_def Let_def val_def not_less putByte_def)
    ultimately show ?thesis by blast
  qed
qed

end
