(* ===== verification/Scale_Coll.thy ===== *)
theory Scale_Coll
  imports Scale_Int
begin

text \<open>
  Collections and the remaining operators of the SCALE codec satisfy its contract: vectors, byte
  vectors, strings, maps, booleans, optional booleans, 256-bit numbers and tuples.
\<close>

lemma reads_decode: "reads dec bs x \<Longrightarrow> length bs < 2 ^ 64 \<Longrightarrow> decode dec bs = Inr x"
  unfolding reads_def decode_def stream_at_def by (drule spec [of _ "[]"], drule spec [of _ "[]"]) simp

context scale_codec
begin

lemma weaken: "(\<And>x. ok' x \<Longrightarrow> ok x) \<Longrightarrow> scale_codec enc dec ok'"
  using roundtrip by unfold_locales blast

end

section \<open>Collections\<close>

lemma enc_items_emits:
  assumes "list_all2 (emits enc) xs bss"
  shows "emits (enc_items enc) xs (concat bss)"
  using assms by (induction rule: list_all2_induct) (simp_all add: emits_def)

lemma dec_items_reads:
  assumes "list_all2 (reads dec) bss xs"
  shows "reads (dec_items dec (length xs)) (concat bss) xs"
  using assms
proof (induction rule: list_all2_induct)
  case Nil
  then show ?case using reads_return by simp
next
  case (Cons bs bss x xs)
  have "reads (\<lambda>d. and_then (dec d) (\<lambda>(x, d). and_then (dec_items dec (length xs) d) (\<lambda>(xs, d). Inr (x # xs, d))))
      (bs @ concat bss) (x # xs)"
    by (rule reads_and_then [where ?dec2.0 =
          "\<lambda>x d. and_then (dec_items dec (length xs) d) (\<lambda>(xs, d). Inr (x # xs, d))", OF Cons(1)])
      (rule reads_map [OF Cons(3), of "(#) x"])
  then show ?case by (simp add: reads_def)
qed

context scale_codec
begin

text \<open>The encodings of the items of a list, one by one.\<close>

lemma items_roundtrip:
  assumes "list_all ok xs"
  shows "\<exists>bss. list_all2 (emits enc) xs bss \<and> list_all2 (reads dec) bss xs"
  using assms
proof (induction xs)
  case (Cons x xs)
  then obtain bss where "list_all2 (emits enc) xs bss \<and> list_all2 (reads dec) bss xs" by auto
  moreover obtain bs where "emits enc x bs \<and> reads dec bs x" using roundtrip Cons.prems by auto
  ultimately show ?case by (intro exI [of _ "bs # bss"]) simp
qed simp

end

context scale_codec2
begin

lemma pair_codec: "scale_codec (enc_pair enc1 enc2) (dec_pair dec1 dec2) (\<lambda>(x, y). ok1 x \<and> ok2 y)"
  by (rule pair.scale_codec_axioms)

end

text \<open>
  A collection of at most \<open>2 ^ 64\<close> items is read back when the vector can be allocated.
\<close>

lemma collection_emits:
  assumes env: "scale_env_ok env" and len: "length xs < 2 ^ 64" and xs: "emits (enc_items enc) xs bs"
  shows "\<exists>cs. emits (encodeCollection env enc) xs (cs @ bs) \<and>
    reads decodeCompactInteger cs (int (length xs)) \<and> convert_to env 64 (int (length xs)) = length xs"
proof -
  have "int (length xs) < 2 ^ 64" using len by simp
  then have v: "0 \<le> int (length xs) \<and> int (length xs) < 2 ^ 536"
    by (simp add: order_less_trans [of _ "2 ^ 64" "2 ^ 536 :: int"])
  then obtain cs where cs: "emits (encodeCompactInteger env) (int (length xs)) cs" "reads decodeCompactInteger cs (int (length xs))"
    using scale_codec.roundtrip [OF compact_codec [OF env]] by blast
  have "emits (encodeCollection env enc) xs (cs @ bs)"
    using cs(1) xs by (simp add: emits_def encodeCollection_def)
  moreover have "convert_to env 64 (int (length xs)) = length xs"
    using env \<open>int (length xs) < 2 ^ 64\<close> by (simp add: scale_env_ok_def)
  ultimately show ?thesis using cs(2) by blast
qed

lemma vector_codec:
  assumes env: "scale_env_ok env" and item: "scale_codec enc dec ok"
  shows "scale_codec (encodeCollection env enc) (dec_vector env dec)
    (\<lambda>xs. list_all ok xs \<and> length xs < 2 ^ 64 \<and> resize env (length xs) = Resized)"
proof
  fix xs assume xs: "list_all ok xs \<and> length xs < 2 ^ 64 \<and> resize env (length xs) = Resized"
  then obtain bss where b: "list_all2 (emits enc) xs bss" "list_all2 (reads dec) bss xs"
    using scale_codec.items_roundtrip [OF item] by blast
  obtain cs where c: "emits (encodeCollection env enc) xs (cs @ concat bss)"
    "reads decodeCompactInteger cs (int (length xs))" "convert_to env 64 (int (length xs)) = length xs"
    using collection_emits [OF env _ enc_items_emits [OF b(1)]] xs by blast
  let ?rest = "\<lambda>sz d. let item_count = convert_to env 64 sz in resized env item_count (dec_items dec item_count d)"
  have "reads (?rest (int (length xs))) (concat bss) xs"
    using dec_items_reads [OF b(2)] c(3) xs by (simp add: resized_def)
  then have "reads (dec_vector env dec) (cs @ concat bss) xs"
    unfolding dec_vector_def [abs_def] by (rule reads_and_then [where ?dec2.0 = ?rest, OF c(2)])
  then show "\<exists>bs. emits (encodeCollection env enc) xs bs \<and> reads (dec_vector env dec) bs xs" using c(1) by blast
qed

lemma enc_byte_items: "emits (enc_items enc_byte) bs bs"
  by (induction bs) (simp_all add: emits_def enc_byte_def putByte_def)

lemma array_codec:
  assumes "scale_codec enc dec ok"
  shows "scale_codec (enc_array enc) (dec_array dec n) (\<lambda>xs. length xs = n \<and> list_all ok xs)"
proof
  fix xs assume xs: "length xs = n \<and> list_all ok xs"
  then obtain bss where b: "list_all2 (emits enc) xs bss" "list_all2 (reads dec) bss xs"
    using scale_codec.items_roundtrip [OF assms] by blast
  have "emits (enc_array enc) xs (concat bss)" "reads (dec_array dec n) (concat bss) xs"
    using enc_items_emits [OF b(1)] dec_items_reads [OF b(2)] xs
    by (simp_all add: emits_def enc_array_def dec_array_def [abs_def])
  then show "\<exists>bs. emits (enc_array enc) xs bs \<and> reads (dec_array dec n) bs xs" by blast
qed

interpretation byte_codec: scale_codec enc_byte nextByte "\<lambda>b. True"
proof
  fix b :: u8
  show "\<exists>bs. emits enc_byte b bs \<and> reads nextByte bs b"
    using reads_nextByte [of b] by (auto simp: emits_def enc_byte_def putByte_def)
qed

interpretation fixed_bytes_codec: scale_codec enc_FixedBytes "dec_FixedBytes n" "\<lambda>bs. length bs = n"
  using array_codec [OF byte_codec.scale_codec_axioms, of n]
  by (simp add: scale_codec_def emits_def enc_array_def dec_array_def [abs_def] enc_FixedBytes_def dec_FixedBytes_def [abs_def] list_all_iff)

lemma vector_bytes_codec:
  assumes env: "scale_env_ok env"
  shows "scale_codec (enc_vector_bytes env) (dec_vector_bytes env)
    (\<lambda>xs. length xs < 2 ^ 64 \<and> resize env (length xs) = Resized)"
proof
  fix xs :: bytes assume xs: "length xs < 2 ^ 64 \<and> resize env (length xs) = Resized"
  then obtain cs where c: "emits (encodeCollection env enc_byte) xs (cs @ xs)"
    "reads decodeCompactInteger cs (int (length xs))" "convert_to env 64 (int (length xs)) = length xs"
    using collection_emits [OF env _ enc_byte_items] by blast
  let ?rest = "\<lambda>sz d. let item_count = convert_to env 64 sz in resized env item_count
      (if length (m_span d) < m_currentIndex d + item_count then Inl OUT_OF_BOUNDS
       else Inr (take item_count (drop (m_currentIndex d) (m_span d)),
                 d\<lparr>m_currentIndex := m_currentIndex d + item_count\<rparr>))"
  have "reads (?rest (int (length xs))) xs xs"
    using c(3) xs by (simp add: reads_def resized_def stream_at_def)
  then have "reads (dec_vector_bytes env) (cs @ xs) xs"
    unfolding dec_vector_bytes_def [abs_def] by (rule reads_and_then [where ?dec2.0 = ?rest, OF c(2)])
  moreover have "emits (enc_vector_bytes env) xs (cs @ xs)" using c(1) by (simp add: emits_def enc_vector_bytes_def)
  ultimately show "\<exists>bs. emits (enc_vector_bytes env) xs bs \<and> reads (dec_vector_bytes env) bs xs" by blast
qed

lemma enc_string_bytes: "enc_string env v s = enc_vector_bytes env (map of_char v) s"
proof -
  have "enc_items (\<lambda>c. enc_byte (of_char c)) v s = enc_items enc_byte (map of_char v) s" for s
    by (induction v arbitrary: s) (simp_all add: enc_byte_def)
  then show ?thesis by (simp add: enc_string_def enc_vector_bytes_def encodeCollection_def and_then_def split: sum.splits)
qed

lemma char_byte: "char_of (unat (of_char c :: u8)) = c"
proof -
  have "(of_char c :: nat) < 256" by (metis of_char_mod_256 mod_less_divisor zero_less_numeral)
  then have "unat (of_nat (of_char c) :: u8) = (of_char c :: nat)"
    by (simp only: unat_of_nat) (simp add: take_bit_nat_eq_self)
  then show ?thesis by (simp only: of_nat_of_char) simp
qed

lemma string_codec:
  assumes env: "scale_env_ok env"
  shows "scale_codec (enc_string env) (dec_string env) (\<lambda>v. length v < 2 ^ 64 \<and> resize env (length v) = Resized)"
proof
  fix v :: string assume v: "length v < 2 ^ 64 \<and> resize env (length v) = Resized"
  obtain bs where b: "emits (enc_vector_bytes env) (map of_char v) bs" "reads (dec_vector_bytes env) bs (map of_char v)"
    using scale_codec.roundtrip [OF vector_bytes_codec [OF env], of "map of_char v"] v by auto
  have "map (\<lambda>b. char_of (unat b)) (map of_char v :: bytes) = v"
    by (simp add: comp_def char_byte)
  then have "reads (dec_string env) bs v"
    using reads_map [OF b(2), of "map (\<lambda>b. char_of (unat b))"] by (simp add: dec_string_def [abs_def])
  moreover have "emits (enc_string env) v bs" using b(1) by (simp add: emits_def enc_string_bytes)
  ultimately show "\<exists>bs. emits (enc_string env) v bs \<and> reads (dec_string env) bs v" by blast
qed

lemma emplace_last: "\<forall>q \<in> set m. fst q < fst p \<Longrightarrow> emplace p m = m @ [p]"
  by (induction m) (auto dest: less_not_sym)

lemma dec_map_items_reads:
  assumes "list_all2 (reads dec) bss ps" "sorted_wrt (\<lambda>p q. fst p < fst q) (m @ ps)"
  shows "reads (dec_map_items dec (length ps) m) (concat bss) (m @ ps)"
  using assms
proof (induction arbitrary: m rule: list_all2_induct)
  case Nil
  then show ?case using reads_return by simp
next
  case (Cons bs bss p ps)
  have "emplace p m = m @ [p]" using Cons.prems by (intro emplace_last) (auto simp: sorted_wrt_append)
  then have "reads (dec_map_items dec (length ps) (emplace p m)) (concat bss) (m @ p # ps)"
    using Cons.IH [of "m @ [p]"] Cons.prems by simp
  from reads_and_then [where ?dec2.0 = "\<lambda>p. dec_map_items dec (length ps) (emplace p m)", OF Cons(1) this]
  show ?case by (simp add: reads_def)
qed

lemma map_codec:
  fixes deck :: "'k::linorder decode"
  assumes env: "scale_env_ok env" and k: "scale_codec enck deck okk" and v: "scale_codec encv decv okv"
  shows "scale_codec (enc_map env enck encv) (dec_map env deck decv)
    (\<lambda>m. list_all (\<lambda>(x, y). okk x \<and> okv y) m \<and> sorted_wrt (\<lambda>p q. fst p < fst q) m \<and> length m < 2 ^ 64)"
proof
  fix m assume m: "list_all (\<lambda>(x, y). okk x \<and> okv y) m \<and> sorted_wrt (\<lambda>p q. fst p < fst q) m \<and> length m < 2 ^ 64"
  have pair: "scale_codec (enc_pair enck encv) (dec_pair deck decv) (\<lambda>(x, y). okk x \<and> okv y)"
    by (rule scale_codec2.pair_codec [OF scale_codec2.intro [OF k v]])
  obtain bss where b: "list_all2 (emits (enc_pair enck encv)) m bss" "list_all2 (reads (dec_pair deck decv)) bss m"
    using scale_codec.items_roundtrip [OF pair] m by blast
  obtain cs where c: "emits (encodeCollection env (enc_pair enck encv)) m (cs @ concat bss)"
    "reads decodeCompactInteger cs (int (length m))" "convert_to env 64 (int (length m)) = length m"
    using collection_emits [OF env _ enc_items_emits [OF b(1)]] m by blast
  have "reads (dec_map_items (dec_pair deck decv) (length m) []) (concat bss) m"
    using dec_map_items_reads [OF b(2), of "[]"] m by simp
  then have "reads (dec_map_items (dec_pair deck decv) (convert_to env 64 (int (length m))) []) (concat bss) m"
    using c(3) by simp
  then have "reads (dec_map env deck decv) (cs @ concat bss) m"
    unfolding dec_map_def [abs_def]
    by (rule reads_and_then [where ?dec2.0 = "\<lambda>sz. dec_map_items (dec_pair deck decv) (convert_to env 64 sz) []", OF c(2)])
  moreover have "emits (enc_map env enck encv) m (cs @ concat bss)" using c(1) by (simp add: emits_def enc_map_def)
  ultimately show "\<exists>bs. emits (enc_map env enck encv) m bs \<and> reads (dec_map env deck decv) bs m" by blast
qed

section \<open>Booleans, 256-bit numbers and tuples\<close>

interpretation bool_codec: scale_codec enc_bool decodeBool "\<lambda>b. True"
proof
  fix b
  show "\<exists>bs. emits enc_bool b bs \<and> reads decodeBool bs b"
    using reads_decodeBool [of b] by (auto simp: emits_def enc_bool_def putByte_def)
qed

lemma option_bool_cases:
  obtains "v = None" | "v = Some True" | "v = Some False"
  by (cases v) auto

interpretation optional_bool_codec: scale_codec encodeOptionalBool decodeOptionalBool "\<lambda>b. True"
proof
  fix v :: "bool option"
  let ?byte = "(case v of None \<Rightarrow> 0 | Some b \<Rightarrow> (if \<not> b then 2 else 1)) :: u8"
  let ?pick = "\<lambda>(b :: u8) d. if b = 0 then Inr (None, d) else if b = 2 then Inr (Some False, d)
       else if b = 1 then Inr (Some True, d) else Inl UNEXPECTED_VALUE"
  have "reads (?pick ?byte) [] v" using reads_return [of v] by (cases v rule: option_bool_cases) simp_all
  then have "reads decodeOptionalBool [?byte] v"
    unfolding decodeOptionalBool_def [abs_def] by (rule reads_Cons [where dec = ?pick])
  moreover have "emits encodeOptionalBool v [?byte]" by (simp add: emits_def encodeOptionalBool_def putByte_def)
  ultimately show "\<exists>bs. emits encodeOptionalBool v bs \<and> reads decodeOptionalBool bs v" by blast
qed

lemma reads_u256: "reads dec_u256 (toBigEndian_u256 v) v"
proof -
  have "take_bit 256 v = v" by (simp add: take_bit_word_eq_self)
  then have "fromBigEndian (toBigEndian v 32) = v" using from_toBigEndian [of v 32] by simp
  then show ?thesis by (simp add: reads_def dec_u256_def stream_at_def toBigEndian_u256_def)
qed

interpretation u256_codec: scale_codec enc_u256 dec_u256 "\<lambda>v. True"
proof
  fix v :: u256
  show "\<exists>bs. emits enc_u256 v bs \<and> reads dec_u256 bs v"
    using reads_u256 [of v] by (auto simp: emits_def enc_u256_def)
qed

lemma u2s_s2u:
  assumes "- (2 ^ 255) \<le> i" "i < 2 ^ 255"
  shows "u2s (s2u i) = i"
proof (cases "0 \<le> i")
  case True
  have "\<not> bit i 255" using True assms(2) by (simp add: bit_iff_odd)
  moreover have "take_bit 256 i = i" using True assms(2) by (intro take_bit_int_eq_self) simp_all
  ultimately show ?thesis using True by (simp add: u2s_def s2u_def bit_word_of_int_iff uint_word_of_int_eq)
next
  case False
  let ?j = "2 ^ 256 + i"
  have j: "2 ^ 255 \<le> ?j" "?j < 2 ^ 256" using False assms(1) by simp_all
  then have "?j div 2 ^ 255 = 1" by (intro int_div_pos_eq [of _ _ _ "?j - 2 ^ 255"]) simp_all
  then have "bit ?j 255" by (simp add: bit_iff_odd)
  moreover have "take_bit 256 ?j = ?j" using j by (intro take_bit_int_eq_self) simp_all
  ultimately have "bit (word_of_int ?j :: u256) 255" "uint (word_of_int ?j :: u256) = ?j"
    by (simp_all only: bit_word_of_int_iff uint_word_of_int_eq) simp_all
  moreover have "s2u i = word_of_int ?j" using False by (simp only: s2u_def if_False)
  ultimately show ?thesis by (simp only: u2s_def if_True)
qed

interpretation s256_codec: scale_codec enc_s256 dec_s256 "\<lambda>i. - (2 ^ 255) \<le> i \<and> i < 2 ^ 255"
proof
  fix i :: int assume i: "- (2 ^ 255) \<le> i \<and> i < 2 ^ 255"
  have "reads dec_s256 (toBigEndian_u256 (s2u i)) (u2s (s2u i))"
    unfolding dec_s256_def [abs_def] by (rule reads_map [OF reads_u256])
  moreover have "emits enc_s256 i (toBigEndian_u256 (s2u i))" by (simp add: emits_def enc_s256_def enc_u256_def)
  ultimately show "\<exists>bs. emits enc_s256 i bs \<and> reads dec_s256 bs i" using u2s_s2u i by auto
qed

interpretation flagged_u256: scale_codec2 enc_bool decodeBool "\<lambda>b. True" enc_u256 dec_u256 "\<lambda>v. True"
  by unfold_locales

lemma tuple3_codec:
  assumes "scale_codec enc1 dec1 ok1" "scale_codec enc2 dec2 ok2" "scale_codec enc3 dec3 ok3"
  shows "scale_codec (enc_tuple3 enc1 enc2 enc3) (dec_tuple3 dec1 dec2 dec3) (\<lambda>(x, y, z). ok1 x \<and> ok2 y \<and> ok3 z)"
proof -
  have "scale_codec (enc_pair enc1 (enc_pair enc2 enc3)) (dec_pair dec1 (dec_pair dec2 dec3))
      (\<lambda>(x, yz). ok1 x \<and> (case yz of (y, z) \<Rightarrow> ok2 y \<and> ok3 z))"
    by (intro scale_codec2.pair_codec scale_codec2.intro assms)
  moreover have "enc_pair enc1 (enc_pair enc2 enc3) = enc_tuple3 enc1 enc2 enc3"
    by (auto simp: fun_eq_iff enc_pair_def enc_tuple3_def and_then_def split: sum.splits)
  moreover have "dec_pair dec1 (dec_pair dec2 dec3) = dec_tuple3 dec1 dec2 dec3"
    by (auto simp: fun_eq_iff dec_pair_def dec_tuple3_def and_then_def split: sum.splits)
  ultimately show ?thesis by (simp add: case_prod_unfold)
qed

end
