(* ===== verification/Scale_Props.thy ===== *)
theory Scale_Props
  imports Scale_Coll "HOL-Library.Char_ord" "HOL-Library.List_Lexorder"
begin

text \<open>
  Properties of the SCALE codec and of the conversions of byte strings, with their witnesses.
\<close>

section \<open>Parameters for the witnesses\<close>

definition plain_env :: scale_env where
  "plain_env = \<lparr>endian_data = \<lambda>n v. map (\<lambda>i. of_nat (v div 256 ^ i)) [0..<n],
     convert_to = \<lambda>bits v. nat (v mod 2 ^ bits),
     resize = \<lambda>n. if n < 2 ^ 32 then Resized else if n < 2 ^ 63 then Bad_alloc else Length_error\<rparr>"

lemma plain_env_ok [simp]: "scale_env_ok plain_env"
  by (simp add: scale_env_ok_def plain_env_def)

section \<open>Integers\<close>

lemma length_le_bytes_env: "scale_env_ok env \<Longrightarrow> length (endian_data env n v) = n"
  by (simp add: scale_env_ok_def)

lemma length_fold_putByte: "length (fold putByte bs s) = length s + length bs"
  by simp

lemma big_integer_bytes_numeral [simp]:
  "big_integer_bytes (numeral k) v = word_of_int (v mod 256) # big_integer_bytes (pred_numeral k) (v div 256)"
  by (simp add: numeral_eq_Suc)

lemma compact_rejects:
  assumes "\<not> (0 \<le> v \<and> v < 2 ^ 536)"
  shows "encode (encodeCompactInteger env) v =
    Inl (if v < 0 then NEGATIVE_COMPACT_INTEGER else COMPACT_INTEGER_TOO_BIG)"
proof (cases "v < 0")
  case True
  then show ?thesis by (simp add: encode_def encodeCompactInteger_def)
next
  case False
  then have big: "int (2 ^ 536) \<le> v" using assms by simp
  then have "2 ^ 536 \<le> nat v" by (simp only: nat_le_iff [symmetric] le_nat_iff)
  then have "67 < countBytes (nat v)" using countBytes_max [of "nat v"] by linarith
  moreover have "\<not> v < kMinUint16" "\<not> v < kMinUint32" "\<not> v < kMinBigInteger" using big by simp_all
  ultimately show ?thesis using False by (simp add: encode_def encodeCompactInteger_def)
qed

text \<open>
  (C36) Compact integers: a non-negative integer below \<open>2 ^ 536\<close> is encoded, and decoding gives it back
  whatever bytes follow the encoding; a negative or a larger integer is rejected with its own error.
\<close>

theorem compact_integer_roundtrip:
  assumes "scale_env_ok env"
  shows "case encode (encodeCompactInteger env) v of
      Inr bs \<Rightarrow> 0 \<le> v \<and> v < 2 ^ 536 \<and>
        (\<forall>rest. length (bs @ rest) < 2 ^ 64 \<longrightarrow> decode decodeCompactInteger (bs @ rest) = Inr v)
    | Inl e \<Rightarrow> v < 0 \<and> e = NEGATIVE_COMPACT_INTEGER \<or> 2 ^ 536 \<le> v \<and> e = COMPACT_INTEGER_TOO_BIG"
proof (cases "0 \<le> v \<and> v < 2 ^ 536")
  case True
  note codec = compact_codec [OF assms]
  obtain bs where bs: "encode (encodeCompactInteger env) v = Inr bs"
    using scale_codec.encode_succeeds [OF codec, OF True] by blast
  then show ?thesis using scale_codec.encode_decode [OF codec, OF True bs] True by simp
next
  case False
  then show ?thesis using compact_rejects [OF False, of env] by auto
qed

theorem compact_integer_roundtrip_witness:
  "case encode (encodeCompactInteger plain_env) 1000 of
      Inr bs \<Rightarrow> (0 :: int) \<le> 1000 \<and> (1000 :: int) < 2 ^ 536 \<and>
        (\<forall>rest. length (bs @ rest) < 2 ^ 64 \<longrightarrow> decode decodeCompactInteger (bs @ rest) = Inr 1000)
    | Inl e \<Rightarrow> (1000 :: int) < 0 \<and> e = NEGATIVE_COMPACT_INTEGER \<or> 2 ^ 536 \<le> (1000 :: int) \<and> e = COMPACT_INTEGER_TOO_BIG"
  using compact_integer_roundtrip [OF plain_env_ok, of 1000] .

text \<open>
  The number of bytes of a compact integer is what \<^verbatim>\<open>compactLen\<close> says below \<open>2 ^ 30\<close>; from there on
  the encoding has one byte more, the header, which \<^verbatim>\<open>compactLen\<close> leaves out.
\<close>

theorem compactLen_leaves_out_header:
  assumes "scale_env_ok env" "encode (encodeCompactInteger env) (int v) = Inr bs"
  shows "length bs = compactLen v + (if v < 2 ^ 30 then 0 else 1)"
  using assms
  by (auto simp: encode_def encodeCompactInteger_def compactLen_def encodeFirstCategory_def putByte_def
      encodeSecondCategory_def Let_def encodeThirdCategory_def encodeInteger_def length_le_bytes_env
      split: if_splits)

theorem compactLen_leaves_out_header_witness:
  "encode (encodeCompactInteger plain_env) (int (2 ^ 32)) = Inr [7, 0, 0, 0, 0, 1] \<and>
   length [7, 0, 0, 0, 0, 1 :: u8] = compactLen (2 ^ 32) + (if (2 :: nat) ^ 32 < 2 ^ 30 then 0 else 1)"
proof -
  have e: "encode (encodeCompactInteger plain_env) (int (2 ^ 32)) = Inr [7, 0, 0, 0, 0, 1]"
    by (simp add: encode_def encodeCompactInteger_def countBytes.simps putByte_def)
  show ?thesis using e compactLen_leaves_out_header [OF plain_env_ok e] by blast
qed

lemma length_enc_integral:
  assumes "scale_env_ok env" "LENGTH('a::len) = 8 * n" "encode (enc_integral env) (x :: 'a word) = Inr bs"
  shows "length bs = n"
  using assms by (auto simp: encode_def enc_integral_def encodeInteger_def putByte_def length_le_bytes_env split: if_splits)

text \<open>
  (C37) Integers of every width from one to eight bytes, signed and unsigned: the encoding has as many
  bytes as the type, and decoding gives the integer back, negative ones included. The exception is the
  least value of a signed type of four bytes or more, which is encoded and which the decoder negates
  with an overflow.
\<close>

theorem fixed_width_roundtrip:
  fixes x :: "'a::len word"
  assumes "scale_env_ok env" "LENGTH('a) = 8 * n" "0 < n" "n \<le> 8"
  shows "\<exists>bs. encode (enc_integral env) x = Inr bs \<and> length bs = n \<and>
    (\<forall>rest. length (bs @ rest) < 2 ^ 64 \<longrightarrow>
      decode (dec_integral is_unsigned) (bs @ rest) =
        (if \<not> is_unsigned \<and> 4 \<le> n \<and> x = 2 ^ (8 * n - 1) then Inl SIGNED_OVERFLOW else Inr x))"
proof (cases "is_unsigned \<or> \<not> least_signed x")
  case True
  note codec = enc_integral_codec [OF assms, of is_unsigned]
  obtain bs where bs: "encode (enc_integral env) x = Inr bs"
    using scale_codec.encode_succeeds [OF codec True] by blast
  have "\<not> (\<not> is_unsigned \<and> 4 \<le> n \<and> x = 2 ^ (8 * n - 1))"
    using True assms(2) by (auto simp: least_signed_def)
  then show ?thesis
    using scale_codec.encode_decode [OF codec True bs] bs length_enc_integral [OF assms(1,2) bs] by (metis (full_types))
next
  case False
  then have x: "least_signed x" "4 \<le> n" "x = 2 ^ (8 * n - 1)" "n \<noteq> 1" using assms(2) by (auto simp: least_signed_def)
  have e: "encode (enc_integral env) x = Inr (le_bytes n (unat x))"
    using encodes_integral(1) [OF assms(1,2) x(4), of x] by (simp add: emits_def encode_def)
  have "decode (dec_integral is_unsigned) (le_bytes n (unat x) @ rest) = (Inl SIGNED_OVERFLOW :: 'a word res)"
    if "length (le_bytes n (unat x) @ rest) < 2 ^ 64" for rest
    using decodeInteger_least [OF assms(2,4) x(1), of "[]" rest] that False
      encodes_integral(2) [OF assms(1,2) x(4), of is_unsigned]
    by (simp add: decode_def stream_at_def)
  then show ?thesis using e x False by auto
qed

theorem fixed_width_roundtrip_witness:
  "(\<exists>bs. encode (enc_integral plain_env) (- 2 :: u32) = Inr bs \<and> length bs = 4 \<and>
    (\<forall>rest. length (bs @ rest) < 2 ^ 64 \<longrightarrow> decode (dec_integral False) (bs @ rest) = Inr (- 2 :: u32))) \<and>
   (\<exists>bs. encode (enc_integral plain_env) (0x80000000 :: u32) = Inr bs \<and> length bs = 4 \<and>
    (\<forall>rest. length (bs @ rest) < 2 ^ 64 \<longrightarrow>
      (decode (dec_integral False) (bs @ rest) :: u32 res) = Inl SIGNED_OVERFLOW))"
  using fixed_width_roundtrip [OF plain_env_ok, of 4 "- 2 :: u32" False]
    fixed_width_roundtrip [OF plain_env_ok, of 4 "0x80000000 :: u32" False]
  by simp

lemma u2s_range: "- (2 ^ 255) \<le> u2s u \<and> u2s u < 2 ^ 255"
proof -
  have u: "0 \<le> uint u" "uint u < 2 ^ 256" using uint_lt2p [of u] by simp_all
  have "bit u 255 \<longleftrightarrow> odd (uint u div 2 ^ 255)" using bit_iff_odd [of "uint u" 255] bit_uint_iff [of u 255] by simp
  moreover have "uint u div 2 ^ 255 = (if uint u < 2 ^ 255 then 0 else 1)"
  proof (cases "uint u < 2 ^ 255")
    case False
    then show ?thesis using u by (auto intro!: int_div_pos_eq [of _ _ _ "uint u - 2 ^ 255"])
  qed (simp add: u)
  ultimately show ?thesis using u
    by (auto simp: u2s_def intro: order_trans [of _ 0] split: if_splits)
qed

text \<open>
  Signed 256-bit numbers: encoding always succeeds with 32 bytes, and decoding gives the number
  back exactly when it lies in the range of the two's complement.
\<close>

theorem s256_roundtrip_exact:
  "\<exists>bs. encode enc_s256 i = Inr bs \<and> length bs = 32 \<and>
    (decode dec_s256 bs = Inr i \<longleftrightarrow> - (2 ^ 255) \<le> i \<and> i < 2 ^ 255)"
proof -
  let ?bs = "toBigEndian_u256 (s2u i)"
  have e: "encode enc_s256 i = Inr ?bs" by (simp add: encode_def enc_s256_def enc_u256_def)
  have "reads dec_s256 ?bs (u2s (s2u i))"
    unfolding dec_s256_def [abs_def] by (rule reads_map [OF reads_u256])
  then have "decode dec_s256 ?bs = Inr (u2s (s2u i))" by (rule reads_decode) (simp add: toBigEndian_u256_def)
  then show ?thesis using e u2s_s2u [of i] u2s_range [of "s2u i"] by (auto simp: toBigEndian_u256_def)
qed

section \<open>Collections\<close>

text \<open>Maps from strings to vectors of optional numbers, whose parts can be allocated.\<close>

abbreviation enc_book :: "scale_env \<Rightarrow> (string \<times> u64 option list) list encode" where
  "enc_book env \<equiv> enc_map env (enc_string env) (encodeCollection env (enc_optional (enc_integral env)))"
abbreviation dec_book :: "scale_env \<Rightarrow> (string \<times> u64 option list) list decode" where
  "dec_book env \<equiv> dec_map env (dec_string env) (dec_vector env (dec_optional (dec_integral True)))"

definition book_fits :: "scale_env \<Rightarrow> (string \<times> u64 option list) list \<Rightarrow> bool" where
  "book_fits env m \<longleftrightarrow> sorted_wrt (\<lambda>p q. fst p < fst q) m \<and> length m < 2 ^ 64 \<and>
     list_all (\<lambda>(k, v). length k < 2 ^ 64 \<and> resize env (length k) = Resized \<and>
                         length v < 2 ^ 64 \<and> resize env (length v) = Resized) m"

lemma book_codec:
  assumes env: "scale_env_ok env"
  shows "scale_codec (enc_book env) (dec_book env) (book_fits env)"
proof -
  have "scale_codec (enc_optional (enc_integral env :: u64 encode)) (dec_optional (dec_integral True)) (pred_option (\<lambda>x. True \<or> \<not> least_signed x))"
    by (intro scale_codec.optional_codec enc_integral_codec [OF env, of 8]) simp_all
  from map_codec [OF env string_codec [OF env] vector_codec [OF env this]]
  show ?thesis
    by (rule scale_codec.weaken) (auto simp: book_fits_def list_all_iff option.pred_set)
qed

text \<open>
  (C38) Nested data, here a map from strings to vectors of optional 64-bit numbers: a map that fits in
  memory is encoded, decoding gives it back, and no other such map has an encoding that begins with
  the same bytes.
\<close>

theorem nested_map_roundtrip:
  assumes "scale_env_ok env" "book_fits env m"
  shows "\<exists>bs. encode (enc_book env) m = Inr bs \<and>
    (\<forall>rest. length (bs @ rest) < 2 ^ 64 \<longrightarrow> decode (dec_book env) (bs @ rest) = Inr m \<and>
      (\<forall>m'. book_fits env m' \<and> encode (enc_book env) m' = Inr (bs @ rest) \<longrightarrow> m' = m))"
proof -
  note codec = book_codec [OF assms(1)]
  obtain bs where bs: "encode (enc_book env) m = Inr bs"
    using scale_codec.encode_succeeds [OF codec assms(2)] by blast
  then show ?thesis using scale_codec.encode_decode [OF codec assms(2) bs]
      scale_codec.prefix_free [OF codec assms(2) _ bs] by blast
qed

theorem nested_map_roundtrip_witness:
  "let m = [(''a'', [Some 1, None]), (''b'', [])] in
   \<exists>bs. encode (enc_book plain_env) m = Inr bs \<and>
    (\<forall>rest. length (bs @ rest) < 2 ^ 64 \<longrightarrow> decode (dec_book plain_env) (bs @ rest) = Inr m \<and>
      (\<forall>m'. book_fits plain_env m' \<and> encode (enc_book plain_env) m' = Inr (bs @ rest) \<longrightarrow> m' = m))"
  unfolding Let_def
  by (rule nested_map_roundtrip [OF plain_env_ok]) (simp add: book_fits_def plain_env_def less_char_def)

text \<open>
  (C39) Truncated byte vectors and strings: when the bytes of the length are there and some of the
  announced bytes are missing, decoding moves behind the end of the input instead of raising its error
  for missing data.
\<close>

theorem truncated_bytes_overread:
  assumes "scale_env_ok env" "length xs < 2 ^ 64" "length bs < 2 ^ 64" "resize env (length xs) = Resized"
    and "encode (enc_vector_bytes env) xs = Inr bs" "k < length xs"
  shows "decode (dec_vector_bytes env) (take (length bs - length xs + k) bs) = Inl OUT_OF_BOUNDS"
proof -
  obtain cs where c: "emits (encodeCollection env enc_byte) xs (cs @ xs)"
    "reads decodeCompactInteger cs (int (length xs))" "convert_to env 64 (int (length xs)) = length xs"
    using collection_emits [OF assms(1) _ enc_byte_items, of xs] assms(2) by auto
  then have bs: "bs = cs @ xs" using assms(5) by (simp add: encode_def enc_vector_bytes_def emits_def)
  have "length cs + k < 2 ^ 64" using assms(3,6) bs by simp
  then have "decodeCompactInteger (stream_at [] (cs @ take k xs)) = Inr (int (length xs), stream_at cs (take k xs))"
    using c(2) assms(6) unfolding reads_def by force
  then show ?thesis using bs c(3) assms(4,6)
    by (simp add: decode_def dec_vector_bytes_def stream_at_def resized_def)
qed

theorem truncated_bytes_overread_witness:
  "decode (dec_vector_bytes plain_env) (take (length [12, 1, 2, 3 :: u8] - length [1, 2, 3 :: u8] + 1) [12, 1, 2, 3]) = Inl OUT_OF_BOUNDS"
  by (rule truncated_bytes_overread [OF plain_env_ok])
     (simp_all add: plain_env_def encode_def enc_vector_bytes_def encodeCollection_def encodeCompactInteger_def
       encodeFirstCategory_def putByte_def enc_byte_def)

section \<open>Hex strings\<close>

text \<open>
  (C40) Hex strings: bytes printed as hex, with or without the prefix, are read back when the string
  is shorter than \<open>2 ^ 32\<close> characters; on such strings reading returns, and it throws exactly on those that
  the check for hex strings refuses. On longer strings of hex digits the 32-bit index of the loop wraps
  around and reading never returns.
\<close>

theorem hex_roundtrip:
  assumes "length prefix + 2 * length data < 2 ^ 32" "prefix = [] \<or> prefix = ''0x''"
  shows "fromHexString (toHexString data prefix) = Some (Some data) \<and>
    (length s < 2 ^ 32 \<longrightarrow> fromHexString s \<noteq> None \<and> (fromHexString s = Some None \<longleftrightarrow> \<not> isHexString s)) \<and>
    (2 ^ 32 \<le> length s \<and> list_all (\<lambda>c. convertCharToHexNumber c \<noteq> - 1) s \<longrightarrow> fromHexString s = None)"
proof -
  have "length (toHexString data prefix) < 2 ^ 32"
    using assms(1) by (simp add: toHexString_prefix [of data prefix] length_toHexString)
  then have "fromHexString (toHexString data prefix) = Some (Some data)"
    using fromHexString_read hex_read_toHexString [OF assms(2)] by simp
  moreover have "fromHexString s \<noteq> None \<and> (fromHexString s = Some None \<longleftrightarrow> \<not> isHexString s)" if "length s < 2 ^ 32"
    using fromHexString_read [OF that] hex_read_None [of s] by simp
  moreover have "fromHexString s = None" if "2 ^ 32 \<le> length s" "list_all (\<lambda>c. convertCharToHexNumber c \<noteq> - 1) s"
    using hex_string_long [OF that] .
  ultimately show ?thesis by blast
qed

theorem hex_roundtrip_witness:
  "fromHexString (toHexString [0x1f, 0xa0] ''0x'') = Some (Some [0x1f, 0xa0]) \<and>
   fromHexString ''1g'' = Some None \<and> fromHexString (replicate (2 ^ 32) (CHR ''a'')) = None"
proof -
  have "\<not> isHexString ''1g''" by code_simp
  moreover have "convertCharToHexNumber (CHR ''a'') \<noteq> - 1" by code_simp
  ultimately show ?thesis
    using hex_roundtrip [of "''0x''" "[0x1f, 0xa0]" "''1g''"]
      hex_roundtrip [of "''0x''" "[0x1f, 0xa0]" "replicate (2 ^ 32) (CHR ''a'')"]
    by (simp add: list_all_iff)
qed

end
