(* ===== verification/Pbft_Messages.thy ===== *)
theory Pbft_Messages
  imports Data_Convert
begin

text \<open>
  Messages of the consensus module, \<^verbatim>\<open>fisco-smart/bcos-pbft/bcos-pbft/pbft\<close>: proposals with their
  signature proofs, consensus messages, view-change and new-view messages, the factory functions that
  build them, and the calls that leave the module. Protobuf encoding, hashing and signing belong to
  other libraries: the hash a signature is checked against is a field of the message, as in
  \<^verbatim>\<open>PBFTBaseMessage\<close>, and the check itself is a parameter. Time stamps and protocol versions are left
  out; they play no part in any decision.
\<close>

type_synonym hash = u256
type_synonym nodeid = bytes

section \<open>Proposals\<close>

record pbft_proposal =
  p_index :: int
  p_hash :: hash
  p_data :: bytes
  p_sealerId :: u64
  p_systemProposal :: bool
  p_signature :: bytes
  p_signatureProof :: "(u64 \<times> bytes) list"

definition createPBFTProposal :: "int \<Rightarrow> hash \<Rightarrow> pbft_proposal" where
  "createPBFTProposal i h =
     \<lparr>p_index = i, p_hash = h, p_data = [], p_sealerId = 0, p_systemProposal = False, p_signature = [],
      p_signatureProof = []\<rparr>"

definition clearSignatureProof :: "pbft_proposal \<Rightarrow> pbft_proposal" where
  "clearSignatureProof p = p\<lparr>p_signatureProof := []\<rparr>"

definition appendSignatureProof :: "u64 \<Rightarrow> bytes \<Rightarrow> pbft_proposal \<Rightarrow> pbft_proposal" where
  "appendSignatureProof i s p = p\<lparr>p_signatureProof := p_signatureProof p @ [(i, s)]\<rparr>"

section \<open>Messages\<close>

datatype packet_type =
    PrePreparePacket | PreparePacket | CommitPacket | ViewChangePacket | NewViewPacket
  | CommittedProposalRequest | CommittedProposalResponse | PreparedProposalRequest
  | PreparedProposalResponse | CheckPoint | RecoverRequest | RecoverResponse

record base_message =
  view :: u64
  index :: int
  hash :: hash
  generatedFrom :: u64
  signatureDataHash :: hash
  signatureData :: bytes
  from_node :: "nodeid option"

record pbft_message = base_message +
  packetType :: packet_type
  consensusProposal :: "pbft_proposal option"
  proposals :: "pbft_proposal list"

record view_change = base_message +
  vc_committedProposal :: pbft_proposal
  preparedProposals :: "pbft_message list"

record new_view = base_message +
  viewChangeMsgList :: "view_change list"
  prePrepareList :: "pbft_message list"

text \<open>
  What the module hands to others; callbacks come back as calls of their own. \<open>Null_dereference\<close> is the
  use of a null pointer, which ends the process.
\<close>

datatype pbft_event =
    Broadcast pbft_message | Broadcast_view_change view_change | Broadcast_new_view new_view
  | Send nodeid pbft_message | Send_view_change nodeid view_change
  | Seal_proposal int int u64 | Reset_sealing "int option" | Verify_completed_hook int bool
  | State_notify int | New_block_notify int | Version_notify u32 | Update_validator
  | Reset_txs bytes bool bool | Notify_sync int
  | Pre_apply pbft_proposal | Apply pbft_proposal pbft_proposal | Commit_proposal pbft_proposal
  | Commit_stable_checkpoint pbft_proposal | Verify_proposal nodeid pbft_message bool
  | Fast_view_change | Request_precommit_data nodeid pbft_message
  | Request_committed_proposals nodeid int nat | Null_dereference

section \<open>Parameters and factory\<close>

record pbft_env =
  verify :: "nodeid \<Rightarrow> hash \<Rightarrow> bytes \<Rightarrow> bool"
  sign :: "hash \<Rightarrow> bytes"
  faultyDiscriminator :: "nodeid \<Rightarrow> bool"
  resettingProposalSize :: nat
  generateEmptyProposal :: "int \<Rightarrow> u64 \<Rightarrow> pbft_proposal"

definition verifySignature :: "pbft_env \<Rightarrow> nodeid \<Rightarrow> 'z base_message_scheme \<Rightarrow> bool" where
  "verifySignature env pubKey m = verify env pubKey (signatureDataHash m) (signatureData m)"

text \<open>A message with a proposal signed by this node, which carries neither data nor proofs.\<close>

definition populateFrom_signed ::
  "pbft_env \<Rightarrow> packet_type \<Rightarrow> u64 \<Rightarrow> u64 \<Rightarrow> pbft_proposal \<Rightarrow> pbft_message" where
  "populateFrom_signed env type v from proposal =
     (let signedProposal = (createPBFTProposal (p_index proposal) (p_hash proposal))
            \<lparr>p_sealerId := p_sealerId proposal, p_signature := sign env (p_hash proposal)\<rparr>
      in \<lparr>view = v, index = p_index proposal, hash = p_hash proposal, generatedFrom = from,
          signatureDataHash = 0, signatureData = [], from_node = None,
          packetType = type, consensusProposal = Some signedProposal, proposals = []\<rparr>)"

definition populateFrom_proposal ::
  "packet_type \<Rightarrow> pbft_proposal \<Rightarrow> u64 \<Rightarrow> u64 \<Rightarrow> pbft_message" where
  "populateFrom_proposal type proposal v from =
     \<lparr>view = v, index = p_index proposal, hash = p_hash proposal, generatedFrom = from,
      signatureDataHash = 0, signatureData = [], from_node = None,
      packetType = type, consensusProposal = Some proposal, proposals = []\<rparr>"

text \<open>A copy of a proposal with or without its data, always with its proofs.\<close>

definition populateFrom_copy :: "pbft_proposal \<Rightarrow> bool \<Rightarrow> pbft_proposal" where
  "populateFrom_copy proposal withData =
     (createPBFTProposal (p_index proposal) (p_hash proposal))
       \<lparr>p_sealerId := p_sealerId proposal, p_data := (if withData then p_data proposal else []),
        p_signatureProof := p_signatureProof proposal\<rparr>"

text \<open>The signed fields of a message are copied; the packet type is not one of them.\<close>

definition populateWithoutProposal :: "pbft_message \<Rightarrow> pbft_message" where
  "populateWithoutProposal m =
     \<lparr>view = view m, index = index m, hash = hash m, generatedFrom = generatedFrom m,
      signatureDataHash = 0, signatureData = [], from_node = None,
      packetType = PrePreparePacket, consensusProposal = None, proposals = []\<rparr>"

end
