(* ===== verification/Pbft_Config.thy ===== *)
theory Pbft_Config
  imports Pbft_Messages "HOL-Library.List_Lexorder"
begin

text \<open>
  Configuration of a consensus node, \<^verbatim>\<open>core/ConsensusConfig.cpp\<close> and \<^verbatim>\<open>pbft/config/PBFTConfig.cpp\<close>
  with their headers: the list of consensus nodes and its quorums, leader election, views and timeouts,
  water marks, and the notifications to the sealer. The model starts when the ledger configuration has
  been loaded, so there always is a committed proposal. The timer is its running state and its change
  cycle. Block numbers are unbounded; the quorums and everything computed with views are 64-bit words.
  A leader switch period or a number of nodes of zero, a division by zero in the code, does not occur:
  the code rejects an empty node list. Locks are not modelled: the operations run one after another.
\<close>

section \<open>State\<close>

record consensus_node =
  nodeID :: nodeid
  weight :: u64

record pbft_config =
  m_publicKey :: nodeid
  m_nodeIndex :: u64
  m_consensusNodeNum :: u64
  m_consensusNodeList :: "consensus_node list"
  m_consensusNodeListUpdated :: bool
  m_observerNodeList :: "consensus_node list"
  m_observerNodeListUpdated :: bool
  m_blockTxCountLimit :: u64
  m_committedProposal :: pbft_proposal
  m_progressedIndex :: int
  m_syncingState :: bool
  m_syncingHighestNumber :: int
  m_asMasterNode :: bool
  m_compatibilityVersion :: u32
  m_totalQuorum :: u64
  m_maxFaultyQuorum :: u64
  m_minRequiredQuorum :: u64
  m_view :: u64
  m_toView :: u64
  m_expectedCheckPoint :: int
  m_lowWaterMark :: int
  m_sealStartIndex :: int
  m_sealEndIndex :: int
  m_waterMarkLimit :: int
  m_leaderSwitchPeriod :: u64
  m_timeoutState :: bool
  m_unsealedTxsSize :: nat
  m_waitResealUntil :: int
  m_waitSealUntil :: int
  m_connectedNodeList :: "nodeid list"
  m_startRecovered :: bool
  timer_running :: bool
  m_changeCycle :: nat
  sent :: "pbft_event list"

record ledger_config =
  lc_blockNumber :: int
  lc_hash :: hash
  lc_blockTxCountLimit :: u64
  lc_leaderSwitchPeriod :: u64
  lc_consensusNodeList :: "consensus_node list"
  lc_observerNodeList :: "consensus_node list"
  lc_compatibilityVersion :: u32

abbreviation NON_CONSENSUS_NODE :: u64 where "NON_CONSENSUS_NODE \<equiv> - 1"

definition emit :: "pbft_event \<Rightarrow> 'z pbft_config_scheme \<Rightarrow> 'z pbft_config_scheme" where
  "emit e c = c\<lparr>sent := sent c @ [e]\<rparr>"

abbreviation committedIndex :: "'z pbft_config_scheme \<Rightarrow> int" where
  "committedIndex c \<equiv> p_index (m_committedProposal c)"

section \<open>Timer\<close>

definition timer_start :: "'z pbft_config_scheme \<Rightarrow> 'z pbft_config_scheme" where
  "timer_start c = c\<lparr>timer_running := True\<rparr>"

definition timer_restart :: "'z pbft_config_scheme \<Rightarrow> 'z pbft_config_scheme" where
  "timer_restart c = c\<lparr>timer_running := True\<rparr>"

definition freshTimer :: "'z pbft_config_scheme \<Rightarrow> 'z pbft_config_scheme" where
  "freshTimer c = (if m_unsealedTxsSize c > 0 then timer_restart c else c\<lparr>timer_running := False\<rparr>)"

definition updateChangeCycle :: "nat \<Rightarrow> 'z pbft_config_scheme \<Rightarrow> 'z pbft_config_scheme" where
  "updateChangeCycle n c = c\<lparr>m_changeCycle := min n 10\<rparr>"

definition setUnSealedTxsSize :: "nat \<Rightarrow> 'z pbft_config_scheme \<Rightarrow> 'z pbft_config_scheme" where
  "setUnSealedTxsSize n c =
     (let c = c\<lparr>m_unsealedTxsSize := n\<rparr>
      in if m_unsealedTxsSize c > 0 \<and> \<not> timer_running c then timer_start c else c)"

section \<open>Nodes and quorums\<close>

definition getConsensusNodeByIndex :: "'z pbft_config_scheme \<Rightarrow> u64 \<Rightarrow> consensus_node option" where
  "getConsensusNodeByIndex c i =
     (if unat i < length (m_consensusNodeList c) then Some (m_consensusNodeList c ! unat i) else None)"

fun node_index_loop :: "nodeid \<Rightarrow> u64 \<Rightarrow> consensus_node list \<Rightarrow> u64" where
  "node_index_loop n i [] = NON_CONSENSUS_NODE"
| "node_index_loop n i (x # xs) = (if nodeID x = n then i else node_index_loop n (i + 1) xs)"

definition getNodeIndexByNodeID :: "'z pbft_config_scheme \<Rightarrow> nodeid \<Rightarrow> u64" where
  "getNodeIndexByNodeID c n = node_index_loop n 0 (m_consensusNodeList c)"

definition consensusNodeIDList :: "bool \<Rightarrow> 'z pbft_config_scheme \<Rightarrow> nodeid list" where
  "consensusNodeIDList excludeSelf c =
     map nodeID (filter (\<lambda>n. \<not> (excludeSelf \<and> nodeID n = m_publicKey c)) (m_consensusNodeList c))"

definition isConsensusNode :: "'z pbft_config_scheme \<Rightarrow> bool" where
  "isConsensusNode c \<longleftrightarrow> m_nodeIndex c \<noteq> NON_CONSENSUS_NODE \<and> m_asMasterNode c"

definition updateQuorum :: "'z pbft_config_scheme \<Rightarrow> 'z pbft_config_scheme" where
  "updateQuorum c =
     (let total = fold (\<lambda>n t. t + weight n) (m_consensusNodeList c) 0;
          faulty = (total - 1) div 3
      in c\<lparr>m_totalQuorum := total, m_maxFaultyQuorum := faulty, m_minRequiredQuorum := total - faulty\<rparr>)"

text \<open>Nodes are kept in the order of their identifiers, those with the same one by weight.\<close>

definition node_less :: "consensus_node \<Rightarrow> consensus_node \<Rightarrow> bool" where
  "node_less l r \<longleftrightarrow> (if nodeID l = nodeID r then weight l < weight r else nodeID l < nodeID r)"

fun node_insert :: "consensus_node \<Rightarrow> consensus_node list \<Rightarrow> consensus_node list" where
  "node_insert n [] = [n]"
| "node_insert n (x # xs) = (if node_less x n then x # node_insert n xs else n # x # xs)"

definition sort_nodes :: "consensus_node list \<Rightarrow> consensus_node list" where
  "sort_nodes l = foldr node_insert l []"

definition compareConsensusNode :: "consensus_node list \<Rightarrow> consensus_node list \<Rightarrow> bool" where
  "compareConsensusNode l r \<longleftrightarrow>
     length l = length r \<and> list_all2 (\<lambda>x y. nodeID x = nodeID y \<and> weight x = weight y) l r"

definition setObserverNodeList ::
  "consensus_node list \<Rightarrow> 'z pbft_config_scheme \<Rightarrow> 'z pbft_config_scheme" where
  "setObserverNodeList l c =
     (let l = sort_nodes l
      in if compareConsensusNode l (m_observerNodeList c) then c\<lparr>m_observerNodeListUpdated := False\<rparr>
         else c\<lparr>m_observerNodeList := l, m_observerNodeListUpdated := True\<rparr>)"

text \<open>\<open>None\<close>: the exception for an empty list.\<close>

definition consensus_setConsensusNodeList ::
  "consensus_node list \<Rightarrow> 'z pbft_config_scheme \<Rightarrow> 'z pbft_config_scheme option" where
  "consensus_setConsensusNodeList l c =
     (if length l = 0 then None
      else let l = sort_nodes l
           in if compareConsensusNode l (m_consensusNodeList c)
              then Some (c\<lparr>m_consensusNodeListUpdated := False\<rparr>)
              else let c = c\<lparr>m_consensusNodeList := l, m_consensusNodeListUpdated := True\<rparr>;
                       c = c\<lparr>m_consensusNodeNum := of_nat (length (m_consensusNodeList c))\<rparr>;
                       nodeIndex = getNodeIndexByNodeID c (m_publicKey c);
                       c = (if nodeIndex \<noteq> m_nodeIndex c then c\<lparr>m_nodeIndex := nodeIndex\<rparr> else c)
                   in Some (updateQuorum c))"

section \<open>Leaders, views and water marks\<close>

definition leaderIndexInNewViewPeriod :: "int \<Rightarrow> u64 \<Rightarrow> 'z pbft_config_scheme \<Rightarrow> u64" where
  "leaderIndexInNewViewPeriod i v c =
     (word_of_int i div m_leaderSwitchPeriod c + v) mod m_consensusNodeNum c"

definition leaderIndex :: "int \<Rightarrow> 'z pbft_config_scheme \<Rightarrow> u64" where
  "leaderIndex i c = (word_of_int i div m_leaderSwitchPeriod c + m_view c) mod m_consensusNodeNum c"

definition leaderAfterViewChange :: "'z pbft_config_scheme \<Rightarrow> bool" where
  "leaderAfterViewChange c \<longleftrightarrow>
     m_nodeIndex c = leaderIndexInNewViewPeriod (m_progressedIndex c) (m_toView c) c"

definition highWaterMark :: "'z pbft_config_scheme \<Rightarrow> int" where
  "highWaterMark c = m_progressedIndex c + m_waterMarkLimit c"

definition sealStartIndex :: "'z pbft_config_scheme \<Rightarrow> int" where
  "sealStartIndex c = max (m_expectedCheckPoint c) (committedIndex c + 1)"

definition getLeader :: "'z pbft_config_scheme \<Rightarrow> u64" where
  "getLeader c = leaderIndex (sealStartIndex c) c"

definition setCommittedProposal :: "pbft_proposal \<Rightarrow> 'z pbft_config_scheme \<Rightarrow> 'z pbft_config_scheme" where
  "setCommittedProposal p c =
     (let c = c\<lparr>m_committedProposal := p\<rparr>;
          i = p_index p + 1;
          c = (if m_progressedIndex c < i then c\<lparr>m_progressedIndex := i\<rparr> else c);
          c = (if i > m_expectedCheckPoint c then c\<lparr>m_expectedCheckPoint := i\<rparr> else c)
      in if i > m_lowWaterMark c then c\<lparr>m_lowWaterMark := i\<rparr> else c)"

definition setExpectedCheckPoint :: "int \<Rightarrow> 'z pbft_config_scheme \<Rightarrow> 'z pbft_config_scheme" where
  "setExpectedCheckPoint i c = c\<lparr>m_expectedCheckPoint := max (committedIndex c + 1) i\<rparr>"

definition setWaitSealUntil :: "int \<Rightarrow> 'z pbft_config_scheme \<Rightarrow> 'z pbft_config_scheme" where
  "setWaitSealUntil i c = c\<lparr>m_waitSealUntil := max (m_waitSealUntil c) i\<rparr>"

definition resetToView :: "'z pbft_config_scheme \<Rightarrow> 'z pbft_config_scheme" where
  "resetToView c = (updateChangeCycle 0 (c\<lparr>m_toView := m_view c\<rparr>))\<lparr>m_timeoutState := False\<rparr>"

definition resetTimeoutState :: "bool \<Rightarrow> 'z pbft_config_scheme \<Rightarrow> 'z pbft_config_scheme" where
  "resetTimeoutState incTimeout c =
     (let c = c\<lparr>m_timeoutState := True, m_toView := m_toView c + 1\<rparr>;
          c = (if incTimeout then updateChangeCycle (m_changeCycle c + 1) c else c)
      in timer_restart c)"

definition resetNewViewState :: "u64 \<Rightarrow> 'z pbft_config_scheme \<Rightarrow> 'z pbft_config_scheme" where
  "resetNewViewState v c =
     (if m_view c > v then c
      else let c = (if \<not> m_startRecovered c then c\<lparr>m_startRecovered := True\<rparr> else c);
               c = freshTimer (c\<lparr>m_timeoutState := False\<rparr>);
               c = updateChangeCycle 0 c
           in c\<lparr>m_view := v, m_toView := v, m_timeoutState := False\<rparr>)"

definition canHandleNewProposal :: "'z pbft_config_scheme \<Rightarrow> bool" where
  "canHandleNewProposal c \<longleftrightarrow>
     \<not> m_waitSealUntil c > committedIndex c \<and> \<not> m_waitResealUntil c > committedIndex c"

definition canHandleNewProposal_msg :: "'y base_message_scheme \<Rightarrow> 'z pbft_config_scheme \<Rightarrow> bool" where
  "canHandleNewProposal_msg m c \<longleftrightarrow>
     canHandleNewProposal c \<or>
     index m \<le> committedIndex c \<or> index m \<le> m_waitSealUntil c \<or> index m \<le> m_waitResealUntil c"

definition shouldResetConfig :: "int \<Rightarrow> 'z pbft_config_scheme \<Rightarrow> bool" where
  "shouldResetConfig i c \<longleftrightarrow> committedIndex c < i"

section \<open>Notifying the sealer\<close>

text \<open>The sealer has registered its handlers. A request to seal that fails is sent again by the caller.\<close>

definition asyncNotifySealProposal ::
  "int \<Rightarrow> int \<Rightarrow> u64 \<Rightarrow> 'z pbft_config_scheme \<Rightarrow> 'z pbft_config_scheme" where
  "asyncNotifySealProposal s e n c = emit (Seal_proposal s e n) c"

definition notifySealer ::
  "pbft_env \<Rightarrow> int \<Rightarrow> bool \<Rightarrow> 'z pbft_config_scheme \<Rightarrow> 'z pbft_config_scheme" where
  "notifySealer env i enforce c =
     (if leaderIndex i c \<noteq> m_nodeIndex c then c
      else if \<not> canHandleNewProposal c then c
      else if enforce
      then let c = asyncNotifySealProposal i i (m_blockTxCountLimit c) c
           in c\<lparr>m_sealEndIndex := max i (m_sealEndIndex c), m_sealStartIndex := min i (m_sealStartIndex c)\<rparr>
      else let period = m_leaderSwitchPeriod c;
               endIndex = sint ((word_of_int i div period + 1) * period - 1);
               endIndex = min endIndex (highWaterMark c - 1)
           in if m_sealEndIndex c \<ge> endIndex then c
              else let startIndex = max (m_sealEndIndex c + 1) i
                   in if startIndex > endIndex then c
                      else if m_sealEndIndex c \<ge> endIndex \<and> m_sealStartIndex c \<le> startIndex then c
                      else if resettingProposalSize env > 0 \<and> startIndex > committedIndex c + 1
                      then emit (Verify_completed_hook i enforce) c
                      else (asyncNotifySealProposal startIndex endIndex (m_blockTxCountLimit c) c)
                             \<lparr>m_sealStartIndex := startIndex, m_sealEndIndex := endIndex\<rparr>)"

definition reNotifySealer :: "pbft_env \<Rightarrow> int \<Rightarrow> 'z pbft_config_scheme \<Rightarrow> 'z pbft_config_scheme" where
  "reNotifySealer env i c =
     (if i \<ge> highWaterMark c \<or> i < committedIndex c then c
      else notifySealer env i False (c\<lparr>m_sealStartIndex := i - 1, m_sealEndIndex := i - 1\<rparr>))"

text \<open>With an index, the sealer is notified again from it when it has been reset.\<close>

definition notifyResetSealing :: "int option \<Rightarrow> 'z pbft_config_scheme \<Rightarrow> 'z pbft_config_scheme" where
  "notifyResetSealing cons c =
     (let c = emit (Reset_sealing cons) c
      in c\<lparr>m_sealEndIndex := sealStartIndex c - 1, m_sealStartIndex := sealStartIndex c - 1\<rparr>)"

definition on_sealing_reset ::
  "pbft_env \<Rightarrow> int option \<Rightarrow> int \<Rightarrow> 'z pbft_config_scheme \<Rightarrow> 'z pbft_config_scheme" where
  "on_sealing_reset env cons committed c =
     (case cons of None \<Rightarrow> c
      | Some i \<Rightarrow> if m_waitResealUntil c \<le> committed then reNotifySealer env i c else c)"

definition setLeaderSwitchPeriod :: "u64 \<Rightarrow> 'z pbft_config_scheme \<Rightarrow> 'z pbft_config_scheme" where
  "setLeaderSwitchPeriod n c =
     (if n = m_leaderSwitchPeriod c then c
      else let c = c\<lparr>m_leaderSwitchPeriod := n\<rparr> in notifyResetSealing (Some (sealStartIndex c)) c)"

definition setConsensusNodeList ::
  "consensus_node list \<Rightarrow> 'z pbft_config_scheme \<Rightarrow> 'z pbft_config_scheme option" where
  "setConsensusNodeList l c =
     (case consensus_setConsensusNodeList l c of
        None \<Rightarrow> None
      | Some c \<Rightarrow> Some (if \<not> m_consensusNodeListUpdated c then c
                        else notifyResetSealing (Some (sealStartIndex c)) c))"

text \<open>
  The handler for a fast view change belongs to the engine; calling it is the last thing done here,
  and the engine checks the next leader after it (\<^verbatim>\<open>tryTriggerFastViewChange\<close> calls itself).
\<close>

definition leader_lost :: "pbft_env \<Rightarrow> u64 \<Rightarrow> 'z pbft_config_scheme \<Rightarrow> bool" where
  "leader_lost env leader c \<longleftrightarrow>
     m_connectedNodeList c \<noteq> [] \<and> isConsensusNode c \<and> leader \<noteq> m_nodeIndex c \<and>
     (case getConsensusNodeByIndex c leader of
        None \<Rightarrow> False
      | Some n \<Rightarrow> \<not> (nodeID n \<in> set (m_connectedNodeList c) \<and> \<not> faultyDiscriminator env (nodeID n)))"

definition tryTriggerFastViewChange ::
  "pbft_env \<Rightarrow> u64 \<Rightarrow> 'z pbft_config_scheme \<Rightarrow> 'z pbft_config_scheme" where
  "tryTriggerFastViewChange env leader c = (if leader_lost env leader c then emit Fast_view_change c else c)"

section \<open>A new block\<close>

definition resetConfig_seal ::
  "pbft_env \<Rightarrow> ledger_config \<Rightarrow> 'z pbft_config_scheme \<Rightarrow> 'z pbft_config_scheme" where
  "resetConfig_seal env l c =
     (if m_syncingHighestNumber c > lc_blockNumber l
      then notifyResetSealing None (c\<lparr>m_syncingState := True\<rparr>)
      else let c = (if m_syncingState c then timer_start (c\<lparr>m_syncingState := False\<rparr>) else c)
           in if m_timeoutState c then c
              else let c = (if m_waitResealUntil c = lc_blockNumber l
                            then reNotifySealer env (max (sealStartIndex c) (m_waitResealUntil c + 1)) c else c)
                   in notifySealer env (sealStartIndex c) False c)"

definition resetConfig_notify ::
  "ledger_config \<Rightarrow> bool \<Rightarrow> 'z pbft_config_scheme \<Rightarrow> 'z pbft_config_scheme" where
  "resetConfig_notify l syncedBlock c =
     (let c = (if m_compatibilityVersion c \<noteq> lc_compatibilityVersion l
               then let c = c\<lparr>m_compatibilityVersion := lc_compatibilityVersion l\<rparr>
                    in if m_asMasterNode c then emit (Version_notify (m_compatibilityVersion c)) c else c
               else c);
          c = (if m_consensusNodeListUpdated c \<or> m_observerNodeListUpdated c then emit Update_validator c else c);
          c = emit (State_notify (lc_blockNumber l)) c
      in if \<not> syncedBlock then emit (New_block_notify (lc_blockNumber l)) c else c)"

definition resetConfig ::
  "pbft_env \<Rightarrow> ledger_config \<Rightarrow> bool \<Rightarrow> 'z pbft_config_scheme \<Rightarrow> 'z pbft_config_scheme option" where
  "resetConfig env l syncedBlock c =
     (if lc_blockNumber l \<le> committedIndex c \<and> committedIndex c > 0 then Some c
      else let c = setCommittedProposal (createPBFTProposal (lc_blockNumber l) (lc_hash l)) c;
               c = c\<lparr>m_blockTxCountLimit := lc_blockTxCountLimit l\<rparr>
           in case setConsensusNodeList (lc_consensusNodeList l) c of
                None \<Rightarrow> None
              | Some c \<Rightarrow>
                  let c = setObserverNodeList (lc_observerNodeList l) c;
                      c = setLeaderSwitchPeriod (lc_leaderSwitchPeriod l) c;
                      c = freshTimer c
                  in Some (resetConfig_seal env l (resetConfig_notify l syncedBlock c)))"

end
