(* ===== verification/Pbft_Cache.thy ===== *)
theory Pbft_Cache
  imports Pbft_Config
begin

text \<open>
  The consensus state of one proposal, \<^verbatim>\<open>pbft/cache/PBFTCache.cpp\<close> and \<^verbatim>\<open>PBFTCache.h\<close>: votes and their
  weights in the prepare, commit and checkpoint phases, the pre-prepare and pre-commit messages and the
  checkpoint proposal. The votes for a hash are kept in the order of the voters, as in the \<^verbatim>\<open>std::map\<close>.
  After \<^verbatim>\<open>intoPrecommit\<close> the pre-commit and the pre-prepare message are one object, and changes of it are
  changes of both. The assertion in \<^verbatim>\<open>setSignatureList\<close> is not active in release builds; without votes
  for the hash the list of proofs is empty. The checkpoint timer only repeats a broadcast. The log lines
  read weights with \<^verbatim>\<open>operator[]\<close>, which can add an entry of weight zero; it is left out, since an absent
  weight counts as zero wherever the quorum is positive. Votes carry a proposal, as the checks before
  \<^verbatim>\<open>addCache\<close> ensure, and its signature is read without a check for null.
\<close>

section \<open>State\<close>

type_synonym vote_list = "(u64 \<times> pbft_message) list"
type_synonym collection_cache = "hash \<Rightarrow> vote_list option"
type_synonym quorum_recorder = "hash \<Rightarrow> u64 option"

record pbft_cache =
  m_index :: int
  m_submitted :: bool
  m_stableCommitted :: bool
  m_precommitted :: bool
  m_prepareCacheList :: collection_cache
  m_prepareReqWeight :: quorum_recorder
  m_commitCacheList :: collection_cache
  m_commitReqWeight :: quorum_recorder
  m_prePrepare :: "pbft_message option"
  m_precommit :: "pbft_message option"
  m_precommitWithoutData :: "pbft_message option"
  m_checkpointProposal :: "pbft_proposal option"
  m_checkpointCacheList :: collection_cache
  m_checkpointCacheWeight :: quorum_recorder

definition createPBFTCache :: "int \<Rightarrow> pbft_cache" where
  "createPBFTCache i =
     \<lparr>m_index = i, m_submitted = False, m_stableCommitted = False, m_precommitted = False,
      m_prepareCacheList = Map.empty, m_prepareReqWeight = Map.empty,
      m_commitCacheList = Map.empty, m_commitReqWeight = Map.empty,
      m_prePrepare = None, m_precommit = None, m_precommitWithoutData = None,
      m_checkpointProposal = None, m_checkpointCacheList = Map.empty, m_checkpointCacheWeight = Map.empty\<rparr>"

section \<open>Votes\<close>

text \<open>Insertion of a key into an ordered list of pairs.\<close>

fun map_insert :: "'k::linorder \<Rightarrow> 'v \<Rightarrow> ('k \<times> 'v) list \<Rightarrow> ('k \<times> 'v) list" where
  "map_insert k v [] = [(k, v)]"
| "map_insert k v ((k', v') # m) =
     (if k < k' then (k, v) # (k', v') # m else if k = k' then (k, v) # m else (k', v') # map_insert k v m)"

definition votes :: "collection_cache \<Rightarrow> hash \<Rightarrow> vote_list" where
  "votes cached h = (case cached h of None \<Rightarrow> [] | Some l \<Rightarrow> l)"

definition addCache ::
  "'z pbft_config_scheme \<Rightarrow> int \<Rightarrow> pbft_message \<Rightarrow> collection_cache \<times> quorum_recorder \<Rightarrow>
     collection_cache \<times> quorum_recorder" where
  "addCache c idx m s =
     (case s of (cached, weights) \<Rightarrow>
        let h = hash m; from = generatedFrom m
        in if index m \<noteq> idx then (cached, weights)
           else if cached h \<noteq> None \<and> map_of (votes cached h) from \<noteq> None then (cached, weights)
           else (case getConsensusNodeByIndex c from of
                   None \<Rightarrow> (cached, weights)
                 | Some nodeInfo \<Rightarrow>
                     (cached(h \<mapsto> map_insert from m (votes cached h)),
                      weights(h \<mapsto> (case weights h of None \<Rightarrow> 0 | Some w \<Rightarrow> w) + weight nodeInfo))))"

definition addPrepareCache :: "'z pbft_config_scheme \<Rightarrow> pbft_message \<Rightarrow> pbft_cache \<Rightarrow> pbft_cache" where
  "addPrepareCache c m k =
     (let (cached, weights) = addCache c (m_index k) m (m_prepareCacheList k, m_prepareReqWeight k)
      in k\<lparr>m_prepareCacheList := cached, m_prepareReqWeight := weights\<rparr>)"

definition addCommitCache :: "'z pbft_config_scheme \<Rightarrow> pbft_message \<Rightarrow> pbft_cache \<Rightarrow> pbft_cache" where
  "addCommitCache c m k =
     (let (cached, weights) = addCache c (m_index k) m (m_commitCacheList k, m_commitReqWeight k)
      in k\<lparr>m_commitCacheList := cached, m_commitReqWeight := weights\<rparr>)"

definition addCheckPointMsg :: "'z pbft_config_scheme \<Rightarrow> pbft_message \<Rightarrow> pbft_cache \<Rightarrow> pbft_cache" where
  "addCheckPointMsg c m k =
     (let (cached, weights) = addCache c (m_index k) m (m_checkpointCacheList k, m_checkpointCacheWeight k)
      in k\<lparr>m_checkpointCacheList := cached, m_checkpointCacheWeight := weights\<rparr>)"

definition collectEnoughQuorum :: "'z pbft_config_scheme \<Rightarrow> hash \<Rightarrow> quorum_recorder \<Rightarrow> bool" where
  "collectEnoughQuorum c h weights =
     (case weights h of None \<Rightarrow> False | Some w \<Rightarrow> w \<ge> m_minRequiredQuorum c)"

definition resetCacheAfterViewChange :: "u64 \<Rightarrow> collection_cache \<Rightarrow> collection_cache" where
  "resetCacheAfterViewChange curView cached h =
     (case cached h of
        None \<Rightarrow> None
      | Some l \<Rightarrow>
          let l = filter (\<lambda>(from, m). \<not> view m < curView) l in if length l = 0 then None else Some l)"

definition recalculateQuorum :: "'z pbft_config_scheme \<Rightarrow> collection_cache \<Rightarrow> quorum_recorder" where
  "recalculateQuorum c cached h =
     (case cached h of
        None \<Rightarrow> None
      | Some l \<Rightarrow>
          Some (fold (\<lambda>(from, m) w.
                  case getConsensusNodeByIndex c (generatedFrom m) of None \<Rightarrow> w | Some n \<Rightarrow> w + weight n) l 0))"

section \<open>Pre-prepare\<close>

definition existPrePrepare :: "'y base_message_scheme \<Rightarrow> pbft_cache \<Rightarrow> bool" where
  "existPrePrepare m k =
     (case m_prePrepare k of None \<Rightarrow> False | Some pp \<Rightarrow> hash m = hash pp \<and> view pp \<ge> view m)"

definition addPrePrepareCache :: "pbft_message \<Rightarrow> pbft_cache \<Rightarrow> pbft_cache" where
  "addPrePrepareCache m k =
     (if m_stableCommitted k then k
      else if m_checkpointProposal k \<noteq> None \<and>
              (case m_prePrepare k of
                 None \<Rightarrow> False
               | Some pp \<Rightarrow> map_option p_hash (consensusProposal m) \<noteq> map_option p_hash (consensusProposal pp))
      then k
      else k\<lparr>m_prePrepare := Some m\<rparr>)"

definition conflictWithProcessedReq ::
  "'z pbft_config_scheme \<Rightarrow> 'y base_message_scheme \<Rightarrow> pbft_cache \<Rightarrow> bool" where
  "conflictWithProcessedReq c m k =
     (if m_submitted k \<or> m_stableCommitted k then True
      else if view m < m_view c then True
      else case m_prePrepare k of
             None \<Rightarrow> False
           | Some pp \<Rightarrow> if view m < view pp then True else if view m = view pp then hash m \<noteq> hash pp else False)"

definition conflictWithPrecommitReq ::
  "'z pbft_config_scheme \<Rightarrow> 'y base_message_scheme \<Rightarrow> pbft_cache \<Rightarrow> bool" where
  "conflictWithPrecommitReq c m k =
     (case m_precommit k of
        None \<Rightarrow> False
      | Some pc \<Rightarrow> if index pc < m_progressedIndex c then False
                   else index m = index pc \<and> hash m \<noteq> hash pc)"

definition checkPrePrepareProposalStatus :: "'z pbft_config_scheme \<Rightarrow> pbft_cache \<Rightarrow> bool" where
  "checkPrePrepareProposalStatus c k =
     (case m_prePrepare k of None \<Rightarrow> False | Some pp \<Rightarrow> view pp = m_view c)"

section \<open>Pre-commit and commit\<close>

definition collectEnoughPrepareReq :: "'z pbft_config_scheme \<Rightarrow> pbft_cache \<Rightarrow> bool" where
  "collectEnoughPrepareReq c k =
     (checkPrePrepareProposalStatus c k \<and>
      (case m_prePrepare k of None \<Rightarrow> False | Some pp \<Rightarrow> collectEnoughQuorum c (hash pp) (m_prepareReqWeight k)))"

definition collectEnoughCommitReq :: "'z pbft_config_scheme \<Rightarrow> pbft_cache \<Rightarrow> bool" where
  "collectEnoughCommitReq c k =
     (checkPrePrepareProposalStatus c k \<and>
      (case m_prePrepare k of None \<Rightarrow> False | Some pp \<Rightarrow> collectEnoughQuorum c (hash pp) (m_commitReqWeight k)))"

definition proposal_signature :: "pbft_message \<Rightarrow> bytes" where
  "proposal_signature m = (case consensusProposal m of None \<Rightarrow> [] | Some p \<Rightarrow> p_signature p)"

definition setSignatureList :: "collection_cache \<Rightarrow> pbft_proposal \<Rightarrow> pbft_proposal" where
  "setSignatureList cached p =
     fold (\<lambda>(from, m). appendSignatureProof from (proposal_signature m)) (votes cached (p_hash p))
       (clearSignatureProof p)"

text \<open>A pre-prepare message without a proposal does not reach this point (\<open>checkPBFTMsgState\<close>).\<close>

definition intoPrecommit :: "'z pbft_config_scheme \<Rightarrow> pbft_cache \<Rightarrow> pbft_cache" where
  "intoPrecommit c k =
     (case m_prePrepare k of
        None \<Rightarrow> k
      | Some pp \<Rightarrow>
          let pc = pp\<lparr>generatedFrom := m_nodeIndex c,
                      consensusProposal := map_option (setSignatureList (m_prepareCacheList k)) (consensusProposal pp)\<rparr>
          in k\<lparr>m_prePrepare := Some pc, m_precommit := Some pc,
               m_precommitWithoutData := Some ((populateWithoutProposal pc)
                 \<lparr>consensusProposal := map_option (\<lambda>p. populateFrom_copy p False) (consensusProposal pc)\<rparr>)\<rparr>)"

definition checkAndCommit :: "'z pbft_config_scheme \<Rightarrow> pbft_cache \<Rightarrow> bool \<times> pbft_cache" where
  "checkAndCommit c k =
     (if m_timeoutState c then (False, k)
      else if m_submitted k then (False, k)
      else case m_precommit k of
             None \<Rightarrow> (False, k)
           | Some pc \<Rightarrow>
               if view pc \<noteq> m_view c then (False, k)
               else if \<not> collectEnoughCommitReq c k then (False, k)
               else (True, k\<lparr>m_submitted := True\<rparr>))"

definition precommit_ready :: "'z pbft_config_scheme \<Rightarrow> pbft_cache \<Rightarrow> bool" where
  "precommit_ready c k =
     (if m_precommitted k then False
      else case m_prePrepare k of
             None \<Rightarrow> False
           | Some pp \<Rightarrow>
               if m_timeoutState c then False
               else if (case m_precommit k of None \<Rightarrow> False | Some pc \<Rightarrow> view pc \<ge> view pp) then False
               else if view pp \<noteq> m_view c then False
               else collectEnoughPrepareReq c k)"

definition commit_request :: "pbft_env \<Rightarrow> 'z pbft_config_scheme \<Rightarrow> pbft_proposal \<Rightarrow> pbft_message" where
  "commit_request env c p = populateFrom_signed env CommitPacket (m_view c) (m_nodeIndex c) p"

definition checkAndPreCommit ::
  "pbft_env \<Rightarrow> 'z pbft_config_scheme \<Rightarrow> pbft_cache \<Rightarrow> bool \<times> 'z pbft_config_scheme \<times> pbft_cache" where
  "checkAndPreCommit env c k =
     (if \<not> precommit_ready c k then (False, c, k)
      else let k = intoPrecommit c k
           in case m_precommitWithoutData k of
                None \<Rightarrow> (False, c, k)
              | Some pc \<Rightarrow>
                  (case consensusProposal pc of
                     None \<Rightarrow> (False, c, k)
                   | Some p \<Rightarrow>
                       let commitReq = commit_request env c p;
                           k = addCommitCache c commitReq k;
                           c = emit (Broadcast commitReq) c;
                           (r, k) = checkAndCommit c (k\<lparr>m_precommitted := True\<rparr>)
                       in (r, c, k)))"

definition setPrecommitCache :: "pbft_message \<Rightarrow> pbft_cache \<Rightarrow> pbft_cache" where
  "setPrecommitCache m k = k\<lparr>m_precommit := Some m, m_precommitWithoutData := Some m\<rparr>"

definition shouldStopTimer :: "'z pbft_config_scheme \<Rightarrow> pbft_cache \<Rightarrow> bool" where
  "shouldStopTimer c k \<longleftrightarrow> m_index k \<le> committedIndex c \<or> m_submitted k"

definition resetCache ::
  "u64 \<Rightarrow> 'z pbft_config_scheme \<times> pbft_cache \<Rightarrow> 'z pbft_config_scheme \<times> pbft_cache" where
  "resetCache curView s =
     (case s of (c, k) \<Rightarrow>
        let k = k\<lparr>m_submitted := False, m_precommitted := False\<rparr>;
            (c, k) = (case (m_precommit k, m_prePrepare k) of
                        (None, Some pp) \<Rightarrow>
                          (case consensusProposal pp of
                             None \<Rightarrow> (c, k)
                           | Some p \<Rightarrow>
                               if view pp < curView
                               then (emit (Reset_txs (p_data p) False False) (notifyResetSealing (Some (p_index p)) c),
                                     k\<lparr>m_prePrepare := None\<rparr>)
                               else (c, k))
                      | _ \<Rightarrow> (c, k));
            k = k\<lparr>m_prepareCacheList := resetCacheAfterViewChange curView (m_prepareCacheList k),
                  m_commitCacheList := resetCacheAfterViewChange curView (m_commitCacheList k)\<rparr>
        in (c, k\<lparr>m_prepareReqWeight := recalculateQuorum c (m_prepareCacheList k),
                 m_commitReqWeight := recalculateQuorum c (m_commitCacheList k)\<rparr>))"

definition resetState :: "pbft_cache \<Rightarrow> pbft_cache" where
  "resetState k =
     k\<lparr>m_stableCommitted := False, m_submitted := False, m_precommitted := False, m_checkpointProposal := None\<rparr>"

section \<open>Checkpoints\<close>

definition setCheckPointProposal :: "'z pbft_config_scheme \<Rightarrow> pbft_proposal \<Rightarrow> pbft_cache \<Rightarrow> pbft_cache" where
  "setCheckPointProposal c p k =
     (if p_index p \<le> committedIndex c then k
      else if p_index p \<noteq> m_index k then k
      else k\<lparr>m_checkpointProposal := Some p\<rparr>)"

definition getCollectedCheckPointWeight :: "hash \<Rightarrow> pbft_cache \<Rightarrow> u64" where
  "getCollectedCheckPointWeight h k = (case m_checkpointCacheWeight k h of None \<Rightarrow> 0 | Some w \<Rightarrow> w)"

definition collectEnoughCheckpoint :: "'z pbft_config_scheme \<Rightarrow> pbft_cache \<Rightarrow> bool" where
  "collectEnoughCheckpoint c k =
     (case m_checkpointProposal k of
        None \<Rightarrow> False | Some p \<Rightarrow> collectEnoughQuorum c (p_hash p) (m_checkpointCacheWeight k))"

definition checkAndCommitStableCheckPoint :: "'z pbft_config_scheme \<Rightarrow> pbft_cache \<Rightarrow> bool \<times> pbft_cache" where
  "checkAndCommitStableCheckPoint c k =
     (if m_stableCommitted k then (False, k)
      else let dependsProposal = min (m_index k - 1) (m_waitSealUntil c)
           in if committedIndex c < dependsProposal then (False, k)
              else let k = (if committedIndex c = dependsProposal
                            then k\<lparr>m_checkpointCacheWeight := recalculateQuorum c (m_checkpointCacheList k)\<rparr> else k)
                   in if \<not> collectEnoughCheckpoint c k then (False, k)
                      else case m_checkpointProposal k of
                             None \<Rightarrow> (False, k)
                           | Some p \<Rightarrow>
                               let p = setSignatureList (m_checkpointCacheList k) p;
                                   k = k\<lparr>m_checkpointProposal := Some p, m_stableCommitted := True\<rparr>
                               in (\<not> committedIndex c \<ge> p_index p, k))"

definition onCheckPointTimeout ::
  "pbft_env \<Rightarrow> 'z pbft_config_scheme \<Rightarrow> pbft_cache \<Rightarrow> 'z pbft_config_scheme" where
  "onCheckPointTimeout env c k =
     (case m_checkpointProposal k of
        None \<Rightarrow> c
      | Some p \<Rightarrow>
          let c = (if \<not> timer_running c then emit (Notify_sync (committedIndex c)) c else c)
          in emit (Broadcast (populateFrom_signed env CheckPoint (m_view c) (m_nodeIndex c) p)) c)"

end
