(* ===== verification/Pbft_Processor.thy ===== *)
theory Pbft_Processor
  imports Pbft_Cache
begin

text \<open>
  All consensus state of a node, \<^verbatim>\<open>pbft/cache/PBFTCacheProcessor.cpp\<close>: the caches of the proposals by
  index, the queue of committed proposals and their execution, the queue of stable checkpoints, the
  view-change requests with their weights, and the answers to recovery requests. The state extends the
  configuration. A \<^verbatim>\<open>std::map\<close> that is iterated is a list of pairs in the order of the keys, the two
  priority queues are lists in the order of the indexes, and equal indexes keep the order of insertion.
  Proposals in view-change requests are values: the sender that \<^verbatim>\<open>generatePrePrepareMsg\<close> writes into them
  is written into the request only.
\<close>

section \<open>State\<close>

record pbft_processor = pbft_config +
  m_caches :: "(int \<times> pbft_cache) list"
  m_viewChangeCache :: "(u64 \<times> (u64 \<times> view_change) list) list"
  m_viewChangeWeight :: "u64 \<Rightarrow> u64 option"
  m_maxCommittedIndex :: "u64 \<Rightarrow> int option"
  m_maxPrecommitIndex :: "u64 \<Rightarrow> int option"
  m_newViewGenerated :: bool
  m_committedQueue :: "pbft_proposal list"
  m_executingProposals :: "(hash \<times> int) list"
  m_committedProposalList :: "int list"
  m_proposalsToStableConsensus :: "int list"
  m_stableCheckPointQueue :: "pbft_proposal list"
  m_recoverReqCache :: "(u64 \<times> (u64 \<times> pbft_message) list) list"
  m_recoverCacheWeight :: "(u64 \<times> u64) list"
  m_maxNotifyIndex :: int

type_synonym 'z processor = "'z pbft_processor_scheme"

definition cache_at :: "'z processor \<Rightarrow> int \<Rightarrow> pbft_cache option" where
  "cache_at s i = map_of (m_caches s) i"

text \<open>Removal of a key from an ordered list of pairs, and a sorted set of numbers.\<close>

definition map_erase :: "'k \<Rightarrow> ('k \<times> 'v) list \<Rightarrow> ('k \<times> 'v) list" where
  "map_erase k m = filter (\<lambda>(k', v). k' \<noteq> k) m"

fun set_insert :: "int \<Rightarrow> int list \<Rightarrow> int list" where
  "set_insert i [] = [i]"
| "set_insert i (j # js) = (if i < j then i # j # js else if i = j then j # js else j # set_insert i js)"

fun queue_push :: "pbft_proposal \<Rightarrow> pbft_proposal list \<Rightarrow> pbft_proposal list" where
  "queue_push p [] = [p]"
| "queue_push p (q # qs) = (if p_index p < p_index q then p # q # qs else q # queue_push p qs)"

section \<open>Caches\<close>

definition processor_addCache ::
  "int \<Rightarrow> (pbft_cache \<Rightarrow> pbft_cache) \<Rightarrow> 'z processor \<Rightarrow> 'z processor" where
  "processor_addCache i handler s =
     s\<lparr>m_caches := map_insert i (handler (case cache_at s i of None \<Rightarrow> createPBFTCache i | Some k \<Rightarrow> k)) (m_caches s)\<rparr>"

definition notifyCommittedProposalIndex :: "int \<Rightarrow> 'z processor \<Rightarrow> 'z processor" where
  "notifyCommittedProposalIndex i s = emit (Notify_sync i) s"

definition notifyMaxProposalIndex :: "int \<Rightarrow> 'z processor \<Rightarrow> 'z processor" where
  "notifyMaxProposalIndex i s =
     (if m_maxNotifyIndex s < i then notifyCommittedProposalIndex i (s\<lparr>m_maxNotifyIndex := i\<rparr>) else s)"

definition proc_addPrePrepareCache :: "pbft_message \<Rightarrow> 'z processor \<Rightarrow> 'z processor" where
  "proc_addPrePrepareCache m s =
     notifyMaxProposalIndex (index m) (processor_addCache (index m) (addPrePrepareCache m) s)"

definition proc_addPrepareCache :: "pbft_message \<Rightarrow> 'z processor \<Rightarrow> 'z processor" where
  "proc_addPrepareCache m s = processor_addCache (index m) (addPrepareCache s m) s"

definition addCommitReq :: "pbft_message \<Rightarrow> 'z processor \<Rightarrow> 'z processor" where
  "addCommitReq m s = processor_addCache (index m) (addCommitCache s m) s"

definition proc_addCheckPointMsg :: "pbft_message \<Rightarrow> 'z processor \<Rightarrow> 'z processor" where
  "proc_addCheckPointMsg m s = processor_addCache (index m) (addCheckPointMsg s m) s"

definition proc_setCheckPointProposal :: "pbft_proposal \<Rightarrow> 'z processor \<Rightarrow> 'z processor" where
  "proc_setCheckPointProposal p s = processor_addCache (p_index p) (setCheckPointProposal s p) s"

definition updatePrecommit :: "pbft_proposal \<Rightarrow> 'z processor \<Rightarrow> 'z processor" where
  "updatePrecommit p s =
     processor_addCache (p_index p) (setPrecommitCache (populateFrom_proposal PrePreparePacket p 0 0)) s"

definition proc_existPrePrepare :: "'y base_message_scheme \<Rightarrow> 'z processor \<Rightarrow> bool" where
  "proc_existPrePrepare m s = (case cache_at s (index m) of None \<Rightarrow> False | Some k \<Rightarrow> existPrePrepare m k)"

definition proc_conflictWithProcessedReq :: "'y base_message_scheme \<Rightarrow> 'z processor \<Rightarrow> bool" where
  "proc_conflictWithProcessedReq m s =
     (case cache_at s (index m) of None \<Rightarrow> False | Some k \<Rightarrow> conflictWithProcessedReq s m k)"

definition proc_conflictWithPrecommitReq :: "'y base_message_scheme \<Rightarrow> 'z processor \<Rightarrow> bool" where
  "proc_conflictWithPrecommitReq m s =
     (case cache_at s (index m) of None \<Rightarrow> False | Some k \<Rightarrow> conflictWithPrecommitReq s m k)"

text \<open>The proposal of the message with the data of the pre-commit cache, when it is the same one.\<close>

definition tryToFillProposal :: "pbft_message \<Rightarrow> 'z processor \<Rightarrow> pbft_message option" where
  "tryToFillProposal m s =
     (case cache_at s (index m) of
        None \<Rightarrow> None
      | Some k \<Rightarrow>
          (case m_precommit k of
             None \<Rightarrow> None
           | Some pc \<Rightarrow>
               if hash pc = hash m \<and> index pc = index m
               then (case consensusProposal pc of
                       None \<Rightarrow> None
                     | Some p \<Rightarrow> Some (m\<lparr>consensusProposal := map_option (\<lambda>q. q\<lparr>p_data := p_data p\<rparr>) (consensusProposal m)\<rparr>))
               else None))"

definition fetchPrecommitProposal :: "int \<Rightarrow> 'z processor \<Rightarrow> pbft_proposal option" where
  "fetchPrecommitProposal i s =
     (case cache_at s i of
        None \<Rightarrow> None
      | Some k \<Rightarrow> (case m_precommit k of None \<Rightarrow> None | Some pc \<Rightarrow> consensusProposal pc))"

definition fetchPrecommitData :: "int \<Rightarrow> hash \<Rightarrow> 'z processor \<Rightarrow> pbft_message option" where
  "fetchPrecommitData i h s =
     (case cache_at s i of
        None \<Rightarrow> None
      | Some k \<Rightarrow> (case m_precommit k of None \<Rightarrow> None | Some pc \<Rightarrow> if hash pc \<noteq> h then None else Some pc))"

section \<open>Committed proposals and their execution\<close>

fun next_proposal_index :: "int \<Rightarrow> int list \<Rightarrow> int" where
  "next_proposal_index lastIndex [] = lastIndex + 1"
| "next_proposal_index lastIndex (i # is) =
     (if lastIndex + 1 < i then lastIndex + 1 else next_proposal_index i is)"

definition notifyToSealNextBlock :: "pbft_env \<Rightarrow> 'z processor \<Rightarrow> 'z processor" where
  "notifyToSealNextBlock env s =
     notifySealer env (next_proposal_index (committedIndex s) (m_proposalsToStableConsensus s)) False s"

definition getAppliedCheckPointProposal :: "int \<Rightarrow> 'z processor \<Rightarrow> pbft_proposal option" where
  "getAppliedCheckPointProposal i s =
     (if i = committedIndex s then Some (m_committedProposal s)
      else case cache_at s i of None \<Rightarrow> None | Some k \<Rightarrow> m_checkpointProposal k)"

definition applyStateMachine :: "pbft_proposal \<Rightarrow> pbft_proposal \<Rightarrow> 'z processor \<Rightarrow> 'z processor" where
  "applyStateMachine lastApplied p s = emit (Apply lastApplied p) s"

text \<open>The front of the queue after the proposals below the expected checkpoint have been dropped.\<close>

definition drop_below :: "int \<Rightarrow> pbft_proposal list \<Rightarrow> pbft_proposal list" where
  "drop_below i q = dropWhile (\<lambda>p. p_index p < i) q"

definition tryToApplyCommitQueue :: "pbft_env \<Rightarrow> 'z processor \<Rightarrow> bool \<times> 'z processor" where
  "tryToApplyCommitQueue env s =
     (let s = notifyToSealNextBlock env s;
          s = s\<lparr>m_committedQueue := drop_below (m_expectedCheckPoint s) (m_committedQueue s)\<rparr>
      in case m_committedQueue s of
           [] \<Rightarrow> (False, s)
         | p # q \<Rightarrow>
             if p_index p \<noteq> m_expectedCheckPoint s then (False, s)
             else if committedIndex s < min (m_expectedCheckPoint s - 1) (m_waitSealUntil s) then (False, s)
             else case getAppliedCheckPointProposal (m_expectedCheckPoint s - 1) s of
                    None \<Rightarrow> (False, s)
                  | Some lastApplied \<Rightarrow>
                      if map_of (m_executingProposals s) (p_hash p) \<noteq> None then (False, timer_restart s)
                      else (True, applyStateMachine lastApplied p
                              (s\<lparr>m_committedQueue := q,
                                 m_executingProposals := map_insert (p_hash p) (p_index p) (m_executingProposals s)\<rparr>)))"

definition updateCommitQueue :: "pbft_env \<Rightarrow> pbft_proposal \<Rightarrow> 'z processor \<Rightarrow> 'z processor" where
  "updateCommitQueue env p s =
     (if map_of (m_executingProposals s) (p_hash p) \<noteq> None then s
      else let i = p_index p;
               s = notifyMaxProposalIndex i s;
               s = s\<lparr>m_committedQueue := queue_push p (m_committedQueue s),
                     m_committedProposalList := set_insert i (m_committedProposalList s),
                     m_proposalsToStableConsensus := set_insert i (m_proposalsToStableConsensus s)\<rparr>;
               s = (if p_systemProposal p then setWaitSealUntil i s else s);
               s = notifyToSealNextBlock env s;
               s = emit (Pre_apply p) s
           in snd (tryToApplyCommitQueue env s))"

definition resetTimer :: "pbft_env \<Rightarrow> 'z processor \<Rightarrow> 'z processor" where
  "resetTimer env s =
     (if list_ex (\<lambda>(i, k). \<not> shouldStopTimer s k) (m_caches s)
      then (if \<not> timer_running s then timer_start s else s)
      else let s = freshTimer s in tryTriggerFastViewChange env (getLeader s) s)"

definition precommit_proposal :: "pbft_cache \<Rightarrow> pbft_proposal option" where
  "precommit_proposal k = (case m_precommit k of None \<Rightarrow> None | Some pc \<Rightarrow> consensusProposal pc)"

text \<open>What the loops do with a cache that has just committed its proposal.\<close>

definition commit_reached :: "pbft_env \<Rightarrow> pbft_cache \<Rightarrow> 'z processor \<Rightarrow> 'z processor" where
  "commit_reached env k s =
     (let s = (case precommit_proposal k of None \<Rightarrow> s | Some p \<Rightarrow> updateCommitQueue env p s)
      in resetToView (timer_restart s))"

definition set_cache :: "int \<Rightarrow> pbft_cache \<Rightarrow> 'z processor \<Rightarrow> 'z processor" where
  "set_cache i k s = s\<lparr>m_caches := map_insert i k (m_caches s)\<rparr>"

definition precommit_step :: "pbft_env \<Rightarrow> int \<Rightarrow> 'z processor \<Rightarrow> 'z processor" where
  "precommit_step env i s =
     (case cache_at s i of
        None \<Rightarrow> s
      | Some k \<Rightarrow>
          let (ret, s, k) = checkAndPreCommit env s k; s = set_cache i k s
          in if ret then commit_reached env k s else s)"

definition proc_checkAndPreCommit :: "pbft_env \<Rightarrow> 'z processor \<Rightarrow> 'z processor" where
  "proc_checkAndPreCommit env s = resetTimer env (fold (precommit_step env) (map fst (m_caches s)) s)"

definition commit_step :: "pbft_env \<Rightarrow> int \<Rightarrow> 'z processor \<Rightarrow> 'z processor" where
  "commit_step env i s =
     (case cache_at s i of
        None \<Rightarrow> s
      | Some k \<Rightarrow>
          let (ret, k) = checkAndCommit s k; s = set_cache i k s
          in if ret then commit_reached env k s else s)"

definition proc_checkAndCommit :: "pbft_env \<Rightarrow> 'z processor \<Rightarrow> 'z processor" where
  "proc_checkAndCommit env s = resetTimer env (fold (commit_step env) (map fst (m_caches s)) s)"

definition eraseExecutedProposal :: "hash \<Rightarrow> 'z processor \<Rightarrow> 'z processor" where
  "eraseExecutedProposal h s = s\<lparr>m_executingProposals := map_erase h (m_executingProposals s)\<rparr>"

definition clearExpiredExecutingProposal :: "'z processor \<Rightarrow> 'z processor" where
  "clearExpiredExecutingProposal s =
     s\<lparr>m_executingProposals := filter (\<lambda>(h, i). i > committedIndex s) (m_executingProposals s)\<rparr>"

section \<open>Stable checkpoints\<close>

definition tryToCommitStableCheckPoint :: "'z processor \<Rightarrow> 'z processor" where
  "tryToCommitStableCheckPoint s =
     (let expired = takeWhile (\<lambda>p. p_index p \<le> committedIndex s) (m_stableCheckPointQueue s);
          s = s\<lparr>m_committedProposalList := filter (\<lambda>i. i \<notin> p_index ` set expired) (m_committedProposalList s),
                m_stableCheckPointQueue := dropWhile (\<lambda>p. p_index p \<le> committedIndex s) (m_stableCheckPointQueue s)\<rparr>
      in case m_stableCheckPointQueue s of
           [] \<Rightarrow> s
         | p # q \<Rightarrow>
             if p_index p = committedIndex s + 1
             then emit (Commit_stable_checkpoint p)
                    (s\<lparr>m_committedProposalList := removeAll (p_index p) (m_committedProposalList s),
                       m_stableCheckPointQueue := q\<rparr>)
             else s)"

definition updateStableCheckPointQueue :: "pbft_proposal \<Rightarrow> 'z processor \<Rightarrow> 'z processor" where
  "updateStableCheckPointQueue p s =
     tryToCommitStableCheckPoint (s\<lparr>m_stableCheckPointQueue := queue_push p (m_stableCheckPointQueue s)\<rparr>)"

fun stable_checkpoint_loop ::
  "'z processor \<Rightarrow> (int \<times> pbft_cache) list \<Rightarrow> pbft_proposal list \<times> (int \<times> pbft_cache) list" where
  "stable_checkpoint_loop s [] = ([], [])"
| "stable_checkpoint_loop s ((i, k) # ks) =
     (let (ret, k) = checkAndCommitStableCheckPoint s k;
          (ps, ks) = stable_checkpoint_loop s ks
      in (if ret then (case m_checkpointProposal k of None \<Rightarrow> ps | Some p \<Rightarrow> p # ps) else ps, (i, k) # ks))"

definition proc_checkAndCommitStableCheckPoint :: "'z processor \<Rightarrow> 'z processor" where
  "proc_checkAndCommitStableCheckPoint s =
     (let (ps, ks) = stable_checkpoint_loop s (m_caches s)
      in fold updateStableCheckPointQueue ps (s\<lparr>m_caches := ks\<rparr>))"

definition shouldRequestCheckPoint :: "pbft_message \<Rightarrow> 'z processor \<Rightarrow> bool \<times> 'z processor" where
  "shouldRequestCheckPoint m s =
     (let i = index m
      in if i \<le> committedIndex s \<or> i \<le> m_syncingHighestNumber s then (False, s)
         else if i \<in> set (m_committedProposalList s) then (False, s)
         else if (case cache_at s i of None \<Rightarrow> False | Some k \<Rightarrow> m_checkpointProposal k \<noteq> None) then (False, s)
         else if m_timeoutState s then (True, s)
         else case cache_at s i of
                None \<Rightarrow> (False, s)
              | Some k \<Rightarrow>
                  if m_precommitted k then (False, s)
                  else if getCollectedCheckPointWeight (hash m) k < m_maxFaultyQuorum s + 1 then (False, s)
                  else (True, s\<lparr>m_committedProposalList := set_insert i (m_committedProposalList s)\<rparr>))"

definition eraseCommittedProposalList :: "int \<Rightarrow> 'z processor \<Rightarrow> 'z processor" where
  "eraseCommittedProposalList i s = s\<lparr>m_committedProposalList := removeAll i (m_committedProposalList s)\<rparr>"

definition proposalCommitted :: "int \<Rightarrow> 'z processor \<Rightarrow> bool" where
  "proposalCommitted i s \<longleftrightarrow> i \<in> set (m_committedProposalList s)"

section \<open>View changes\<close>

definition raise_max :: "u64 \<Rightarrow> int \<Rightarrow> (u64 \<Rightarrow> int option) \<Rightarrow> u64 \<Rightarrow> int option" where
  "raise_max v i f = (case f v of None \<Rightarrow> f(v \<mapsto> i) | Some j \<Rightarrow> if j < i then f(v \<mapsto> i) else f)"

definition view_changes :: "u64 \<Rightarrow> 'z processor \<Rightarrow> (u64 \<times> view_change) list" where
  "view_changes v s = (case map_of (m_viewChangeCache s) v of None \<Rightarrow> [] | Some l \<Rightarrow> l)"

text \<open>What one request adds to the weight and to the largest indexes of its view.\<close>

definition count_view_change :: "u64 \<Rightarrow> view_change \<Rightarrow> u64 \<Rightarrow> 'z processor \<Rightarrow> 'z processor" where
  "count_view_change v vc w s =
     s\<lparr>m_viewChangeWeight := (m_viewChangeWeight s)
         (v \<mapsto> (case m_viewChangeWeight s v of None \<Rightarrow> 0 | Some x \<Rightarrow> x) + w),
       m_maxCommittedIndex := raise_max v (p_index (vc_committedProposal vc)) (m_maxCommittedIndex s),
       m_maxPrecommitIndex := fold (\<lambda>p. raise_max v (index p)) (preparedProposals vc) (m_maxPrecommitIndex s)\<rparr>"

definition addViewChangeReq :: "view_change \<Rightarrow> 'z processor \<Rightarrow> 'z processor" where
  "addViewChangeReq vc s =
     (let v = view vc; from = generatedFrom vc
      in if map_of (view_changes v s) from \<noteq> None then s
         else case getConsensusNodeByIndex s from of
                None \<Rightarrow> s
              | Some n \<Rightarrow>
                  count_view_change v vc (weight n)
                    (s\<lparr>m_viewChangeCache := map_insert v (map_insert from vc (view_changes v s)) (m_viewChangeCache s)\<rparr>))"

definition reCalculateViewChangeWeight :: "'z processor \<Rightarrow> 'z processor" where
  "reCalculateViewChangeWeight s =
     fold (\<lambda>(v, l) s.
         fold (\<lambda>(from, vc) s.
             case getConsensusNodeByIndex s (generatedFrom vc) of
               None \<Rightarrow> s | Some n \<Rightarrow> count_view_change v vc (weight n) s) l
           (s\<lparr>m_viewChangeWeight := (m_viewChangeWeight s)(v \<mapsto> 0)\<rparr>))
       (m_viewChangeCache s) (s\<lparr>m_maxPrecommitIndex := Map.empty, m_maxCommittedIndex := Map.empty\<rparr>)"

definition removeInvalidViewChange :: "u64 \<Rightarrow> int \<Rightarrow> 'z processor \<Rightarrow> 'z processor" where
  "removeInvalidViewChange v latest s =
     (let gone = map fst (filter (\<lambda>(w, l). w \<le> v) (m_viewChangeCache s))
      in reCalculateViewChangeWeight
           (s\<lparr>m_viewChangeCache :=
                map (\<lambda>(w, l). (w, filter (\<lambda>(from, vc). \<not> index vc < latest) l))
                  (filter (\<lambda>(w, l). \<not> w \<le> v) (m_viewChangeCache s)),
              m_viewChangeWeight := (\<lambda>w. if w \<in> set gone then None else m_viewChangeWeight s w)\<rparr>))"

definition removeInvalidRecoverCache :: "u64 \<Rightarrow> 'z processor \<Rightarrow> 'z processor" where
  "removeInvalidRecoverCache v s =
     (let gone = map fst (filter (\<lambda>(w, l). w \<le> v) (m_recoverReqCache s))
      in s\<lparr>m_recoverReqCache := filter (\<lambda>(w, l). \<not> w \<le> v) (m_recoverReqCache s),
           m_recoverCacheWeight := filter (\<lambda>(w, x). w \<notin> set gone) (m_recoverCacheWeight s)\<rparr>)"

text \<open>The prepared proposal of an index that the new leader proposes again: one of the latest view.\<close>

fun collect_prepared ::
  "int \<Rightarrow> u64 \<Rightarrow> pbft_message list \<Rightarrow> (int \<Rightarrow> pbft_message option) \<Rightarrow> int \<Rightarrow> pbft_message option" where
  "collect_prepared maxCommitted from [] prepared = prepared"
| "collect_prepared maxCommitted from (p # ps) prepared =
     collect_prepared maxCommitted from ps
       (if index p < maxCommitted then prepared
        else case prepared (index p) of
               Some q \<Rightarrow>
                 if index q \<noteq> index p \<or> hash q \<noteq> hash p
                 then (if view q < view p then prepared(index p \<mapsto> p) else prepared)
                 else prepared
             | None \<Rightarrow> prepared(index p \<mapsto> p\<lparr>generatedFrom := from\<rparr>))"

definition rehandled_proposal ::
  "pbft_env \<Rightarrow> (int \<Rightarrow> pbft_message option) \<Rightarrow> int \<Rightarrow> 'z processor \<Rightarrow> pbft_message" where
  "rehandled_proposal env prepared i s =
     (case prepared i of
        Some p \<Rightarrow>
          (case consensusProposal p of
             Some q \<Rightarrow> populateFrom_proposal PrePreparePacket q (m_toView s) (generatedFrom p)
           | None \<Rightarrow> populateWithoutProposal p)
      | None \<Rightarrow>
          populateFrom_proposal PrePreparePacket (generateEmptyProposal env i (m_nodeIndex s))
            (m_toView s) (m_nodeIndex s))"

definition generatePrePrepareMsg ::
  "pbft_env \<Rightarrow> (u64 \<times> view_change) list \<Rightarrow> 'z processor \<Rightarrow> pbft_message list" where
  "generatePrePrepareMsg env l s =
     (let committed = committedIndex s;
          maxCommitted = (case m_maxCommittedIndex s (m_toView s) of None \<Rightarrow> committed | Some i \<Rightarrow> i);
          maxPrecommit = (case m_maxPrecommitIndex s (m_toView s) of None \<Rightarrow> committed | Some i \<Rightarrow> i);
          maxPrecommit = (if m_waitSealUntil s > committed then min (m_waitSealUntil s) maxPrecommit else maxPrecommit);
          prepared = fold (\<lambda>(from, vc). collect_prepared maxCommitted (generatedFrom vc) (preparedProposals vc)) l Map.empty
      in map (\<lambda>i. rehandled_proposal env prepared i s) [maxCommitted + 1..maxPrecommit])"

definition checkAndTryIntoNewView :: "pbft_env \<Rightarrow> 'z processor \<Rightarrow> new_view option \<times> 'z processor" where
  "checkAndTryIntoNewView env s =
     (if committedIndex s < m_syncingHighestNumber s then (None, s)
      else if m_newViewGenerated s \<or> \<not> leaderAfterViewChange s then (None, s)
      else case m_viewChangeWeight s (m_toView s) of
             None \<Rightarrow> (None, s)
           | Some w \<Rightarrow>
               if w < m_minRequiredQuorum s then (None, s)
               else let l = view_changes (m_toView s) s;
                        nv = \<lparr>view = m_toView s, index = committedIndex s, hash = p_hash (m_committedProposal s),
                              generatedFrom = m_nodeIndex s, signatureDataHash = 0, signatureData = [],
                              from_node = None, viewChangeMsgList = map snd l,
                              prePrepareList = generatePrePrepareMsg env l s\<rparr>
                    in (Some nv, (emit (Broadcast_new_view nv) s)\<lparr>m_newViewGenerated := True\<rparr>))"

definition view_change_weight :: "'z pbft_config_scheme \<Rightarrow> (u64 \<times> view_change) list \<Rightarrow> u64" where
  "view_change_weight c l =
     fold (\<lambda>(from, vc) w. case getConsensusNodeByIndex c from of None \<Rightarrow> w | Some n \<Rightarrow> w + weight n) l 0"

fun fast_view_loop ::
  "'z pbft_config_scheme \<Rightarrow> (u64 \<times> (u64 \<times> view_change) list) list \<Rightarrow> u64 \<times> bool \<Rightarrow> u64 \<times> bool" where
  "fast_view_loop c [] r = r"
| "fast_view_loop c ((v, l) # vs) (viewToReach, found) =
     fast_view_loop c vs
       (if v \<le> m_toView c then (viewToReach, found)
        else if viewToReach > v \<or> viewToReach = 0
        then (if view_change_weight c l \<ge> m_maxFaultyQuorum c + 1 then (v, True) else (viewToReach, found))
        else (viewToReach, found))"

definition tryToTriggerFastViewChange :: "'z processor \<Rightarrow> u64 \<times> 'z processor" where
  "tryToTriggerFastViewChange s =
     (let (viewToReach, found) = fast_view_loop s (m_viewChangeCache s) (0, False)
      in if \<not> found then (0, s)
         else if m_toView s \<ge> viewToReach then (0, s)
         else (viewToReach, if viewToReach > 0 then s\<lparr>m_toView := viewToReach - 1\<rparr> else s))"

fun precommit_weight_loop ::
  "pbft_env \<Rightarrow> 'z pbft_config_scheme \<Rightarrow> hash \<Rightarrow> (u64 \<times> bytes) list \<Rightarrow> u64 \<Rightarrow> u64 option" where
  "precommit_weight_loop env c h [] w = Some w"
| "precommit_weight_loop env c h ((i, sig) # proofs) w =
     (case getConsensusNodeByIndex c i of
        None \<Rightarrow> None
      | Some n \<Rightarrow> if verify env (nodeID n) h sig then precommit_weight_loop env c h proofs (w + weight n) else None)"

text \<open>The caller has made sure that there is a proposal.\<close>

definition checkPrecommitWeight :: "pbft_env \<Rightarrow> 'z pbft_config_scheme \<Rightarrow> pbft_message \<Rightarrow> bool" where
  "checkPrecommitWeight env c m =
     (case consensusProposal m of
        None \<Rightarrow> False
      | Some p \<Rightarrow>
          (case precommit_weight_loop env c (p_hash p) (p_signatureProof p) 0 of
             None \<Rightarrow> False | Some w \<Rightarrow> w \<ge> m_minRequiredQuorum c))"

definition checkPrecommitMsg :: "pbft_env \<Rightarrow> pbft_message \<Rightarrow> 'z processor \<Rightarrow> bool \<times> 'z processor" where
  "checkPrecommitMsg env m s =
     (if m_startRecovered s \<and> view m > m_toView s then (False, s)
      else if consensusProposal m = None then (False, s)
      else if checkPrecommitWeight env s m then (True, s)
      else case cache_at s (index m) of
             None \<Rightarrow> (False, s)
           | Some k \<Rightarrow>
               (case m_precommit k of
                  None \<Rightarrow> (False, s)
                | Some pc \<Rightarrow>
                    (False, if hash pc = hash m \<and> \<not> checkPrecommitWeight env s pc
                            then s\<lparr>m_caches := map_erase (index pc) (m_caches s)\<rparr> else s)))"

fun precommit_list_loop ::
  "'z pbft_config_scheme \<Rightarrow> (int \<times> pbft_cache) list \<Rightarrow> pbft_message list \<times> (int \<times> pbft_cache) list" where
  "precommit_list_loop c [] = ([], [])"
| "precommit_list_loop c ((i, k) # ks) =
     (let (ms, ks) = precommit_list_loop c ks
      in case m_precommitWithoutData k of
           None \<Rightarrow> (ms, (i, k) # ks)
         | Some m \<Rightarrow>
             if m_waitSealUntil c > committedIndex c \<and> index m > m_waitSealUntil c then (ms, ks)
             else (m # ms, (i, k) # ks))"

definition preCommitCachesWithoutData :: "'z processor \<Rightarrow> pbft_message list \<times> 'z processor" where
  "preCommitCachesWithoutData s =
     (let (ms, ks) = precommit_list_loop s (m_caches s) in (ms, s\<lparr>m_caches := ks\<rparr>))"

section \<open>Clean-up and recovery\<close>

definition removeConsensusedCache :: "u64 \<Rightarrow> int \<Rightarrow> 'z processor \<Rightarrow> 'z processor" where
  "removeConsensusedCache v i s =
     (let s = s\<lparr>m_proposalsToStableConsensus := removeAll i (m_proposalsToStableConsensus s),
                m_caches := filter (\<lambda>(j, k). \<not> j \<le> i) (m_caches s)\<rparr>
      in (removeInvalidViewChange v i s)\<lparr>m_newViewGenerated := False\<rparr>)"

definition reset_step :: "u64 \<Rightarrow> int \<Rightarrow> 'z processor \<Rightarrow> 'z processor" where
  "reset_step v i s =
     (case cache_at s i of None \<Rightarrow> s | Some k \<Rightarrow> let (s, k) = resetCache v (s, k) in set_cache i k s)"

definition proc_resetCacheAfterViewChange :: "u64 \<Rightarrow> int \<Rightarrow> 'z processor \<Rightarrow> 'z processor" where
  "proc_resetCacheAfterViewChange v latest s =
     (let s = fold (reset_step v) (map fst (m_caches s)) s;
          s = s\<lparr>m_maxPrecommitIndex := Map.empty, m_maxCommittedIndex := Map.empty, m_newViewGenerated := False\<rparr>
      in removeInvalidRecoverCache v (removeInvalidViewChange v latest s))"

definition addRecoverReqCache :: "pbft_message \<Rightarrow> 'z processor \<Rightarrow> 'z processor" where
  "addRecoverReqCache m s =
     (let from = generatedFrom m; v = view m;
          l = (case map_of (m_recoverReqCache s) v of None \<Rightarrow> [] | Some l \<Rightarrow> l)
      in if map_of l from \<noteq> None then s
         else let s = s\<lparr>m_recoverReqCache := map_insert v (map_insert from m l) (m_recoverReqCache s)\<rparr>
              in case getConsensusNodeByIndex s from of
                   None \<Rightarrow> s
                 | Some n \<Rightarrow>
                     s\<lparr>m_recoverCacheWeight :=
                         map_insert v ((case map_of (m_recoverCacheWeight s) v of None \<Rightarrow> 0 | Some w \<Rightarrow> w) + weight n)
                           (m_recoverCacheWeight s)\<rparr>)"

definition recovered_view :: "'z processor \<Rightarrow> u64" where
  "recovered_view s =
     fold (\<lambda>(v, w) r. if w \<ge> m_minRequiredQuorum s \<and> r < v then v else r) (m_recoverCacheWeight s) 0"

definition checkAndTryToRecover :: "pbft_env \<Rightarrow> 'z processor \<Rightarrow> bool \<times> 'z processor" where
  "checkAndTryToRecover env s =
     (let v = recovered_view s
      in if v = 0 then (False, s)
         else let s = resetNewViewState v s;
                  s = proc_resetCacheAfterViewChange v (committedIndex s) s;
                  s = s\<lparr>m_recoverReqCache := [], m_recoverCacheWeight := []\<rparr>
              in (True, proc_checkAndCommit env (proc_checkAndPreCommit env s)))"

definition resetUnCommittedCacheState :: "int \<Rightarrow> 'z processor \<Rightarrow> 'z processor" where
  "resetUnCommittedCacheState i s =
     s\<lparr>m_caches := map (\<lambda>(j, k). (j, if m_index k \<ge> i then resetState k else k)) (m_caches s),
       m_committedProposalList := [], m_executingProposals := []\<rparr>"

definition clearCacheAfterRecoverStateFailed :: "'z processor \<Rightarrow> 'z processor" where
  "clearCacheAfterRecoverStateFailed s = s\<lparr>m_committedProposalList := []\<rparr>"

definition clearAllCache :: "'z processor \<Rightarrow> 'z processor" where
  "clearAllCache s =
     s\<lparr>m_caches := [], m_viewChangeCache := [], m_committedQueue := [], m_executingProposals := [],
       m_committedProposalList := [], m_proposalsToStableConsensus := [],
       m_stableCheckPointQueue := [], m_recoverReqCache := []\<rparr>"

end
