(* ===== verification/Pbft_Engine.thy ===== *)
theory Pbft_Engine
  imports Pbft_Processor
begin

text \<open>
  The message handlers of a consensus node, \<^verbatim>\<open>pbft/engine/PBFTEngine.cpp\<close>, and the check of blocks
  received from other nodes, \<^verbatim>\<open>pbft/engine/BlockValidator.cpp\<close>. A handler runs under the lock of the
  engine and is one function on the state. What the code continues in a callback - the verification of
  a proposal, its execution, the answer of a peer - is an event of the state and a handler of its own.
  Messages are values: a message that is broadcast after it was handled is broadcast as it was made.
\<close>

section \<open>Checks\<close>

datatype check_result = VALID | INVALID

definition checkPBFTMsgState :: "pbft_message \<Rightarrow> 'z processor \<Rightarrow> check_result" where
  "checkPBFTMsgState m s =
     (if consensusProposal m = None then INVALID
      else if index m < m_lowWaterMark s \<or> index m < m_expectedCheckPoint s \<or>
              index m \<le> m_syncingHighestNumber s \<or> proposalCommitted (index m) s then INVALID
      else if view m < m_view s then INVALID
      else VALID)"

definition checkPrePrepareMsg :: "pbft_message \<Rightarrow> 'z processor \<Rightarrow> check_result" where
  "checkPrePrepareMsg m s =
     (if checkPBFTMsgState m s = INVALID then INVALID
      else if proc_existPrePrepare m s then INVALID
      else if proc_conflictWithProcessedReq m s then INVALID
      else if proc_conflictWithPrecommitReq m s then INVALID
      else VALID)"

definition checkSignature :: "pbft_env \<Rightarrow> 'y base_message_scheme \<Rightarrow> 'z pbft_config_scheme \<Rightarrow> check_result" where
  "checkSignature env m c =
     (case getConsensusNodeByIndex c (generatedFrom m) of
        None \<Rightarrow> INVALID
      | Some n \<Rightarrow> if \<not> verifySignature env (nodeID n) m then INVALID else VALID)"

definition checkProposalSignature ::
  "pbft_env \<Rightarrow> u64 \<Rightarrow> pbft_proposal option \<Rightarrow> 'z pbft_config_scheme \<Rightarrow> bool" where
  "checkProposalSignature env from proposal c =
     (case proposal of
        None \<Rightarrow> False
      | Some p \<Rightarrow>
          if length (p_signature p) = 0 then False
          else case getConsensusNodeByIndex c from of
                 None \<Rightarrow> False
               | Some n \<Rightarrow> verify env (nodeID n) (p_hash p) (p_signature p))"

definition isSyncingHigher :: "'z pbft_config_scheme \<Rightarrow> bool" where
  "isSyncingHigher c \<longleftrightarrow> \<not> m_syncingHighestNumber c < committedIndex c + m_waterMarkLimit c"

definition checkPBFTMsg :: "pbft_env \<Rightarrow> pbft_message \<Rightarrow> 'z processor \<Rightarrow> check_result" where
  "checkPBFTMsg env m s =
     (if checkPBFTMsgState m s = INVALID then INVALID
      else if generatedFrom m = m_nodeIndex s then INVALID
      else if proc_existPrePrepare m s \<and> proc_conflictWithProcessedReq m s then INVALID
      else checkSignature env m s)"

section \<open>Prepare and commit\<close>

definition broadcastPrepareMsg :: "pbft_env \<Rightarrow> pbft_message \<Rightarrow> 'z processor \<Rightarrow> 'z processor" where
  "broadcastPrepareMsg env m s =
     (case consensusProposal m of
        None \<Rightarrow> s
      | Some p \<Rightarrow>
          let prepareMsg = (populateFrom_signed env PreparePacket (m_view s) (m_nodeIndex s) p)\<lparr>index := index m\<rparr>
          in proc_checkAndPreCommit env (emit (Broadcast prepareMsg) (proc_addPrepareCache prepareMsg s)))"

text \<open>The data of the proposal of a message, which \<open>checkPBFTMsgState\<close> has found.\<close>

definition proposal_data :: "pbft_message \<Rightarrow> bytes" where
  "proposal_data m = (case consensusProposal m of None \<Rightarrow> [] | Some p \<Rightarrow> p_data p)"

definition handlePrePrepareMsg ::
  "pbft_env \<Rightarrow> pbft_message \<Rightarrow> bool \<Rightarrow> bool \<Rightarrow> bool \<Rightarrow> 'z processor \<Rightarrow> bool \<times> 'z processor" where
  "handlePrePrepareMsg env m needVerifyProposal generatedFromNewView needCheckSignature s =
     (if isSyncingHigher s then (False, s)
      else if map_of (m_executingProposals s) (hash m) \<noteq> None then (False, s)
      else if checkPrePrepareMsg m s = INVALID then (False, s)
      else if \<not> generatedFromNewView \<and> leaderIndex (index m) s \<noteq> generatedFrom m then (False, s)
      else if \<not> generatedFromNewView \<and> needCheckSignature \<and> checkSignature env m s = INVALID
      then (False, notifySealer env (index m) True s)
      else if \<not> needVerifyProposal
      then let s = emit (Reset_txs (proposal_data m) True False) s;
               s = timer_restart (proc_addPrePrepareCache m s);
               s = broadcastPrepareMsg env m s
           in (True, proc_checkAndPreCommit env s)
      else case getConsensusNodeByIndex s (generatedFrom m) of
             None \<Rightarrow> (False, s)
           | Some n \<Rightarrow> (True, emit (Verify_proposal (nodeID n) m generatedFromNewView) s))"

text \<open>The callback of the validator: an error, or the result of the verification.\<close>

definition onVerifyFinished ::
  "pbft_env \<Rightarrow> pbft_message \<Rightarrow> bool \<Rightarrow> bool \<Rightarrow> bool \<Rightarrow> 'z processor \<Rightarrow> 'z processor" where
  "onVerifyFinished env m generatedFromNewView error verifyResult s =
     (if committedIndex s \<ge> index m then s
      else let s = emit (Reset_txs (proposal_data m) True False) s
           in if error \<or> \<not> verifyResult then notifySealer env (index m) True s
              else snd (handlePrePrepareMsg env m False generatedFromNewView False s))"

definition handlePrepareMsg :: "pbft_env \<Rightarrow> pbft_message \<Rightarrow> 'z processor \<Rightarrow> bool \<times> 'z processor" where
  "handlePrepareMsg env m s =
     (if checkPBFTMsg env m s = INVALID then (False, s)
      else if \<not> checkProposalSignature env (generatedFrom m) (consensusProposal m) s then (False, s)
      else (True, proc_checkAndPreCommit env (proc_addPrepareCache m s)))"

definition handleCommitMsg :: "pbft_env \<Rightarrow> pbft_message \<Rightarrow> 'z processor \<Rightarrow> bool \<times> 'z processor" where
  "handleCommitMsg env m s =
     (if checkPBFTMsg env m s = INVALID then (False, s)
      else (True, proc_checkAndCommit env (addCommitReq m s)))"

definition resetSealedTxs :: "pbft_message \<Rightarrow> 'z processor \<Rightarrow> 'z processor" where
  "resetSealedTxs m s =
     (if generatedFrom m \<noteq> m_nodeIndex s then s
      else emit (Reset_txs (proposal_data m) False False) (notifyResetSealing None s))"

definition onRecvProposal ::
  "pbft_env \<Rightarrow> bool \<Rightarrow> bytes \<Rightarrow> int \<Rightarrow> hash \<Rightarrow> 'z processor \<Rightarrow> 'z processor" where
  "onRecvProposal env containSysTxs data i h s =
     (if length data = 0 then s
      else if \<not> isConsensusNode s then s
      else if i \<le> m_syncingHighestNumber s
      then emit (Reset_txs data False True) (notifyResetSealing (Some (committedIndex s + 1)) s)
      else if i \<le> committedIndex s \<or> i < m_expectedCheckPoint s \<or> i < m_lowWaterMark s then s
      else if leaderIndex i s \<noteq> m_nodeIndex s
      then emit (Reset_txs data False True) (notifyResetSealing (Some (committedIndex s + 1)) s)
      else let p = (createPBFTProposal i h)
                     \<lparr>p_data := data, p_sealerId := m_nodeIndex s, p_systemProposal := containSysTxs\<rparr>;
               m = populateFrom_proposal PrePreparePacket p (m_view s) (m_nodeIndex s);
               (ret, s) = handlePrePrepareMsg env m False False False s
           in if ret then emit (Broadcast m) s else resetSealedTxs m s)"

section \<open>View change\<close>

definition generateViewChange :: "'z processor \<Rightarrow> view_change \<times> 'z processor" where
  "generateViewChange s =
     (let (ms, s) = preCommitCachesWithoutData s
      in (\<lparr>view = m_toView s, index = committedIndex s, hash = p_hash (m_committedProposal s),
           generatedFrom = m_nodeIndex s, signatureDataHash = 0, signatureData = [], from_node = None,
           vc_committedProposal = populateFrom_copy (m_committedProposal s) True, preparedProposals = ms\<rparr>, s))"

definition sendRecoverResponse :: "nodeid \<Rightarrow> 'z processor \<Rightarrow> 'z processor" where
  "sendRecoverResponse dst s =
     emit (Send dst \<lparr>view = m_view s, index = committedIndex s, hash = 0, generatedFrom = m_nodeIndex s,
                     signatureDataHash = 0, signatureData = [], from_node = None,
                     packetType = RecoverResponse, consensusProposal = None, proposals = []\<rparr>) s"

definition reachNewView :: "pbft_env \<Rightarrow> u64 \<Rightarrow> 'z processor \<Rightarrow> 'z processor" where
  "reachNewView env v s =
     (let s = resetNewViewState v s;
          s = proc_resetCacheAfterViewChange (m_view s) (committedIndex s) s;
          s = proc_checkAndCommit env (proc_checkAndPreCommit env s);
          (r, s) = tryToApplyCommitQueue env s
      in tryToCommitStableCheckPoint s)"

text \<open>
  The loop over the proposals of a new view; the largest index counts those without data. That a message
  carries a proposal, and that the sender of a proposal that is missing here is a consensus node, is not
  checked.
\<close>

fun rehandle_loop :: "pbft_env \<Rightarrow> pbft_message list \<Rightarrow> int \<Rightarrow> 'z processor \<Rightarrow> int \<times> 'z processor" where
  "rehandle_loop env [] maxIndex s = (maxIndex, s)"
| "rehandle_loop env (m # ms) maxIndex s =
     (if consensusProposal m = None then (maxIndex, emit Null_dereference s)
      else if length (proposal_data m) > 0
      then rehandle_loop env ms maxIndex (snd (handlePrePrepareMsg env m True True False s))
      else let maxIndex = (if index m > maxIndex then index m else maxIndex)
           in case tryToFillProposal m s of
                Some m \<Rightarrow> rehandle_loop env ms maxIndex (snd (handlePrePrepareMsg env m True True False s))
              | None \<Rightarrow>
                  (case getConsensusNodeByIndex s (generatedFrom m) of
                     None \<Rightarrow> (maxIndex, emit Null_dereference s)
                   | Some n \<Rightarrow> rehandle_loop env ms maxIndex (emit (Request_precommit_data (nodeID n) m) s)))"

definition reHandlePrePrepareProposals :: "pbft_env \<Rightarrow> new_view \<Rightarrow> 'z processor \<Rightarrow> 'z processor" where
  "reHandlePrePrepareProposals env nv s =
     (let s = notifyResetSealing None (reachNewView env (view nv) s);
          (maxIndex, s) = rehandle_loop env (prePrepareList nv) (committedIndex s) s
      in if length (prePrepareList nv) > 0 then s\<lparr>m_waitResealUntil := maxIndex\<rparr>
         else reNotifySealer env (maxIndex + 1) s)"

definition collect_view_change :: "pbft_env \<Rightarrow> view_change \<Rightarrow> 'z processor \<Rightarrow> 'z processor" where
  "collect_view_change env vc s =
     (case checkAndTryIntoNewView env (addViewChangeReq vc s) of
        (None, s) \<Rightarrow> s
      | (Some nv, s) \<Rightarrow> reHandlePrePrepareProposals env nv s)"

definition sendViewChange :: "pbft_env \<Rightarrow> nodeid \<Rightarrow> 'z processor \<Rightarrow> 'z processor" where
  "sendViewChange env dst s =
     (let (vc, s) = generateViewChange s in collect_view_change env vc (emit (Send_view_change dst vc) s))"

definition broadcastViewChangeReq :: "pbft_env \<Rightarrow> 'z processor \<Rightarrow> 'z processor" where
  "broadcastViewChangeReq env s =
     (let (vc, s) = generateViewChange s in collect_view_change env vc (emit (Broadcast_view_change vc) s))"

definition triggerTimeout :: "pbft_env \<Rightarrow> bool \<Rightarrow> 'z processor \<Rightarrow> 'z processor" where
  "triggerTimeout env incTimeout s =
     (let s = resetTimeoutState incTimeout s;
          s = removeInvalidViewChange (m_view s) (committedIndex s) s;
          s = notifyCommittedProposalIndex (committedIndex s) s
      in broadcastViewChangeReq env s)"

text \<open>The engine's side of a fast view change: time out, then look at the next leader.\<close>

definition onFastViewChange :: "pbft_env \<Rightarrow> 'z processor \<Rightarrow> 'z processor" where
  "onFastViewChange env s =
     (let s = triggerTimeout env False s
      in tryTriggerFastViewChange env (leaderIndexInNewViewPeriod (m_progressedIndex s) (m_toView s) s) s)"

definition onTimeout :: "pbft_env \<Rightarrow> 'z processor \<Rightarrow> 'z processor" where
  "onTimeout env s =
     (if \<not> isConsensusNode s then timer_restart s
      else case tryToApplyCommitQueue env s of
             (True, s) \<Rightarrow> timer_restart s
           | (False, s) \<Rightarrow>
               let s = clearExpiredExecutingProposal s
               in if length (m_executingProposals s) > 0 then timer_restart s else triggerTimeout env True s)"

fun check_prepared_loop ::
  "pbft_env \<Rightarrow> u64 \<Rightarrow> pbft_message list \<Rightarrow> 'z processor \<Rightarrow> bool \<times> 'z processor" where
  "check_prepared_loop env v [] s = (True, s)"
| "check_prepared_loop env v (m # ms) s =
     (if view m > v then (False, s)
      else case checkPrecommitMsg env m s of
             (False, s) \<Rightarrow> (False, s)
           | (True, s) \<Rightarrow> check_prepared_loop env v ms s)"

definition isValidViewChangeMsg ::
  "pbft_env \<Rightarrow> nodeid option \<Rightarrow> view_change \<Rightarrow> 'z processor \<Rightarrow> bool \<times> 'z processor" where
  "isValidViewChangeMsg env from vc s =
     (if p_index (vc_committedProposal vc) < committedIndex s then (False, s)
      else let s = (case from of
                      Some n \<Rightarrow> if \<not> m_timeoutState s then sendRecoverResponse n s else s
                    | None \<Rightarrow> s);
               s = (if view vc < m_view s \<or> view vc + 1 < m_toView s
                    then (case from of
                            Some n \<Rightarrow> if m_timeoutState s then sendViewChange env n s else s
                          | None \<Rightarrow> s)
                    else s)
           in if view vc < m_view s then (False, s)
              else if p_index (vc_committedProposal vc) = committedIndex s \<and>
                      p_hash (vc_committedProposal vc) \<noteq> p_hash (m_committedProposal s) then (False, s)
              else case check_prepared_loop env (view vc) (preparedProposals vc) s of
                     (False, s) \<Rightarrow> (False, s)
                   | (True, s) \<Rightarrow> (checkSignature env vc s = VALID, s))"

text \<open>
  The leader test passes the block number of the request where a view is expected. The weight of the view
  is there, since the request has just been added.
\<close>

definition fast_view_change_due :: "view_change \<Rightarrow> 'z processor \<Rightarrow> bool" where
  "fast_view_change_due vc s \<longleftrightarrow>
     generatedFrom vc = leaderIndexInNewViewPeriod (index vc + 1) (word_of_int (index vc)) s \<or>
     (case m_viewChangeWeight s (view vc) of None \<Rightarrow> False | Some w \<Rightarrow> w > m_maxFaultyQuorum s)"

definition handleViewChangeMsg :: "pbft_env \<Rightarrow> view_change \<Rightarrow> 'z processor \<Rightarrow> bool \<times> 'z processor" where
  "handleViewChangeMsg env vc s =
     (case isValidViewChangeMsg env (from_node vc) vc s of
        (False, s) \<Rightarrow> (False, s)
      | (True, s) \<Rightarrow>
          let s = (case from_node vc of
                     Some n \<Rightarrow> if \<not> m_timeoutState s then sendRecoverResponse n s else s
                   | None \<Rightarrow> s);
              s = addViewChangeReq vc s;
              s = (if fast_view_change_due vc s
                   then let (v, s) = tryToTriggerFastViewChange s
                        in if v > 0 then triggerTimeout env False s else s
                   else s)
          in case checkAndTryIntoNewView env s of
               (None, s) \<Rightarrow> (True, s)
             | (Some nv, s) \<Rightarrow> (True, reHandlePrePrepareProposals env nv s))"

fun new_view_weight ::
  "pbft_env \<Rightarrow> nodeid option \<Rightarrow> view_change list \<Rightarrow> u64 \<Rightarrow> 'z processor \<Rightarrow> u64 option \<times> 'z processor" where
  "new_view_weight env from [] w s = (Some w, s)"
| "new_view_weight env from (vc # vcs) w s =
     (case isValidViewChangeMsg env from vc s of
        (False, s) \<Rightarrow> (None, s)
      | (True, s) \<Rightarrow>
          (case getConsensusNodeByIndex s (generatedFrom vc) of
             None \<Rightarrow> new_view_weight env from vcs w s
           | Some n \<Rightarrow> new_view_weight env from vcs (w + weight n) s))"

definition isValidNewViewMsg :: "pbft_env \<Rightarrow> new_view \<Rightarrow> 'z processor \<Rightarrow> bool \<times> 'z processor" where
  "isValidNewViewMsg env nv s =
     (if view nv \<le> m_view s then (False, s)
      else case new_view_weight env (from_node nv) (viewChangeMsgList nv) 0 s of
             (None, s) \<Rightarrow> (False, s)
           | (Some w, s) \<Rightarrow>
               if w < m_minRequiredQuorum s then (False, s) else (checkSignature env nv s = VALID, s))"

definition handleNewViewMsg :: "pbft_env \<Rightarrow> new_view \<Rightarrow> 'z processor \<Rightarrow> bool \<times> 'z processor" where
  "handleNewViewMsg env nv s =
     (case isValidNewViewMsg env nv s of
        (False, s) \<Rightarrow> (False, s)
      | (True, s) \<Rightarrow> (True, reHandlePrePrepareProposals env nv s))"

section \<open>Execution and checkpoints\<close>

definition finalizeConsensus :: "pbft_env \<Rightarrow> ledger_config \<Rightarrow> bool \<Rightarrow> 'z processor \<Rightarrow> 'z processor option" where
  "finalizeConsensus env l syncedBlock s =
     (case resetConfig env l syncedBlock s of
        None \<Rightarrow> None
      | Some s \<Rightarrow>
          let s = proc_checkAndCommitStableCheckPoint s;
              (r, s) = tryToApplyCommitQueue env s;
              s = removeConsensusedCache (m_view s) (lc_blockNumber l) s;
              s = tryToCommitStableCheckPoint s
          in Some (resetTimer env s))"

definition asyncNotifyNewBlock :: "pbft_env \<Rightarrow> ledger_config \<Rightarrow> 'z processor \<Rightarrow> 'z processor option" where
  "asyncNotifyNewBlock env l s =
     (if shouldResetConfig (lc_blockNumber l) s then finalizeConsensus env l True s else Some s)"

definition onProposalApplySuccess ::
  "pbft_env \<Rightarrow> pbft_proposal \<Rightarrow> pbft_proposal \<Rightarrow> 'z processor \<Rightarrow> 'z processor" where
  "onProposalApplySuccess env p executed s =
     (let s = emit (Commit_proposal p) s;
          checkPointMsg = populateFrom_signed env CheckPoint (m_view s) (m_nodeIndex s) executed;
          s = emit (Broadcast checkPointMsg) s;
          s = (if timer_running s then timer_restart s else s);
          s = proc_setCheckPointProposal executed (proc_addCheckPointMsg checkPointMsg s);
          s = (if m_expectedCheckPoint s < p_index executed then s
               else setExpectedCheckPoint (p_index executed + 1) s);
          s = proc_checkAndCommitStableCheckPoint s;
          (r, s) = tryToApplyCommitQueue env s
      in eraseExecutedProposal (p_hash p) s)"

text \<open>The callback of the state machine: proposals below the committed one are given up.\<close>

definition onApplied ::
  "pbft_env \<Rightarrow> pbft_proposal \<Rightarrow> pbft_proposal \<Rightarrow> 'z processor \<Rightarrow> 'z processor" where
  "onApplied env p executed s =
     (if committedIndex s \<ge> p_index p then s else onProposalApplySuccess env p executed s)"

text \<open>A failed execution other than \<^verbatim>\<open>InvalidBlocks\<close>, which also reads the ledger again.\<close>

definition onProposalApplyFailed :: "pbft_env \<Rightarrow> pbft_proposal \<Rightarrow> 'z processor \<Rightarrow> 'z processor" where
  "onProposalApplyFailed env p s =
     (if \<not> m_asMasterNode s then s
      else if p_index p \<ge> committedIndex s \<or> p_index p \<ge> m_syncingHighestNumber s
      then updateCommitQueue env p (eraseExecutedProposal (p_hash p) (timer_restart s))
      else eraseExecutedProposal (p_hash p) (setExpectedCheckPoint (committedIndex s + 1) s))"

definition handleCheckPointMsg :: "pbft_env \<Rightarrow> pbft_message \<Rightarrow> 'z processor \<Rightarrow> bool \<times> 'z processor" where
  "handleCheckPointMsg env m s =
     (if index m \<le> committedIndex s then (False, s)
      else if isSyncingHigher s then (False, s)
      else if checkSignature env m s = INVALID then (False, s)
      else if \<not> checkProposalSignature env (generatedFrom m) (consensusProposal m) s then (False, s)
      else let s = proc_addCheckPointMsg m s;
               (r, s) = tryToApplyCommitQueue env s;
               s = proc_checkAndCommitStableCheckPoint s;
               (request, s) = shouldRequestCheckPoint m s
           in (True, if request
                     then (case from_node m of
                             Some n \<Rightarrow> emit (Request_committed_proposals n (index m) 1) s
                           | None \<Rightarrow> s)
                     else s))"

definition onLoadAndVerifyProposalFinish ::
  "pbft_env \<Rightarrow> bool \<Rightarrow> bool \<Rightarrow> pbft_proposal \<Rightarrow> 'z processor \<Rightarrow> 'z processor" where
  "onLoadAndVerifyProposalFinish env verifyResult error p s =
     (if error \<or> \<not> verifyResult then clearCacheAfterRecoverStateFailed s
      else timer_restart (updatePrecommit p (updateCommitQueue env p s)))"

definition handleRecoverResponse :: "pbft_env \<Rightarrow> pbft_message \<Rightarrow> 'z processor \<Rightarrow> 'z processor" where
  "handleRecoverResponse env m s =
     (if checkSignature env m s = INVALID then s
      else snd (checkAndTryToRecover env (addRecoverReqCache m s)))"

definition handleRecoverRequest :: "pbft_env \<Rightarrow> pbft_message \<Rightarrow> 'z processor \<Rightarrow> 'z processor" where
  "handleRecoverRequest env m s =
     (if checkSignature env m s = INVALID then s
      else case from_node m of Some n \<Rightarrow> sendRecoverResponse n s | None \<Rightarrow> s)"

section \<open>Dispatch\<close>

datatype any_message = Msg pbft_message | View_change_msg view_change | New_view_msg new_view

definition any_view :: "any_message \<Rightarrow> u64" where
  "any_view a = (case a of Msg m \<Rightarrow> view m | View_change_msg vc \<Rightarrow> view vc | New_view_msg nv \<Rightarrow> view nv)"

abbreviation MaxView :: u64 where "MaxView \<equiv> (- 1) div 2"

definition handleMsg :: "pbft_env \<Rightarrow> any_message \<Rightarrow> 'z processor \<Rightarrow> 'z processor" where
  "handleMsg env a s =
     (if any_view a > MaxView then s
      else case a of
             View_change_msg vc \<Rightarrow> snd (handleViewChangeMsg env vc s)
           | New_view_msg nv \<Rightarrow> snd (handleNewViewMsg env nv s)
           | Msg m \<Rightarrow>
               (case packetType m of
                  PrePreparePacket \<Rightarrow> snd (handlePrePrepareMsg env m True False True s)
                | PreparePacket \<Rightarrow> snd (handlePrepareMsg env m s)
                | CommitPacket \<Rightarrow> snd (handleCommitMsg env m s)
                | CheckPoint \<Rightarrow> snd (handleCheckPointMsg env m s)
                | RecoverRequest \<Rightarrow> handleRecoverRequest env m s
                | RecoverResponse \<Rightarrow> handleRecoverResponse env m s
                | _ \<Rightarrow> s))"

text \<open>The worker: what becomes of the message at the front of the queue.\<close>

datatype worker_action = Wait | Put_back | Handled

definition executeWorker ::
  "pbft_env \<Rightarrow> any_message option \<Rightarrow> 'z processor \<Rightarrow> worker_action \<times> 'z processor" where
  "executeWorker env front s =
     (if \<not> isConsensusNode s then (Wait, s)
      else if isSyncingHigher s then (Wait, s)
      else case front of
             None \<Rightarrow> (Wait, s)
           | Some (Msg m) \<Rightarrow>
               if packetType m \<in> {PrePreparePacket, PreparePacket, CommitPacket} \<and> \<not> canHandleNewProposal_msg m s
               then (Put_back, s) else (Handled, handleMsg env (Msg m) s)
           | Some a \<Rightarrow> (Handled, handleMsg env a s))"

section \<open>Blocks of other nodes\<close>

record block_header =
  b_number :: int
  b_hash :: hash
  b_sealer :: u64
  b_sealerList :: "nodeid list"
  b_consensusWeights :: "u64 list"
  b_signatureList :: "(u64 \<times> bytes) list"
  b_transactionsSize :: nat

definition checkSealerListAndWeightList :: "block_header \<Rightarrow> 'z pbft_config_scheme \<Rightarrow> bool" where
  "checkSealerListAndWeightList b c \<longleftrightarrow>
     getConsensusNodeByIndex c (b_sealer b) \<noteq> None \<and>
     length (b_sealerList b) = length (m_consensusNodeList c) \<and>
     length (b_consensusWeights b) = length (m_consensusNodeList c) \<and>
     list_all2 (\<lambda>n x. nodeID n = x) (m_consensusNodeList c) (b_sealerList b) \<and>
     list_all2 (\<lambda>n w. weight n = w) (m_consensusNodeList c) (b_consensusWeights b)"

fun signature_weight_loop ::
  "pbft_env \<Rightarrow> 'z pbft_config_scheme \<Rightarrow> hash \<Rightarrow> (u64 \<times> bytes) list \<Rightarrow> u64 \<Rightarrow> u64 option" where
  "signature_weight_loop env c h [] w = Some w"
| "signature_weight_loop env c h ((i, sig) # sigs) w =
     (case getConsensusNodeByIndex c i of
        None \<Rightarrow> None
      | Some n \<Rightarrow> if \<not> verify env (nodeID n) h sig then None else signature_weight_loop env c h sigs (w + weight n))"

definition checkSignatureList :: "pbft_env \<Rightarrow> block_header \<Rightarrow> 'z pbft_config_scheme \<Rightarrow> bool" where
  "checkSignatureList env b c =
     (case signature_weight_loop env c (b_hash b) (b_signatureList b) 0 of
        None \<Rightarrow> False | Some w \<Rightarrow> \<not> w < m_minRequiredQuorum c)"

definition asyncCheckBlock :: "pbft_env \<Rightarrow> block_header \<Rightarrow> 'z pbft_config_scheme \<Rightarrow> bool" where
  "asyncCheckBlock env b c =
     (if b_number b = 0 then True
      else if b_number b \<le> committedIndex c then False
      else if b_transactionsSize b = 0 then True
      else if \<not> checkSealerListAndWeightList b c then False
      else checkSignatureList env b c)"

end
