(* ===== verification/Pbft_Votes.thy ===== *)
theory Pbft_Votes
  imports Pbft_Engine
begin

text \<open>
  Quorums and votes: two quorums of nodes share a correct one, and the weight recorded for a hash is
  the weight of the nodes whose votes are stored for it.
\<close>

section \<open>Quorums\<close>

text \<open>A contract for weighted quorums: they overlap in more than the faulty weight, and can be reached.\<close>

locale vote_quorum =
  fixes ok :: "'c \<Rightarrow> bool" and nodes :: "'c \<Rightarrow> 'n set" and wt :: "'c \<Rightarrow> 'n \<Rightarrow> nat"
    and quorum :: "'c \<Rightarrow> nat" and faulty :: "'c \<Rightarrow> nat"
  assumes finite_nodes: "ok c \<Longrightarrow> finite (nodes c)"
    and overlap_size: "ok c \<Longrightarrow> (\<Sum>p\<in>nodes c. wt c p) + faulty c < 2 * quorum c"
    and reachable_size: "ok c \<Longrightarrow> quorum c + faulty c \<le> (\<Sum>p\<in>nodes c. wt c p)"
begin

lemma quorums_overlap:
  assumes ok: "ok c" and sub: "P \<subseteq> nodes c" "Q \<subseteq> nodes c"
    and size: "quorum c \<le> (\<Sum>p\<in>P. wt c p)" "quorum c \<le> (\<Sum>p\<in>Q. wt c p)"
    and B: "B \<subseteq> nodes c" "(\<Sum>p\<in>B. wt c p) \<le> faulty c"
  shows "\<exists>p. p \<in> P \<and> p \<in> Q \<and> p \<notin> B"
proof (rule ccontr)
  assume "\<not> ?thesis"
  then have "P \<inter> Q \<subseteq> B" by blast
  note fin = finite_nodes [OF ok]
  have f: "finite P" "finite Q" "finite B" using sub B fin by (auto intro: finite_subset)
  have "(\<Sum>p\<in>P. wt c p) + (\<Sum>p\<in>Q. wt c p) = (\<Sum>p\<in>P \<union> Q. wt c p) + (\<Sum>p\<in>P \<inter> Q. wt c p)"
    using f by (simp add: sum.union_inter)
  moreover have "(\<Sum>p\<in>P \<union> Q. wt c p) \<le> (\<Sum>p\<in>nodes c. wt c p)" using fin sub by (intro sum_mono2) auto
  moreover have "(\<Sum>p\<in>P \<inter> Q. wt c p) \<le> (\<Sum>p\<in>B. wt c p)" using f \<open>P \<inter> Q \<subseteq> B\<close> by (intro sum_mono2) auto
  ultimately show False using overlap_size [OF ok] size B(2) by linarith
qed

lemma correct_nodes_suffice:
  assumes ok: "ok c" and B: "B \<subseteq> nodes c" "(\<Sum>p\<in>B. wt c p) \<le> faulty c"
  shows "quorum c \<le> (\<Sum>p\<in>nodes c - B. wt c p)"
  using reachable_size [OF ok] B sum.subset_diff [OF B(1) finite_nodes [OF ok], of "wt c"] by linarith

end

definition node_weight :: "'z pbft_config_scheme \<Rightarrow> nat \<Rightarrow> nat" where
  "node_weight c i = unat (weight (m_consensusNodeList c ! i))"

definition total_weight :: "'z pbft_config_scheme \<Rightarrow> nat" where
  "total_weight c = (\<Sum>i<length (m_consensusNodeList c). node_weight c i)"

definition quorum_ok :: "'z pbft_config_scheme \<Rightarrow> bool" where
  "quorum_ok c \<longleftrightarrow> 0 < total_weight c \<and> total_weight c < 2 ^ 64 \<and>
     unat (m_maxFaultyQuorum c) = (total_weight c - 1) div 3 \<and>
     unat (m_minRequiredQuorum c) = total_weight c - (total_weight c - 1) div 3"

interpretation pbft_quorum: vote_quorum quorum_ok "\<lambda>c. {..<length (m_consensusNodeList c)}" node_weight
  "\<lambda>c. unat (m_minRequiredQuorum c)" "\<lambda>c. unat (m_maxFaultyQuorum c)"
proof
  fix c :: "'z pbft_config_scheme" assume ok: "quorum_ok c"
  show "finite {..<length (m_consensusNodeList c)}" by simp
  show "(\<Sum>p<length (m_consensusNodeList c). node_weight c p) + unat (m_maxFaultyQuorum c) < 2 * unat (m_minRequiredQuorum c)"
    "unat (m_minRequiredQuorum c) + unat (m_maxFaultyQuorum c) \<le> (\<Sum>p<length (m_consensusNodeList c). node_weight c p)"
    using ok unfolding quorum_ok_def total_weight_def [symmetric] by linarith+
qed

lemma fold_weight: "fold (\<lambda>n t. t + weight n) l (t :: u64) = t + sum_list (map weight l)"
  by (induction l arbitrary: t) (simp_all add: add.assoc)

lemma unat_sum_list:
  "(\<Sum>x\<leftarrow>l. unat (f x)) < 2 ^ LENGTH('a::len) \<Longrightarrow> unat (sum_list (map f l) :: 'a word) = (\<Sum>x\<leftarrow>l. unat (f x))"
proof (induction l)
  case (Cons x l)
  then have "unat (sum_list (map f l)) = (\<Sum>x\<leftarrow>l. unat (f x))" by simp
  then show ?case using Cons.prems by (simp add: unat_add_lem [THEN iffD1])
qed simp

lemma total_weight_sum_list: "total_weight c = (\<Sum>n\<leftarrow>m_consensusNodeList c. unat (weight n))"
  by (simp add: total_weight_def node_weight_def sum_list_sum_nth atLeast0LessThan)

lemma updateQuorum_ok:
  assumes "0 < total_weight c" "total_weight c < 2 ^ 64"
  shows "quorum_ok (updateQuorum c)"
proof -
  define t where "t = fold (\<lambda>n t. t + weight n) (m_consensusNodeList c) (0 :: u64)"
  have ut: "unat t = total_weight c"
    using assms unat_sum_list [of weight "m_consensusNodeList c"] by (simp add: t_def fold_weight total_weight_sum_list)
  then have "0 < t" using assms(1) by (simp add: word_less_nat_alt)
  then have "unat (t - 1) = total_weight c - 1" using ut by (simp add: unat_minus_one word_greater_zero_iff)
  then have f: "unat ((t - 1) div 3) = (total_weight c - 1) div 3" by (simp add: unat_div)
  then have "(t - 1) div 3 \<le> t" using ut by (simp add: word_le_nat_alt)
  then have "unat (t - (t - 1) div 3) = total_weight c - (total_weight c - 1) div 3"
    using f ut by (simp add: unat_sub)
  then show ?thesis using assms f
    by (simp add: updateQuorum_def Let_def t_def [symmetric] quorum_ok_def total_weight_def node_weight_def)
qed

section \<open>Recorded votes\<close>

text \<open>
  The votes of a phase are well-formed: under a hash there are votes for this hash and the index of the
  cache, one per consensus node, and the recorded weight is their sum. \<open>P\<close> is what is known of a vote.
\<close>

definition weight_of :: "consensus_node list \<Rightarrow> vote_list \<Rightarrow> u64" where
  "weight_of ns l = (\<Sum>(j, m)\<leftarrow>l. weight (ns ! unat j))"

definition vote_ok ::
  "consensus_node list \<Rightarrow> int \<Rightarrow> (pbft_message \<Rightarrow> bool) \<Rightarrow> hash \<Rightarrow> u64 \<times> pbft_message \<Rightarrow> bool" where
  "vote_ok ns i P h = (\<lambda>(j, m). generatedFrom m = j \<and> hash m = h \<and> index m = i \<and> unat j < length ns \<and> P m)"

definition votes_wf ::
  "consensus_node list \<Rightarrow> int \<Rightarrow> (pbft_message \<Rightarrow> bool) \<Rightarrow> collection_cache \<Rightarrow> quorum_recorder \<Rightarrow> bool" where
  "votes_wf ns i P cached weights \<longleftrightarrow>
     (\<forall>h. sorted_wrt (<) (map fst (votes cached h)) \<and> list_all (vote_ok ns i P h) (votes cached h) \<and>
          weights h = map_option (weight_of ns) (cached h))"

lemma votes_wf_empty [simp]: "votes_wf ns i P Map.empty Map.empty"
  by (simp add: votes_wf_def votes_def)

lemma votes_wf_mono:
  "votes_wf ns i P cached weights \<Longrightarrow> (\<And>m. P m \<Longrightarrow> P' m) \<Longrightarrow> votes_wf ns i P' cached weights"
  by (fastforce simp: votes_wf_def vote_ok_def list_all_iff)

lemma map_insert_keys [simp]: "set (map fst (map_insert k v m)) = insert k (set (map fst m))"
  by (induction k v m rule: map_insert.induct) auto

lemma map_insert_sorted: "sorted_wrt (<) (map fst m) \<Longrightarrow> sorted_wrt (<) (map fst (map_insert k v m))"
proof (induction k v m rule: map_insert.induct)
  case (2 k v k' v' m)
  have "set (map fst (map_insert k v m)) = insert k (set (map fst m))" by (rule map_insert_keys)
  with 2 show ?case by (auto simp: less_trans)
qed simp

lemma map_insert_fresh:
  "k \<notin> set (map fst m) \<Longrightarrow> set (map_insert k v m) = insert (k, v) (set m)"
  by (induction k v m rule: map_insert.induct) auto

lemma map_of_map_insert:
  "sorted_wrt (<) (map fst m) \<Longrightarrow> map_of (map_insert k v m) = (map_of m)(k \<mapsto> v)"
proof (induction k v m rule: map_insert.induct)
  case (2 k v k' v' m)
  have "map_of m k = None" if "k < k'" using 2(2) that by (force simp: map_of_eq_None_iff)
  with 2 show ?case by (auto simp: fun_eq_iff)
qed simp

lemma weight_of_map_insert:
  "k \<notin> set (map fst l) \<Longrightarrow> weight_of ns (map_insert k m l) = weight_of ns l + weight (ns ! unat k)"
  by (induction k m l rule: map_insert.induct) (auto simp: weight_of_def algebra_simps)

lemma addCache_wf:
  assumes wf: "votes_wf (m_consensusNodeList c) i P cached weights"
    and P: "getConsensusNodeByIndex c (generatedFrom m) \<noteq> None \<Longrightarrow> P m"
    and add: "addCache c i m (cached, weights) = (cached', weights')"
  shows "votes_wf (m_consensusNodeList c) i P cached' weights'"
proof (cases "index m \<noteq> i \<or> map_of (votes cached (hash m)) (generatedFrom m) \<noteq> None \<or>
    getConsensusNodeByIndex c (generatedFrom m) = None")
  case True
  then have "cached' = cached \<and> weights' = weights"
    using add by (auto simp: addCache_def Let_def votes_def split: if_splits option.splits)
  then show ?thesis using wf by simp
next
  case False
  let ?h = "hash m" and ?j = "generatedFrom m"
  obtain n where n: "getConsensusNodeByIndex c ?j = Some n" using False by blast
  then have j: "unat ?j < length (m_consensusNodeList c)" "n = m_consensusNodeList c ! unat ?j"
    by (auto simp: getConsensusNodeByIndex_def split: if_splits)
  have new: "?j \<notin> set (map fst (votes cached ?h))" using False by (simp add: map_of_eq_None_iff)
  have eq: "cached' = cached(?h \<mapsto> map_insert ?j m (votes cached ?h))"
    "weights' = weights(?h \<mapsto> (case weights ?h of None \<Rightarrow> 0 | Some w \<Rightarrow> w) + weight n)"
    using add False n by (auto simp: addCache_def Let_def)
  have w: "(case weights ?h of None \<Rightarrow> 0 | Some w \<Rightarrow> w) = weight_of (m_consensusNodeList c) (votes cached ?h)"
    using wf by (cases "cached ?h") (auto simp: votes_wf_def votes_def weight_of_def)
  show ?thesis unfolding votes_wf_def
  proof
    fix h
    show "sorted_wrt (<) (map fst (votes cached' h)) \<and> list_all (vote_ok (m_consensusNodeList c) i P h) (votes cached' h) \<and>
          weights' h = map_option (weight_of (m_consensusNodeList c)) (cached' h)"
    proof (cases "h = ?h")
      case True
      have "vote_ok (m_consensusNodeList c) i P ?h (?j, m)" using False P j n by (simp add: vote_ok_def)
      moreover have "votes cached' ?h = map_insert ?j m (votes cached ?h)" by (simp add: eq votes_def)
      moreover have "sorted_wrt (<) (map fst (votes cached ?h))"
        "list_all (vote_ok (m_consensusNodeList c) i P ?h) (votes cached ?h)" using wf by (auto simp: votes_wf_def)
      ultimately show ?thesis using True weight_of_map_insert [OF new]
        by (simp add: map_insert_sorted list_all_iff map_insert_fresh [OF new]) (simp add: eq w j)
    next
      case False
      then show ?thesis using wf eq by (simp add: votes_wf_def votes_def)
    qed
  qed
qed

lemma recalculate_fold:
  assumes "list_all (vote_ok (m_consensusNodeList c) i P h) l"
  shows "fold (\<lambda>(from, m) w. case getConsensusNodeByIndex c (generatedFrom m) of None \<Rightarrow> w | Some n \<Rightarrow> w + weight n) l w =
    w + weight_of (m_consensusNodeList c) l"
  using assms
  by (induction l arbitrary: w) (auto simp: vote_ok_def getConsensusNodeByIndex_def weight_of_def add.assoc)

lemma recalculateQuorum_wf:
  assumes "\<And>h. sorted_wrt (<) (map fst (votes cached h)) \<and> list_all (vote_ok (m_consensusNodeList c) i P h) (votes cached h)"
  shows "votes_wf (m_consensusNodeList c) i P cached (recalculateQuorum c cached)"
  unfolding votes_wf_def
proof
  fix h
  show "sorted_wrt (<) (map fst (votes cached h)) \<and> list_all (vote_ok (m_consensusNodeList c) i P h) (votes cached h) \<and>
    recalculateQuorum c cached h = map_option (weight_of (m_consensusNodeList c)) (cached h)"
    using assms [of h] recalculate_fold [of c i P h "votes cached h" 0]
    by (cases "cached h") (auto simp: recalculateQuorum_def votes_def)
qed

lemma reset_votes:
  "votes (resetCacheAfterViewChange v cached) h = filter (\<lambda>(from, m). \<not> view m < v) (votes cached h)"
  by (auto simp: votes_def resetCacheAfterViewChange_def Let_def split: option.splits)

lemma resetCacheAfterViewChange_wf:
  assumes "votes_wf (m_consensusNodeList c) i P cached weights"
  shows "votes_wf (m_consensusNodeList c) i P (resetCacheAfterViewChange v cached)
    (recalculateQuorum c (resetCacheAfterViewChange v cached))"
proof (rule recalculateQuorum_wf)
  fix h
  have "sorted_wrt (<) (map fst (votes cached h))" "list_all (vote_ok (m_consensusNodeList c) i P h) (votes cached h)"
    using assms by (auto simp: votes_wf_def)
  then show "sorted_wrt (<) (map fst (votes (resetCacheAfterViewChange v cached) h)) \<and>
      list_all (vote_ok (m_consensusNodeList c) i P h) (votes (resetCacheAfterViewChange v cached) h)"
    by (auto simp: reset_votes list_all_iff sorted_wrt_map intro: sorted_wrt_filter)
qed

section \<open>What a quorum of votes means\<close>

definition voters :: "collection_cache \<Rightarrow> hash \<Rightarrow> nat set" where
  "voters cached h = (\<lambda>(j, m). unat j) ` set (votes cached h)"

lemma sum_voters:
  assumes "sorted_wrt (<) (map fst l)"
  shows "(\<Sum>i\<in>(\<lambda>(j, m). unat j) ` set l. f i) = (\<Sum>(j, m)\<leftarrow>l. f (unat (j :: u64)))"
  using assms
proof (induction l)
  case (Cons x l)
  obtain j m where x: "x = (j, m)" by (cases x)
  have "unat j \<notin> (\<lambda>(j, m). unat j) ` set l" using Cons.prems x by (force simp: word_unat_eq_iff [symmetric])
  then show ?case using Cons x by simp
qed simp

lemma quorum_voters:
  assumes ok: "quorum_ok c" and wf: "votes_wf (m_consensusNodeList c) i P cached weights"
    and q: "collectEnoughQuorum c h weights"
  shows "voters cached h \<subseteq> {..<length (m_consensusNodeList c)}"
    "unat (m_minRequiredQuorum c) \<le> (\<Sum>j\<in>voters cached h. node_weight c j)"
proof -
  let ?ns = "m_consensusNodeList c" and ?l = "votes cached h"
  have l: "sorted_wrt (<) (map fst ?l)" "list_all (vote_ok ?ns i P h) ?l" using wf by (auto simp: votes_wf_def)
  show sub: "voters cached h \<subseteq> {..<length ?ns}" using l(2) by (auto simp: voters_def vote_ok_def list_all_iff)
  have "(\<Sum>j\<in>voters cached h. node_weight c j) \<le> total_weight c"
    unfolding total_weight_def using sub by (intro sum_mono2) auto
  then have "(\<Sum>x\<leftarrow>?l. unat (case x of (j, m) \<Rightarrow> weight (?ns ! unat j))) < 2 ^ 64"
    using ok sum_voters [OF l(1), of "node_weight c"]
    by (simp add: quorum_ok_def voters_def node_weight_def case_prod_unfold)
  then have "unat (weight_of ?ns ?l) = (\<Sum>x\<leftarrow>?l. unat (case x of (j, m) \<Rightarrow> weight (?ns ! unat j)))"
    unfolding weight_of_def by (intro unat_sum_list) simp
  also have "\<dots> = (\<Sum>j\<in>voters cached h. node_weight c j)"
    using sum_voters [OF l(1), of "node_weight c"] by (simp add: voters_def node_weight_def case_prod_unfold)
  finally have "unat (weight_of ?ns ?l) = (\<Sum>j\<in>voters cached h. node_weight c j)" .
  moreover obtain w where "weights h = Some w" "m_minRequiredQuorum c \<le> w"
    using q by (auto simp: collectEnoughQuorum_def split: option.splits)
  moreover have "weights h = map_option (weight_of ?ns) (cached h)" using wf by (simp add: votes_wf_def)
  ultimately show "unat (m_minRequiredQuorum c) \<le> (\<Sum>j\<in>voters cached h. node_weight c j)"
    by (auto simp: votes_def word_le_nat_alt)
qed

end
