(* ===== verification/Pbft_Invariant.thy ===== *)
theory Pbft_Invariant
  imports Pbft_Votes
begin

text \<open>
  The invariant of a consensus node behind agreement, and its preservation by the operations of the
  cache and of the processor: votes and certificates are what they claim to be, a pre-committed hash
  stays the hash of its index, the node broadcasts commit votes for one hash per index, and what it
  decides has a quorum of commit votes.
\<close>

section \<open>The invariant\<close>

text \<open>The commit votes a node has broadcast, and the proposals it has handed to execution.\<close>

definition commits :: "'z pbft_config_scheme \<Rightarrow> pbft_message set" where
  "commits s = {m. Broadcast m \<in> set (sent s) \<and> packetType m = CommitPacket}"

definition decided :: "'z pbft_config_scheme \<Rightarrow> pbft_proposal set" where
  "decided s = {p. Pre_apply p \<in> set (sent s) \<or> (\<exists>l. Apply l p \<in> set (sent s))}"

text \<open>\<open>V j i h\<close>: the node \<open>j\<close> may have sent a commit vote for hash \<open>h\<close> at index \<open>i\<close>.\<close>

type_synonym seen_votes = "u64 \<Rightarrow> int \<Rightarrow> hash \<Rightarrow> bool"

definition known :: "seen_votes \<Rightarrow> 'z pbft_config_scheme \<Rightarrow> u64 \<Rightarrow> int \<Rightarrow> hash \<Rightarrow> bool" where
  "known V s j i h \<longleftrightarrow> V j i h \<or> (j = m_nodeIndex s \<and> (\<exists>m\<in>commits s. index m = i \<and> hash m = h))"

definition commit_known :: "seen_votes \<Rightarrow> 'z pbft_config_scheme \<Rightarrow> pbft_message \<Rightarrow> bool" where
  "commit_known V s m \<longleftrightarrow> known V s (generatedFrom m) (index m) (hash m)"

definition plain :: "pbft_message \<Rightarrow> bool" where
  "plain m \<longleftrightarrow> (\<exists>p. consensusProposal m = Some p \<and> p_hash p = hash m \<and> p_index p = index m \<and> \<not> p_systemProposal p)"

definition prepare_ok :: "pbft_env \<Rightarrow> consensus_node list \<Rightarrow> pbft_message \<Rightarrow> bool" where
  "prepare_ok env ns m \<longleftrightarrow> verify env (nodeID (ns ! unat (generatedFrom m))) (hash m) (proposal_signature m)"

definition same_hash :: "pbft_message option \<Rightarrow> pbft_message option \<Rightarrow> bool" where
  "same_hash a b = (case (a, b) of (Some m, Some m') \<Rightarrow> hash m' = hash m | _ \<Rightarrow> True)"

definition cache_inv :: "pbft_env \<Rightarrow> seen_votes \<Rightarrow> 'z pbft_config_scheme \<Rightarrow> int \<Rightarrow> pbft_cache \<Rightarrow> bool" where
  "cache_inv env V s i k \<longleftrightarrow>
     m_index k = i \<and>
     votes_wf (m_consensusNodeList s) i (prepare_ok env (m_consensusNodeList s)) (m_prepareCacheList k) (m_prepareReqWeight k) \<and>
     votes_wf (m_consensusNodeList s) i (commit_known V s) (m_commitCacheList k) (m_commitReqWeight k) \<and>
     (case m_prePrepare k of None \<Rightarrow> True | Some pp \<Rightarrow> index pp = i \<and> plain pp) \<and>
     (case m_precommit k of
        None \<Rightarrow> True | Some pc \<Rightarrow> index pc = i \<and> plain pc \<and> checkPrecommitWeight env s pc) \<and>
     (case m_precommitWithoutData k of None \<Rightarrow> True | Some w \<Rightarrow> checkPrecommitWeight env s w) \<and>
     same_hash (m_precommit k) (m_prePrepare k)"

definition certified :: "seen_votes \<Rightarrow> 'z pbft_config_scheme \<Rightarrow> pbft_proposal \<Rightarrow> bool" where
  "certified V s p \<longleftrightarrow> \<not> p_systemProposal p \<and>
     (\<exists>Q \<subseteq> {..<length (m_consensusNodeList s)}. unat (m_minRequiredQuorum s) \<le> (\<Sum>j\<in>Q. node_weight s j) \<and>
        (\<forall>j. unat j \<in> Q \<longrightarrow> known V s j (p_index p) (p_hash p)))"

definition own_key :: "pbft_env \<Rightarrow> 'z pbft_config_scheme \<Rightarrow> bool" where
  "own_key env s \<longleftrightarrow>
     (case getConsensusNodeByIndex s (m_nodeIndex s) of None \<Rightarrow> True | Some n \<Rightarrow> \<forall>h. verify env (nodeID n) h (sign env h))"

definition marks_ok :: "'z pbft_config_scheme \<Rightarrow> bool" where
  "marks_ok s \<longleftrightarrow> 0 \<le> committedIndex s \<and> m_progressedIndex s = committedIndex s + 1 \<and>
     committedIndex s < m_lowWaterMark s \<and> m_waitSealUntil s \<le> committedIndex s"

definition locked :: "'z processor \<Rightarrow> int \<Rightarrow> hash \<Rightarrow> bool" where
  "locked s i h \<longleftrightarrow> (\<exists>k pc. (i, k) \<in> set (m_caches s) \<and> m_precommit k = Some pc \<and> hash pc = h)"

definition votes_once :: "pbft_message set \<Rightarrow> bool" where
  "votes_once M \<longleftrightarrow> (\<forall>m\<in>M. \<forall>m'\<in>M. index m = index m' \<longrightarrow> hash m = hash m')"

definition votes_locked :: "'z processor \<Rightarrow> bool" where
  "votes_locked s \<longleftrightarrow> (\<forall>m\<in>commits s. index m \<le> committedIndex s \<or> locked s (index m) (hash m))"

text \<open>What does not change: the list of nodes and the index of this one. Commit votes are not taken back.\<close>

type_synonym identity = "consensus_node list \<times> u64 \<times> pbft_message set"

definition same_node :: "identity \<Rightarrow> 'z pbft_config_scheme \<Rightarrow> bool" where
  "same_node I s \<longleftrightarrow> m_consensusNodeList s = fst I \<and> m_nodeIndex s = fst (snd I) \<and> snd (snd I) \<subseteq> commits s"

text \<open>\<open>b\<close>: the caches at or below the committed index have been removed.\<close>

definition node_inv ::
  "identity \<Rightarrow> pbft_env \<Rightarrow> seen_votes \<Rightarrow> bool \<Rightarrow> 'z processor \<Rightarrow> bool" where
  "node_inv I env V b s \<longleftrightarrow>
     same_node I s \<and> quorum_ok s \<and> own_key env s \<and> marks_ok s \<and> sorted_wrt (<) (map fst (m_caches s)) \<and>
     (\<forall>i k. (i, k) \<in> set (m_caches s) \<longrightarrow> (b \<longrightarrow> committedIndex s < i) \<and> cache_inv env V s i k) \<and>
     votes_once (commits s) \<and> votes_locked s \<and> (\<forall>p\<in>decided s \<union> set (m_committedQueue s). certified V s p)"

section \<open>What the invariant depends on\<close>

definition core where
  "core s = (m_consensusNodeList s, m_nodeIndex s, m_minRequiredQuorum s, m_maxFaultyQuorum s, committedIndex s,
     m_progressedIndex s, m_lowWaterMark s, m_waitSealUntil s, m_caches s, m_committedQueue s, commits s, decided s)"

lemma precommit_weight_loop_cong:
  "m_consensusNodeList c = m_consensusNodeList c' \<Longrightarrow>
   precommit_weight_loop env c h l w = precommit_weight_loop env c' h l w"
  by (induction env c h l w rule: precommit_weight_loop.induct)
    (auto simp: getConsensusNodeByIndex_def split: option.splits)

lemma checkPrecommitWeight_cong:
  assumes "m_consensusNodeList c = m_consensusNodeList c'" "m_minRequiredQuorum c = m_minRequiredQuorum c'"
  shows "checkPrecommitWeight env c m = checkPrecommitWeight env c' m"
  using assms(2) by (simp add: checkPrecommitWeight_def precommit_weight_loop_cong [OF assms(1)] split: option.splits)

lemma core_inv:
  assumes "core s = core s'" shows "node_inv I env V b s = node_inv I env V b s'"
proof -
  note eq = assms [unfolded core_def prod.inject]
  have k: "known V s = known V s'" using eq by (simp add: known_def fun_eq_iff)
  then have ck: "commit_known V s = commit_known V s'" by (simp add: commit_known_def fun_eq_iff)
  have nw: "node_weight s = node_weight s'" using eq by (simp add: node_weight_def fun_eq_iff)
  then have tw: "total_weight s = total_weight s'" using eq by (simp add: total_weight_def)
  have cw: "checkPrecommitWeight env s = checkPrecommitWeight env s'"
    using eq by (intro ext checkPrecommitWeight_cong) auto
  have ci: "cache_inv env V s = cache_inv env V s'" using eq by (simp add: cache_inv_def ck cw fun_eq_iff cong: option.case_cong)
  have "certified V s = certified V s'" using eq by (simp add: certified_def k nw fun_eq_iff)
  moreover have "quorum_ok s = quorum_ok s'" using eq by (simp add: quorum_ok_def tw)
  moreover have "own_key env s = own_key env s'" using eq by (simp add: own_key_def getConsensusNodeByIndex_def)
  moreover have "same_node I s = same_node I s'" using eq by (simp add: same_node_def)
  moreover have "marks_ok s = marks_ok s'" using eq by (simp add: marks_ok_def)
  moreover have "votes_locked s = votes_locked s'" using eq by (simp add: votes_locked_def locked_def)
  ultimately show ?thesis using eq by (simp add: node_inv_def ci)
qed

lemma node_inv_core: "core s' = core s \<Longrightarrow> node_inv I env V b s \<Longrightarrow> node_inv I env V b s'"
  using core_inv [of s' s I env V b] by blast

section \<open>Operations that leave the core alone\<close>

fun silent :: "pbft_event \<Rightarrow> bool" where
  "silent (Broadcast m) = (packetType m \<noteq> CommitPacket)"
| "silent (Pre_apply p) = False"
| "silent (Apply l p) = False"
| "silent _ = True"

lemma core_emit [simp]: "silent e \<Longrightarrow> core (emit e s) = core s"
  by (cases e) (auto simp: core_def emit_def commits_def decided_def)

lemma core_updates [simp]:
  "core (s\<lparr>m_view := v\<rparr>) = core s" "core (s\<lparr>m_toView := v\<rparr>) = core s" "core (s\<lparr>m_timeoutState := t\<rparr>) = core s"
  "core (s\<lparr>timer_running := t\<rparr>) = core s" "core (s\<lparr>m_changeCycle := n\<rparr>) = core s"
  "core (s\<lparr>m_startRecovered := t\<rparr>) = core s" "core (s\<lparr>m_sealStartIndex := i\<rparr>) = core s"
  "core (s\<lparr>m_sealEndIndex := i\<rparr>) = core s" "core (s\<lparr>m_expectedCheckPoint := i\<rparr>) = core s"
  "core (s\<lparr>m_waitResealUntil := i\<rparr>) = core s" "core (s\<lparr>m_unsealedTxsSize := n\<rparr>) = core s"
  "core (s\<lparr>m_blockTxCountLimit := l\<rparr>) = core s" "core (s\<lparr>m_leaderSwitchPeriod := l\<rparr>) = core s"
  "core (s\<lparr>m_observerNodeList := ns\<rparr>) = core s" "core (s\<lparr>m_observerNodeListUpdated := t\<rparr>) = core s"
  "core (s\<lparr>m_consensusNodeListUpdated := t\<rparr>) = core s" "core (s\<lparr>m_syncingState := t\<rparr>) = core s"
  "core (s\<lparr>m_compatibilityVersion := cv\<rparr>) = core s"
  "core (s\<lparr>m_maxNotifyIndex := i\<rparr>) = core s" "core (s\<lparr>m_executingProposals := ex\<rparr>) = core s"
  "core (s\<lparr>m_committedProposalList := is\<rparr>) = core s" "core (s\<lparr>m_proposalsToStableConsensus := is\<rparr>) = core s"
  "core (s\<lparr>m_stableCheckPointQueue := q\<rparr>) = core s" "core (s\<lparr>m_viewChangeCache := vc\<rparr>) = core s"
  "core (s\<lparr>m_viewChangeWeight := vw\<rparr>) = core s" "core (s\<lparr>m_maxCommittedIndex := mi\<rparr>) = core s"
  "core (s\<lparr>m_maxPrecommitIndex := mi\<rparr>) = core s" "core (s\<lparr>m_newViewGenerated := t\<rparr>) = core s"
  "core (s\<lparr>m_recoverReqCache := rc\<rparr>) = core s" "core (s\<lparr>m_recoverCacheWeight := rw\<rparr>) = core s"
  by (simp_all add: core_def commits_def decided_def)

lemma core_timer [simp]:
  "core (timer_start s) = core s" "core (timer_restart s) = core s" "core (freshTimer s) = core s"
  "core (updateChangeCycle n s) = core s" "core (setUnSealedTxsSize n s) = core s"
  by (simp_all add: timer_start_def timer_restart_def freshTimer_def updateChangeCycle_def setUnSealedTxsSize_def Let_def)

lemma core_view [simp]:
  "core (resetToView s) = core s" "core (resetTimeoutState t s) = core s" "core (resetNewViewState v s) = core s"
  "core (setExpectedCheckPoint i s) = core s"
  by (simp_all add: resetToView_def resetTimeoutState_def resetNewViewState_def setExpectedCheckPoint_def Let_def)

lemma core_sealer [simp]:
  "core (notifySealer env i e s) = core s" "core (reNotifySealer env i s) = core s"
  "core (notifyResetSealing cons s) = core s" "core (on_sealing_reset env cons i s) = core s"
  "core (tryTriggerFastViewChange env l s) = core s"
  by (simp_all add: notifySealer_def reNotifySealer_def notifyResetSealing_def on_sealing_reset_def
      tryTriggerFastViewChange_def asyncNotifySealProposal_def Let_def split: option.split)

lemma core_processor [simp]:
  "core (notifyMaxProposalIndex i s) = core s" "core (notifyCommittedProposalIndex i s) = core s"
  "core (notifyToSealNextBlock env s) = core s" "core (resetTimer env s) = core s"
  "core (eraseExecutedProposal h s) = core s" "core (clearExpiredExecutingProposal s) = core s"
  "core (snd (shouldRequestCheckPoint m s)) = core s" "core (removeInvalidRecoverCache v s) = core s"
  by (simp_all add: notifyMaxProposalIndex_def notifyCommittedProposalIndex_def notifyToSealNextBlock_def resetTimer_def
      eraseExecutedProposal_def clearExpiredExecutingProposal_def shouldRequestCheckPoint_def removeInvalidRecoverCache_def
      Let_def split: option.split)

lemma core_tryToCommitStableCheckPoint [simp]: "core (tryToCommitStableCheckPoint s) = core s"
  by (simp add: tryToCommitStableCheckPoint_def Let_def split: list.split)

lemma core_fold: "(\<And>x s. x \<in> set l \<Longrightarrow> core (f x s) = core s) \<Longrightarrow> core (fold f l s) = core s"
  by (induction l arbitrary: s) simp_all

lemma core_count_view_change [simp]: "core (count_view_change v vc w s) = core s"
  by (simp add: count_view_change_def)

lemma core_count_view_changes [simp]:
  "core (fold (\<lambda>(from, vc) s. case getConsensusNodeByIndex s (generatedFrom vc) of
     None \<Rightarrow> s | Some n \<Rightarrow> count_view_change v vc (weight n) s) l s) = core s"
  by (rule core_fold) (auto split: option.split)

lemma core_reCalculateViewChangeWeight [simp]: "core (reCalculateViewChangeWeight s) = core s"
  unfolding reCalculateViewChangeWeight_def by (subst core_fold) auto

lemma core_view_changes [simp]:
  "core (addViewChangeReq vc s) = core s"
  "core (removeInvalidViewChange v i s) = core s" "core (addRecoverReqCache m s) = core s"
  by (auto simp: addViewChangeReq_def removeInvalidViewChange_def addRecoverReqCache_def Let_def split: option.split)

lemma core_checkAndTryIntoNewView: "checkAndTryIntoNewView env s = (r, s') \<Longrightarrow> core s' = core s"
  by (auto simp: checkAndTryIntoNewView_def Let_def split: if_splits option.splits)

lemma core_tryToTriggerFastViewChange: "tryToTriggerFastViewChange s = (v, s') \<Longrightarrow> core s' = core s"
  by (auto simp: tryToTriggerFastViewChange_def Let_def split: if_splits prod.splits)

lemma core_handlePrePrepareMsg: "core (snd (handlePrePrepareMsg env m True g n s)) = core s"
  by (simp add: handlePrePrepareMsg_def split: option.split)

lemma core_rehandle_loop: "rehandle_loop env ms i s = (i', s') \<Longrightarrow> core s' = core s"
  by (induction env ms i s rule: rehandle_loop.induct)
    (auto simp: Let_def core_handlePrePrepareMsg split: if_splits option.splits)

section \<open>Changing the caches, the queue and the events\<close>

lemma known_mono:
  "(\<And>j i h. V j i h \<Longrightarrow> V' j i h) \<Longrightarrow> m_nodeIndex s = m_nodeIndex s' \<Longrightarrow> commits s \<subseteq> commits s' \<Longrightarrow>
   known V s j i h \<Longrightarrow> known V' s' j i h"
  by (auto simp: known_def)

lemma cache_inv_mono:
  assumes "\<And>j i h. V j i h \<Longrightarrow> V' j i h" "m_nodeIndex s = m_nodeIndex s'" "commits s \<subseteq> commits s'"
    "m_consensusNodeList s = m_consensusNodeList s'" "m_minRequiredQuorum s = m_minRequiredQuorum s'"
    "cache_inv env V s i k"
  shows "cache_inv env V' s' i k"
proof -
  have "checkPrecommitWeight env s = checkPrecommitWeight env s'"
    using assms by (intro ext checkPrecommitWeight_cong) auto
  moreover have "votes_wf ns i (commit_known V s) cl cw \<Longrightarrow> votes_wf ns i (commit_known V' s') cl cw" for ns cl cw
    using known_mono [OF assms(1-3)] by (erule_tac votes_wf_mono) (simp add: commit_known_def)
  ultimately show ?thesis using assms(4,6) unfolding cache_inv_def by (simp cong: option.case_cong)
qed

lemma certified_mono:
  assumes "\<And>j i h. V j i h \<Longrightarrow> V' j i h" "m_nodeIndex s = m_nodeIndex s'" "commits s \<subseteq> commits s'"
    "m_consensusNodeList s = m_consensusNodeList s'" "m_minRequiredQuorum s = m_minRequiredQuorum s'"
    "certified V s p"
  shows "certified V' s' p"
proof -
  have "node_weight s = node_weight s'" using assms(4) by (simp add: node_weight_def fun_eq_iff)
  moreover have "known V s j i h \<Longrightarrow> known V' s' j i h" for j i h by (rule known_mono [OF assms(1-3)])
  moreover obtain Q where "\<not> p_systemProposal p" "Q \<subseteq> {..<length (m_consensusNodeList s)}"
    "unat (m_minRequiredQuorum s) \<le> (\<Sum>j\<in>Q. node_weight s j)" "\<And>j. unat j \<in> Q \<Longrightarrow> known V s j (p_index p) (p_hash p)"
    using assms(6) by (auto simp: certified_def)
  ultimately show ?thesis unfolding certified_def using assms(4,5) by (intro conjI exI [of _ Q]) auto
qed

lemma node_inv_mono:
  assumes "\<And>j i h. V j i h \<Longrightarrow> V' j i h" "node_inv I env V b s" shows "node_inv I env V' b s"
  using assms(2) cache_inv_mono [where V = V and V' = V' and s = s and s' = s, OF assms(1)]
    certified_mono [where V = V and V' = V' and s = s and s' = s, OF assms(1)] by (auto simp: node_inv_def)

lemma m_caches_update_simps [simp]:
  "commits (s\<lparr>m_caches := ks\<rparr>) = commits s" "decided (s\<lparr>m_caches := ks\<rparr>) = decided s"
  "cache_inv env V (s\<lparr>m_caches := ks\<rparr>) = cache_inv env V s" "certified V (s\<lparr>m_caches := ks\<rparr>) = certified V s"
  "quorum_ok (s\<lparr>m_caches := ks\<rparr>) = quorum_ok s" "own_key env (s\<lparr>m_caches := ks\<rparr>) = own_key env s"
  "marks_ok (s\<lparr>m_caches := ks\<rparr>) = marks_ok s" "same_node I (s\<lparr>m_caches := ks\<rparr>) = same_node I s"
proof -
  show c: "commits (s\<lparr>m_caches := ks\<rparr>) = commits s" "decided (s\<lparr>m_caches := ks\<rparr>) = decided s"
    by (simp_all add: commits_def decided_def)
  show "cache_inv env V (s\<lparr>m_caches := ks\<rparr>) = cache_inv env V s"
    using cache_inv_mono [of V V s "s\<lparr>m_caches := ks\<rparr>"] cache_inv_mono [of V V "s\<lparr>m_caches := ks\<rparr>" s] c
    by (intro ext) (auto simp del: c)
  show "certified V (s\<lparr>m_caches := ks\<rparr>) = certified V s"
    using certified_mono [of V V s "s\<lparr>m_caches := ks\<rparr>"] certified_mono [of V V "s\<lparr>m_caches := ks\<rparr>" s] c
    by (intro ext) auto
qed (simp_all add: quorum_ok_def total_weight_def node_weight_def own_key_def getConsensusNodeByIndex_def marks_ok_def
    same_node_def commits_def)

lemma sorted_map_of: "sorted_wrt (<) (map fst m) \<Longrightarrow> map_of m (k :: 'k::linorder) = Some v \<longleftrightarrow> (k, v) \<in> set m"
  by (simp add: strict_sorted_iff)

lemma set_map_insert:
  "sorted_wrt (<) (map fst m) \<Longrightarrow> (j, x) \<in> set (map_insert i k m) \<longleftrightarrow> (if j = i then x = k else (j, x) \<in> set m)"
  by (auto simp: sorted_map_of [symmetric] map_insert_sorted map_of_map_insert)

lemma node_inv_caches:
  assumes inv: "node_inv I env V b s" and sorted: "sorted_wrt (<) (map fst ks)"
    and caches: "\<And>i k. (i, k) \<in> set ks \<Longrightarrow> (b \<longrightarrow> committedIndex s < i) \<and> cache_inv env V s i k"
    and locked: "\<And>i h. locked s i h \<Longrightarrow> i \<le> committedIndex s \<or> locked (s\<lparr>m_caches := ks\<rparr>) i h"
  shows "node_inv I env V b (s\<lparr>m_caches := ks\<rparr>)"
proof -
  have "votes_locked (s\<lparr>m_caches := ks\<rparr>)" using inv locked by (fastforce simp: node_inv_def votes_locked_def)
  then show ?thesis using inv sorted caches by (simp add: node_inv_def)
qed

lemma node_inv_set_cache:
  assumes inv: "node_inv I env V b s" and k: "cache_inv env V s i k" and i: "b \<Longrightarrow> committedIndex s < i"
    and pc: "\<And>k0 pc. cache_at s i = Some k0 \<Longrightarrow> m_precommit k0 = Some pc \<Longrightarrow>
      \<exists>pc'. m_precommit k = Some pc' \<and> hash pc' = hash pc"
  shows "node_inv I env V b (set_cache i k s)"
proof -
  have sorted: "sorted_wrt (<) (map fst (m_caches s))" using inv by (simp add: node_inv_def)
  show ?thesis unfolding set_cache_def
  proof (rule node_inv_caches [OF inv map_insert_sorted [OF sorted]])
    fix j x assume "(j, x) \<in> set (map_insert i k (m_caches s))"
    then show "(b \<longrightarrow> committedIndex s < j) \<and> cache_inv env V s j x"
      using inv i k by (auto simp: set_map_insert [OF sorted] node_inv_def split: if_splits)
  next
    fix j h assume "locked s j h"
    then have "locked (s\<lparr>m_caches := map_insert i k (m_caches s)\<rparr>) j h"
      using pc by (cases "j = i") (auto simp: locked_def set_map_insert [OF sorted] cache_at_def sorted_map_of [OF sorted])
    then show "j \<le> committedIndex s \<or> locked (s\<lparr>m_caches := map_insert i k (m_caches s)\<rparr>) j h" ..
  qed
qed

lemma node_inv_queue:
  assumes "node_inv I env V b s" "\<And>p. p \<in> set q \<Longrightarrow> certified V s p"
  shows "node_inv I env V b (s\<lparr>m_committedQueue := q\<rparr>)"
proof -
  let ?s = "s\<lparr>m_committedQueue := q\<rparr>"
  have c: "commits ?s = commits s" "decided ?s = decided s" by (simp_all add: commits_def decided_def)
  have "cache_inv env V s i k \<Longrightarrow> cache_inv env V ?s i k" for i k by (rule cache_inv_mono [of V V s]) (simp_all add: c)
  moreover have "certified V s p \<Longrightarrow> certified V ?s p" for p by (rule certified_mono [of V V s]) (simp_all add: c)
  ultimately show ?thesis using assms
    by (auto simp: node_inv_def c quorum_ok_def total_weight_def node_weight_def own_key_def getConsensusNodeByIndex_def
        marks_ok_def votes_locked_def locked_def same_node_def)
qed

lemma emit_simps [simp]:
  "m_consensusNodeList (emit e s) = m_consensusNodeList s" "m_nodeIndex (emit e s) = m_nodeIndex s"
  "m_minRequiredQuorum (emit e s) = m_minRequiredQuorum s" "m_maxFaultyQuorum (emit e s) = m_maxFaultyQuorum s"
  "m_committedProposal (emit e s) = m_committedProposal s" "m_lowWaterMark (emit e s) = m_lowWaterMark s"
  "m_progressedIndex (emit e s) = m_progressedIndex s" "m_waitSealUntil (emit e s) = m_waitSealUntil s"
  "m_view (emit e s) = m_view s" "m_timeoutState (emit e s) = m_timeoutState s"
  by (simp_all add: emit_def)

lemma emit_caches [simp]: "m_caches (emit e s) = m_caches s" "m_committedQueue (emit e s) = m_committedQueue s"
  by (simp_all add: emit_def)

lemma emit_config [simp]:
  "quorum_ok (emit e s) = quorum_ok s" "own_key env (emit e s) = own_key env s" "marks_ok (emit e s) = marks_ok s"
  "locked (emit e t) = locked t"
  by (simp_all add: quorum_ok_def total_weight_def node_weight_def own_key_def getConsensusNodeByIndex_def marks_ok_def
      locked_def fun_eq_iff)

lemma node_inv_decide:
  assumes "node_inv I env V b s" "certified V s p" "e = Pre_apply p \<or> (\<exists>l. e = Apply l p)"
  shows "node_inv I env V b (emit e s)"
proof -
  have c: "commits (emit e s) = commits s" "decided (emit e s) = insert p (decided s)"
    using assms(3) by (auto simp: commits_def decided_def emit_def)
  have "cache_inv env V s i k \<Longrightarrow> cache_inv env V (emit e s) i k" for i k
    by (rule cache_inv_mono [of V V s]) (simp_all add: c)
  moreover have "certified V s q \<Longrightarrow> certified V (emit e s) q" for q by (rule certified_mono [of V V s]) (simp_all add: c)
  moreover have "votes_locked (emit e s)" using assms(1) by (simp add: node_inv_def votes_locked_def c)
  ultimately show ?thesis using assms(1,2) by (auto simp: node_inv_def c same_node_def)
qed

end
