(* ===== verification/Pbft_Preserve.thy ===== *)
theory Pbft_Preserve
  imports Pbft_Invariant
begin

text \<open>The operations of the cache and of the processor preserve the invariant of a node.\<close>

section \<open>Caches\<close>

lemma cache_inv_createPBFTCache [simp]: "cache_inv env V s i (createPBFTCache i)"
  by (simp add: cache_inv_def createPBFTCache_def same_hash_def)

definition cache_core where
  "cache_core k = (m_index k, m_prepareCacheList k, m_prepareReqWeight k, m_commitCacheList k, m_commitReqWeight k,
     m_prePrepare k, m_precommit k, m_precommitWithoutData k)"

lemma cache_core_inv:
  "cache_core k' = cache_core k \<Longrightarrow> cache_inv env V s i k' = cache_inv env V s i k \<and> m_precommit k' = m_precommit k"
  by (simp add: cache_core_def cache_inv_def)

lemma cache_core_updates [simp]:
  "cache_core (k\<lparr>m_submitted := b\<rparr>) = cache_core k" "cache_core (k\<lparr>m_precommitted := b\<rparr>) = cache_core k"
  "cache_core (k\<lparr>m_stableCommitted := b\<rparr>) = cache_core k" "cache_core (k\<lparr>m_checkpointProposal := p\<rparr>) = cache_core k"
  "cache_core (k\<lparr>m_checkpointCacheWeight := w\<rparr>) = cache_core k" "cache_core (k\<lparr>m_checkpointCacheList := l\<rparr>) = cache_core k"
  by (simp_all add: cache_core_def)

lemma cache_inv_addPrepareCache:
  assumes "cache_inv env V s i k"
    "getConsensusNodeByIndex s (generatedFrom m) \<noteq> None \<Longrightarrow> prepare_ok env (m_consensusNodeList s) m"
  shows "cache_inv env V s i (addPrepareCache s m k)"
proof -
  obtain cl w where a: "addCache s (m_index k) m (m_prepareCacheList k, m_prepareReqWeight k) = (cl, w)" by fastforce
  then have "votes_wf (m_consensusNodeList s) i (prepare_ok env (m_consensusNodeList s)) cl w"
    using assms addCache_wf [of s i "prepare_ok env (m_consensusNodeList s)" "m_prepareCacheList k" "m_prepareReqWeight k" m cl w]
    by (simp add: cache_inv_def)
  then show ?thesis using assms a by (simp add: addPrepareCache_def cache_inv_def)
qed

lemma cache_inv_addCommitCache:
  assumes "cache_inv env V s i k" "commit_known V s m" "m_consensusNodeList c = m_consensusNodeList s"
  shows "cache_inv env V s i (addCommitCache c m k)"
proof -
  obtain cl w where a: "addCache c (m_index k) m (m_commitCacheList k, m_commitReqWeight k) = (cl, w)" by fastforce
  then have "votes_wf (m_consensusNodeList s) i (commit_known V s) cl w"
    using assms addCache_wf [of c i "commit_known V s" "m_commitCacheList k" "m_commitReqWeight k" m cl w]
    by (simp add: cache_inv_def)
  then show ?thesis using assms a by (simp add: addCommitCache_def cache_inv_def)
qed

lemma cache_inv_checkpoint [simp]:
  "cache_inv env V s i (addCheckPointMsg c m k) = cache_inv env V s i k"
  "cache_inv env V s i (setCheckPointProposal c p k) = cache_inv env V s i k"
  "cache_inv env V s i (resetState k) = cache_inv env V s i k"
  by (rule cache_core_inv [THEN conjunct1];
      simp add: addCheckPointMsg_def setCheckPointProposal_def resetState_def split: prod.split)+

lemma precommit_checkpoint [simp]:
  "m_precommit (addCheckPointMsg c m k) = m_precommit k" "m_precommit (setCheckPointProposal c p k) = m_precommit k"
  "m_precommit (resetState k) = m_precommit k" "m_precommit (addPrepareCache c m k) = m_precommit k"
  "m_precommit (addCommitCache c m k) = m_precommit k" "m_precommit (addPrePrepareCache m k) = m_precommit k"
  by (simp_all add: addCheckPointMsg_def setCheckPointProposal_def resetState_def addPrepareCache_def addCommitCache_def
      addPrePrepareCache_def split: prod.split)

lemma cache_inv_addPrePrepareCache:
  assumes "cache_inv env V s i k" "index m = i" "plain m" "same_hash (m_precommit k) (Some m)"
  shows "cache_inv env V s i (addPrePrepareCache m k)"
  using assms by (simp add: addPrePrepareCache_def cache_inv_def)

lemma cache_core_checkAndCommitStableCheckPoint:
  "checkAndCommitStableCheckPoint c k = (r, k') \<Longrightarrow> cache_core k' = cache_core k"
  by (auto simp: checkAndCommitStableCheckPoint_def Let_def split: if_splits option.splits)

lemma cache_core_checkAndCommit: "checkAndCommit c k = (r, k') \<Longrightarrow> cache_core k' = cache_core k"
  by (auto simp: checkAndCommit_def split: if_splits option.splits)

lemma cache_inv_resetCache:
  assumes k: "cache_inv env V s i k" and r: "resetCache v (s, k) = (s', k')"
  shows "cache_inv env V s i k'" "m_precommit k' = m_precommit k" "core s' = core s"
proof -
  define s1k1 where "s1k1 = (case (m_precommit k, m_prePrepare k) of
      (None, Some pp) \<Rightarrow>
        (case consensusProposal pp of
           None \<Rightarrow> (s, k\<lparr>m_submitted := False, m_precommitted := False\<rparr>)
         | Some p \<Rightarrow>
             if view pp < v
             then (emit (Reset_txs (p_data p) False False) (notifyResetSealing (Some (p_index p)) s),
                   k\<lparr>m_submitted := False, m_precommitted := False, m_prePrepare := None\<rparr>)
             else (s, k\<lparr>m_submitted := False, m_precommitted := False\<rparr>))
    | _ \<Rightarrow> (s, k\<lparr>m_submitted := False, m_precommitted := False\<rparr>))"
  obtain s1 k1 where sk: "s1k1 = (s1, k1)" by (cases s1k1)
  have "core s1 = core s" "m_precommit k1 = m_precommit k" "cache_inv env V s i k1"
    using sk k by (auto simp: s1k1_def cache_inv_def same_hash_def split: option.splits if_splits)
  moreover from this have "m_consensusNodeList s1 = m_consensusNodeList s" by (simp add: core_def)
  moreover have "s' = s1" "k' = k1\<lparr>m_prepareCacheList := resetCacheAfterViewChange v (m_prepareCacheList k1),
      m_commitCacheList := resetCacheAfterViewChange v (m_commitCacheList k1),
      m_prepareReqWeight := recalculateQuorum s1 (resetCacheAfterViewChange v (m_prepareCacheList k1)),
      m_commitReqWeight := recalculateQuorum s1 (resetCacheAfterViewChange v (m_commitCacheList k1))\<rparr>"
    using r sk by (auto simp: resetCache_def s1k1_def [symmetric] Let_def s1k1_def split: option.splits if_splits)
  ultimately show "cache_inv env V s i k'" "m_precommit k' = m_precommit k" "core s' = core s"
    using resetCacheAfterViewChange_wf [of s1 i "prepare_ok env (m_consensusNodeList s)" "m_prepareCacheList k1" "m_prepareReqWeight k1" v]
      resetCacheAfterViewChange_wf [of s1 i "commit_known V s" "m_commitCacheList k1" "m_commitReqWeight k1" v]
    by (simp_all add: cache_inv_def)
qed

section \<open>Certificates\<close>

lemma fold_appendSignatureProof:
  "fold (\<lambda>(from, m). appendSignatureProof from (f m)) l p =
   p\<lparr>p_signatureProof := p_signatureProof p @ map (\<lambda>(from, m). (from, f m)) l\<rparr>"
  by (induction l arbitrary: p) (auto simp: appendSignatureProof_def)

lemma setSignatureList_proofs:
  "setSignatureList cached p =
   p\<lparr>p_signatureProof := map (\<lambda>(from, m). (from, proposal_signature m)) (votes cached (p_hash p))\<rparr>"
  by (simp add: setSignatureList_def fold_appendSignatureProof clearSignatureProof_def)

lemma precommit_weight_loop_votes:
  assumes "list_all (vote_ok (m_consensusNodeList c) i (prepare_ok env (m_consensusNodeList c)) h) l"
  shows "precommit_weight_loop env c h (map (\<lambda>(from, m). (from, proposal_signature m)) l) w =
    Some (w + weight_of (m_consensusNodeList c) l)"
  using assms
  by (induction l arbitrary: w)
    (auto simp: vote_ok_def prepare_ok_def getConsensusNodeByIndex_def weight_of_def add.assoc)

text \<open>The proofs collected from the prepare votes pass the check of a pre-commit certificate.\<close>

lemma prepared_certificate:
  assumes "votes_wf (m_consensusNodeList c) i (prepare_ok env (m_consensusNodeList c)) cached weights"
    and "collectEnoughQuorum c (p_hash p) weights" "consensusProposal m = Some (setSignatureList cached p)"
  shows "checkPrecommitWeight env c m"
proof -
  let ?l = "votes cached (p_hash p)"
  have "list_all (vote_ok (m_consensusNodeList c) i (prepare_ok env (m_consensusNodeList c)) (p_hash p)) ?l"
    "weights (p_hash p) = map_option (weight_of (m_consensusNodeList c)) (cached (p_hash p))"
    using assms(1) by (auto simp: votes_wf_def)
  then show ?thesis using assms(2,3) precommit_weight_loop_votes [of c i env "p_hash p" ?l 0]
    by (auto simp: checkPrecommitWeight_def setSignatureList_proofs collectEnoughQuorum_def votes_def split: option.splits)
qed

lemma checkAndCommit_certified:
  assumes c: "checkAndCommit s k = (True, k')" and ok: "quorum_ok s" and k: "cache_inv env V s i k"
  shows "\<exists>p. precommit_proposal k' = Some p \<and> certified V s p"
proof -
  obtain pc pp where pc: "m_precommit k = Some pc" and pp: "m_prePrepare k = Some pp"
    and q: "collectEnoughQuorum s (hash pp) (m_commitReqWeight k)"
    using c by (auto simp: checkAndCommit_def collectEnoughCommitReq_def split: if_splits option.splits)
  have h: "hash pp = hash pc" "index pc = i" "plain pc" using k pc pp by (auto simp: cache_inv_def same_hash_def)
  then obtain p where p: "consensusProposal pc = Some p" "p_hash p = hash pp" "p_index p = i" "\<not> p_systemProposal p"
    by (auto simp: plain_def)
  have wf: "votes_wf (m_consensusNodeList s) i (commit_known V s) (m_commitCacheList k) (m_commitReqWeight k)"
    using k by (simp add: cache_inv_def)
  let ?Q = "voters (m_commitCacheList k) (hash pp)"
  have "known V s j (p_index p) (p_hash p)" if j: "unat j \<in> ?Q" for j
  proof -
    obtain m where "(j, m) \<in> set (votes (m_commitCacheList k) (hash pp))"
      using j by (auto simp: voters_def word_unat_eq_iff [symmetric])
    then have "vote_ok (m_consensusNodeList s) i (commit_known V s) (hash pp) (j, m)"
      using wf by (auto simp: votes_wf_def list_all_iff)
    then show ?thesis using p by (auto simp: vote_ok_def commit_known_def)
  qed
  then have "certified V s p" unfolding certified_def using quorum_voters [OF ok wf q] p(4) by blast
  then show ?thesis using pc p cache_core_checkAndCommit [OF c] by (simp add: precommit_proposal_def cache_core_def)
qed

section \<open>The commit queue\<close>

lemma certified_core:
  assumes "core s' = core s" shows "certified V s' = certified V s"
  using certified_mono [of V V s s'] certified_mono [of V V s' s] assms by (auto simp: core_def fun_eq_iff)

lemma node_inv_tryToApplyCommitQueue:
  assumes inv: "node_inv I env V b s" and t: "tryToApplyCommitQueue env' s = (r, s')" shows "node_inv I env V b s'"
proof -
  define s1 where "s1 = notifyToSealNextBlock env' s"
  define s2 where "s2 = s1\<lparr>m_committedQueue := drop_below (m_expectedCheckPoint s1) (m_committedQueue s1)\<rparr>"
  have s1: "node_inv I env V b s1" using inv by (rule node_inv_core [rotated]) (simp add: s1_def)
  have s2: "node_inv I env V b s2" unfolding s2_def
    by (rule node_inv_queue [OF s1]) (use s1 in \<open>auto simp: node_inv_def drop_below_def dest: set_dropWhileD\<close>)
  have step: "node_inv I env V b (applyStateMachine l p (s2\<lparr>m_committedQueue := q, m_executingProposals := x\<rparr>))"
    if "m_committedQueue s2 = p # q" for l p q x
  proof -
    have c: "certified V s2 p'" if "p' \<in> set (p # q)" for p' using s2 \<open>m_committedQueue s2 = p # q\<close> that by (auto simp: node_inv_def)
    let ?t = "s2\<lparr>m_committedQueue := q\<rparr>"
    have "node_inv I env V b ?t" by (rule node_inv_queue [OF s2]) (simp add: c)
    then have "node_inv I env V b (?t\<lparr>m_executingProposals := x\<rparr>)" by (rule node_inv_core [rotated]) simp
    moreover have "certified V (?t\<lparr>m_executingProposals := x\<rparr>) p"
      by (rule certified_mono [of V V s2]) (simp_all add: c commits_def)
    ultimately show ?thesis unfolding applyStateMachine_def by (rule node_inv_decide) simp
  qed
  have "node_inv I env V b (timer_restart s2)" using s2 by (rule node_inv_core [rotated]) simp
  then show ?thesis using t [unfolded tryToApplyCommitQueue_def Let_def, folded s1_def, folded s2_def] s2 step
    by (auto split: list.splits if_splits option.splits)
qed

lemma set_queue_push [simp]: "set (queue_push p q) = insert p (set q)"
  by (induction p q rule: queue_push.induct) auto

lemma node_inv_updateCommitQueue:
  assumes inv: "node_inv I env V b s" and p: "certified V s p" shows "node_inv I env V b (updateCommitQueue env' p s)"
proof (cases "map_of (m_executingProposals s) (p_hash p) = None")
  case True
  define s1 where "s1 = notifyMaxProposalIndex (p_index p) s"
  define s2 where "s2 = s1\<lparr>m_committedQueue := queue_push p (m_committedQueue s1),
    m_committedProposalList := set_insert (p_index p) (m_committedProposalList s1),
    m_proposalsToStableConsensus := set_insert (p_index p) (m_proposalsToStableConsensus s1)\<rparr>"
  have c1: "core s1 = core s" by (simp add: s1_def)
  have p1: "certified V s1 p" using p certified_core [OF c1, of V] by simp
  have s1: "node_inv I env V b s1" using inv c1 by (rule node_inv_core [rotated])
  have "node_inv I env V b (s1\<lparr>m_committedQueue := queue_push p (m_committedQueue s1)\<rparr>)"
    by (rule node_inv_queue [OF s1]) (use s1 p1 in \<open>auto simp: node_inv_def\<close>)
  then have s2: "node_inv I env V b s2" by (rule node_inv_core [rotated]) (simp add: s2_def)
  have p2: "certified V s2 p" by (rule certified_mono [OF _ _ _ _ _ p1]) (simp_all add: s2_def commits_def)
  define s3 where "s3 = notifyToSealNextBlock env' s2"
  have c3: "core s3 = core s2" by (simp add: s3_def)
  have "node_inv I env V b s3" "certified V s3 p" using s2 p2 node_inv_core [OF c3] certified_core [OF c3, of V] by auto
  then have s4: "node_inv I env V b (emit (Pre_apply p) s3)" by (rule node_inv_decide) simp
  have "\<not> p_systemProposal p" using p by (simp add: certified_def)
  then have "updateCommitQueue env' p s = snd (tryToApplyCommitQueue env' (emit (Pre_apply p) s3))"
    using True by (simp add: updateCommitQueue_def Let_def s1_def [symmetric] s2_def [symmetric] s3_def)
  then show ?thesis using node_inv_tryToApplyCommitQueue [OF s4] by (metis prod.collapse)
qed (simp add: updateCommitQueue_def inv)

end
