(* ===== verification/Pbft_Safety.thy ===== *)
theory Pbft_Safety
  imports Pbft_Preserve
begin

text \<open>The loops of the processor and the handlers of the engine preserve the invariant of a node.\<close>

section \<open>Voting\<close>

lemma node_inv_cache_at: "node_inv I env V b s \<Longrightarrow> cache_at s i = Some k \<Longrightarrow> (b \<longrightarrow> committedIndex s < i) \<and> cache_inv env V s i k"
  by (auto simp: node_inv_def cache_at_def dest: map_of_SomeD)

lemma locked_iff:
  "node_inv I env V b s \<Longrightarrow> locked s i h \<longleftrightarrow> (\<exists>k pc. cache_at s i = Some k \<and> m_precommit k = Some pc \<and> hash pc = h)"
  by (auto simp: node_inv_def locked_def cache_at_def sorted_map_of)

lemma node_inv_vote:
  assumes inv: "node_inv I env V b s" and l: "locked s (index m) (hash m)" and i: "committedIndex s < index m"
    and m: "packetType m = CommitPacket"
  shows "node_inv I env V b (emit (Broadcast m) s)"
proof -
  let ?s = "emit (Broadcast m) s"
  have c: "commits ?s = insert m (commits s)" "decided ?s = decided s"
    using m by (auto simp: commits_def decided_def emit_def)
  have "cache_inv env V s i k \<Longrightarrow> cache_inv env V ?s i k" for i k by (rule cache_inv_mono [of V V s]) (auto simp: c)
  moreover have "certified V s q \<Longrightarrow> certified V ?s q" for q by (rule certified_mono [of V V s]) (auto simp: c)
  moreover have "votes_locked ?s" using inv l by (auto simp: node_inv_def votes_locked_def c)
  moreover have "votes_once (commits ?s)"
  proof -
    have "hash m' = hash m" if "m' \<in> commits s" "index m' = index m" for m'
    proof -
      have "locked s (index m') (hash m')" using inv that i by (auto simp: node_inv_def votes_locked_def)
      then show ?thesis using l that(2) by (auto simp: locked_iff [OF inv])
    qed
    then show ?thesis using inv unfolding c votes_once_def node_inv_def by (metis insert_iff)
  qed
  ultimately show ?thesis using inv by (auto simp: node_inv_def c same_node_def)
qed

lemma map_insert_twice [simp]: "map_insert k v (map_insert k v' m) = map_insert k v m"
  by (induction k v' m rule: map_insert.induct) auto

lemma set_cache_emit [simp]: "set_cache i k (emit e (set_cache i k' s)) = set_cache i k (emit e s)"
  by (simp add: set_cache_def emit_def)

lemma cache_at_set_cache [simp]:
  "node_inv I env V b s \<Longrightarrow> cache_at (set_cache i k s) i = Some k"
  by (simp add: set_cache_def cache_at_def map_of_map_insert node_inv_def)

section \<open>Pre-commit\<close>

lemma intoPrecommit_inv:
  assumes k: "cache_inv env V s i k" and ready: "precommit_ready s k"
  obtains pp pc w p where "m_prePrepare k = Some pp" "cache_inv env V s i (intoPrecommit s k)"
    "m_precommit (intoPrecommit s k) = Some pc" "hash pc = hash pp" "same_hash (m_precommit k) (Some pp)"
    "m_precommitWithoutData (intoPrecommit s k) = Some w" "consensusProposal w = Some p" "p_hash p = hash pp" "p_index p = i"
proof -
  obtain pp where pp: "m_prePrepare k = Some pp" and q: "collectEnoughQuorum s (hash pp) (m_prepareReqWeight k)"
    using ready by (auto simp: precommit_ready_def collectEnoughPrepareReq_def split: if_splits option.splits)
  have inv: "index pp = i" "plain pp" "same_hash (m_precommit k) (Some pp)"
    "votes_wf (m_consensusNodeList s) i (prepare_ok env (m_consensusNodeList s)) (m_prepareCacheList k) (m_prepareReqWeight k)"
    using k pp by (auto simp: cache_inv_def)
  then obtain p where p: "consensusProposal pp = Some p" "p_hash p = hash pp" "p_index p = i" "\<not> p_systemProposal p"
    by (auto simp: plain_def)
  let ?p = "setSignatureList (m_prepareCacheList k) p"
  let ?pc = "pp\<lparr>generatedFrom := m_nodeIndex s, consensusProposal := Some ?p\<rparr>"
  have sp: "p_hash ?p = hash pp" "p_index ?p = i" "\<not> p_systemProposal ?p" using p by (simp_all add: setSignatureList_proofs)
  let ?w = "(populateWithoutProposal ?pc)\<lparr>consensusProposal := Some (populateFrom_copy ?p False)\<rparr>"
  have "checkPrecommitWeight env s ?pc"
    by (rule prepared_certificate [OF inv(4), of p]) (use p q in auto)
  moreover from this have "checkPrecommitWeight env s ?w"
    by (simp add: checkPrecommitWeight_def populateFrom_copy_def createPBFTProposal_def)
  moreover have "plain ?pc" using sp inv(1) by (simp add: plain_def)
  ultimately have "cache_inv env V s i (intoPrecommit s k)"
    using k pp p inv by (simp add: intoPrecommit_def Let_def cache_inv_def same_hash_def)
  then show ?thesis using that [of pp ?pc ?w] pp p sp inv
    by (simp add: intoPrecommit_def Let_def populateFrom_copy_def createPBFTProposal_def)
qed

lemma node_inv_commit_reached:
  assumes "node_inv I env V b s" "precommit_proposal k = Some p" "certified V s p"
  shows "node_inv I env V b (commit_reached env' k s)"
proof -
  have "node_inv I env V b (updateCommitQueue env' p s)" by (rule node_inv_updateCommitQueue [OF assms(1,3)])
  then show ?thesis by (rule node_inv_core [rotated]) (simp add: commit_reached_def assms(2))
qed

lemma node_inv_own_commit:
  assumes inv: "node_inv I env V True s" and k: "cache_at s i = Some k" and k1: "cache_inv env V s i k1"
    and pc: "m_precommit k1 = Some pc" "same_hash (m_precommit k) (Some pc)"
    and m: "packetType m = CommitPacket" "index m = i" "hash m = hash pc" "generatedFrom m = m_nodeIndex s"
    and k2: "cache_core k2 = cache_core (addCommitCache s m k1)"
  shows "node_inv I env V True (set_cache i k2 (emit (Broadcast m) s))" "cache_inv env V (emit (Broadcast m) s) i k2"
proof -
  let ?t = "set_cache i k1 s" and ?s = "emit (Broadcast m) s"
  have i: "committedIndex s < i" using node_inv_cache_at [OF inv k] by simp
  have t: "node_inv I env V True ?t"
    using k pc i by (intro node_inv_set_cache [OF inv k1]) (auto simp: same_hash_def)
  have "locked ?t i (hash pc)" using pc by (auto simp: locked_iff [OF t] cache_at_set_cache [OF inv])
  then have e: "node_inv I env V True (emit (Broadcast m) ?t)"
    using i m by (intro node_inv_vote [OF t]) (simp_all add: set_cache_def)
  have known: "commit_known V ?s m" using m by (auto simp: commit_known_def known_def commits_def emit_def)
  have "cache_inv env V ?s i k1"
    by (rule cache_inv_mono [OF _ _ _ _ _ k1]) (auto simp: commits_def emit_def)
  then have "cache_inv env V ?s i (addCommitCache s m k1)" using known by (rule cache_inv_addCommitCache) simp
  then show k2': "cache_inv env V ?s i k2" using cache_core_inv [OF k2] by blast
  have "cache_inv env V (emit (Broadcast m) ?t) i k2"
    by (rule cache_inv_mono [OF _ _ _ _ _ k2']) (auto simp: commits_def emit_def set_cache_def)
  moreover have "m_precommit k2 = Some pc" using cache_core_inv [OF k2, of env V s i] pc by simp
  moreover have "cache_at (emit (Broadcast m) ?t) i = Some k1"
    using cache_at_set_cache [OF inv, of i k1] by (simp add: cache_at_def)
  ultimately have "node_inv I env V True (set_cache i k2 (emit (Broadcast m) ?t))"
    using i pc by (intro node_inv_set_cache [OF e]) (auto simp: set_cache_def)
  then show "node_inv I env V True (set_cache i k2 ?s)" by simp
qed

lemma checkAndPreCommit_cases:
  assumes inv: "node_inv I env V True s" and k: "cache_at s i = Some k" and c: "checkAndPreCommit env s k = (r, s', k')"
  shows "node_inv I env V True (set_cache i k' s')" "r \<Longrightarrow> \<exists>p. precommit_proposal k' = Some p \<and> certified V s' p"
proof -
  have ki: "cache_inv env V s i k" "committedIndex s < i" using node_inv_cache_at [OF inv k] by auto
  have "node_inv I env V True (set_cache i k' s') \<and> (r \<longrightarrow> (\<exists>p. precommit_proposal k' = Some p \<and> certified V s' p))"
  proof (cases "precommit_ready s k")
    case False
    moreover have "node_inv I env V True (set_cache i k s)" by (rule node_inv_set_cache [OF inv ki]) (simp add: k)
    ultimately show ?thesis using c by (simp add: checkAndPreCommit_def)
  next
    case True
    obtain pp pc w p where p: "m_prePrepare k = Some pp" "cache_inv env V s i (intoPrecommit s k)"
      "m_precommit (intoPrecommit s k) = Some pc" "hash pc = hash pp" "same_hash (m_precommit k) (Some pp)"
      "m_precommitWithoutData (intoPrecommit s k) = Some w" "consensusProposal w = Some p" "p_hash p = hash pp" "p_index p = i"
      using intoPrecommit_inv [OF ki(1) True] by blast
    define m where "m = commit_request env s p"
    have m: "packetType m = CommitPacket" "index m = i" "hash m = hash pc" "generatedFrom m = m_nodeIndex s"
      using p by (simp_all add: m_def commit_request_def populateFrom_signed_def Let_def)
    define k2 where "k2 = (addCommitCache s m (intoPrecommit s k))\<lparr>m_precommitted := True\<rparr>"
    have k': "s' = emit (Broadcast m) s" "checkAndCommit s' k2 = (r, k')"
      using c True p(6,7) by (auto simp: checkAndPreCommit_def Let_def m_def [symmetric] k2_def split: prod.splits)
    have core: "cache_core k' = cache_core (addCommitCache s m (intoPrecommit s k))"
      "cache_core k2 = cache_core (addCommitCache s m (intoPrecommit s k))"
      using cache_core_checkAndCommit [OF k'(2)] by (simp_all add: k2_def)
    have sh: "same_hash (m_precommit k) (Some pc)" using p(4,5) by (simp add: same_hash_def split: option.splits)
    note own = node_inv_own_commit [OF inv k p(2,3) sh m]
    have "cache_inv env V s' i k2" "quorum_ok s'" using own(2) [OF core(2)] inv by (simp_all add: k' node_inv_def)
    then show ?thesis using own(1) [OF core(1)] checkAndCommit_certified [of s' k2 k' env V i] k' by auto
  qed
  then show "node_inv I env V True (set_cache i k' s')" "r \<Longrightarrow> \<exists>p. precommit_proposal k' = Some p \<and> certified V s' p" by auto
qed

lemma certified_set_cache [simp]: "certified V (set_cache i k s) = certified V s"
  by (simp add: set_cache_def)

lemma node_inv_precommit_step: "node_inv I env V True s \<Longrightarrow> node_inv I env V True (precommit_step env i s)"
proof (cases "cache_at s i")
  case (Some k)
  assume inv: "node_inv I env V True s"
  obtain r s' k' where c: "checkAndPreCommit env s k = (r, s', k')" by (cases "checkAndPreCommit env s k")
  note cc = checkAndPreCommit_cases [OF inv Some c]
  show ?thesis using cc node_inv_commit_reached [OF cc(1)] by (auto simp: precommit_step_def Some c Let_def)
qed (simp add: precommit_step_def)

lemma node_inv_fold: "(\<And>x s. node_inv I env V b s \<Longrightarrow> node_inv I env V b (f x s)) \<Longrightarrow> node_inv I env V b s \<Longrightarrow> node_inv I env V b (fold f l s)"
  by (induction l arbitrary: s) simp_all

lemma node_inv_proc_checkAndPreCommit: "node_inv I env V True s \<Longrightarrow> node_inv I env V True (proc_checkAndPreCommit env s)"
  unfolding proc_checkAndPreCommit_def
  by (rule node_inv_core [OF _ node_inv_fold [OF node_inv_precommit_step]]) simp

lemma node_inv_commit_step: "node_inv I env V b s \<Longrightarrow> node_inv I env V b (commit_step env' i s)"
proof (cases "cache_at s i")
  case (Some k)
  assume inv: "node_inv I env V b s"
  obtain r k' where c: "checkAndCommit s k = (r, k')" by (cases "checkAndCommit s k")
  note core = cache_core_inv [OF cache_core_checkAndCommit [OF c], of env V s i]
  have ki: "cache_inv env V s i k" "b \<longrightarrow> committedIndex s < i" using node_inv_cache_at [OF inv Some] by auto
  have inv': "node_inv I env V b (set_cache i k' s)"
    using core ki Some by (intro node_inv_set_cache [OF inv]) auto
  have "quorum_ok s" using inv by (simp add: node_inv_def)
  then show ?thesis using inv' checkAndCommit_certified [OF _ _ ki(1)] node_inv_commit_reached [OF inv', of k'] c
    by (auto simp: commit_step_def Some Let_def)
qed (simp add: commit_step_def)

lemma node_inv_proc_checkAndCommit: "node_inv I env V b s \<Longrightarrow> node_inv I env V b (proc_checkAndCommit env' s)"
  unfolding proc_checkAndCommit_def
  by (rule node_inv_core [OF _ node_inv_fold [OF node_inv_commit_step]]) simp

section \<open>Other changes of the caches\<close>

lemma list_all2_sets:
  assumes "list_all2 P xs ys"
  shows "y \<in> set ys \<Longrightarrow> \<exists>x\<in>set xs. P x y" "x \<in> set xs \<Longrightarrow> \<exists>y\<in>set ys. P x y"
  using assms by (induction rule: list_all2_induct) auto

lemma node_inv_same_cores:
  assumes inv: "node_inv I env V b s"
    and same: "list_all2 (\<lambda>(i, k) (j, k'). i = j \<and> cache_core k' = cache_core k) (m_caches s) ks"
  shows "node_inv I env V b (s\<lparr>m_caches := ks\<rparr>)"
proof (rule node_inv_caches [OF inv])
  have "map fst (m_caches s) = map fst ks"
    using same by (auto simp: list_all2_conv_all_nth list_eq_iff_nth_eq case_prod_unfold)
  then show "sorted_wrt (<) (map fst ks)" using inv by (simp add: node_inv_def)
next
  fix i k' assume "(i, k') \<in> set ks"
  then obtain k where "(i, k) \<in> set (m_caches s)" "cache_core k' = cache_core k"
    using list_all2_sets(1) [OF same] by auto
  then show "(b \<longrightarrow> committedIndex s < i) \<and> cache_inv env V s i k'"
    using inv cache_core_inv [of k' k env V s i] by (auto simp: node_inv_def)
next
  fix i h assume "locked s i h"
  then obtain k pc where k: "(i, k) \<in> set (m_caches s)" "m_precommit k = Some pc" "hash pc = h" by (auto simp: locked_def)
  then obtain k' where "(i, k') \<in> set ks" "cache_core k' = cache_core k"
    using list_all2_sets(2) [OF same k(1)] by auto
  then have "locked (s\<lparr>m_caches := ks\<rparr>) i h" using k cache_core_inv [of k' k env V s i] by (auto simp: locked_def)
  then show "i \<le> committedIndex s \<or> locked (s\<lparr>m_caches := ks\<rparr>) i h" ..
qed

lemma stable_checkpoint_loop_cores:
  "stable_checkpoint_loop s ks = (ps, ks') \<Longrightarrow> list_all2 (\<lambda>(i, k) (j, k'). i = j \<and> cache_core k' = cache_core k) ks ks'"
proof (induction s ks arbitrary: ps ks' rule: stable_checkpoint_loop.induct)
  case (2 s i k ks)
  obtain r k' where c: "checkAndCommitStableCheckPoint s k = (r, k')" by fastforce
  obtain ps1 ks1 where l: "stable_checkpoint_loop s ks = (ps1, ks1)" by fastforce
  then show ?case using 2 c l cache_core_checkAndCommitStableCheckPoint [OF c] by auto
qed simp

lemma node_inv_proc_checkAndCommitStableCheckPoint:
  assumes "node_inv I env V b s" shows "node_inv I env V b (proc_checkAndCommitStableCheckPoint s)"
proof -
  obtain ps ks where l: "stable_checkpoint_loop s (m_caches s) = (ps, ks)" by fastforce
  have "node_inv I env V b (s\<lparr>m_caches := ks\<rparr>)" by (rule node_inv_same_cores [OF assms stable_checkpoint_loop_cores [OF l]])
  then show ?thesis by (rule node_inv_core [rotated])
      (simp add: proc_checkAndCommitStableCheckPoint_def l core_fold updateStableCheckPointQueue_def)
qed

lemma node_inv_resetUnCommittedCacheState:
  assumes "node_inv I env V b s" shows "node_inv I env V b (resetUnCommittedCacheState i s)"
proof -
  let ?ks = "map (\<lambda>(j, k). (j, if m_index k \<ge> i then resetState k else k)) (m_caches s)"
  have "cache_core (resetState k) = cache_core k" for k by (simp add: resetState_def)
  then have "node_inv I env V b (s\<lparr>m_caches := ?ks\<rparr>)"
    by (intro node_inv_same_cores [OF assms]) (auto simp: list_all2_map2 list.rel_refl split: prod.splits intro: list_all2_refl)
  then show ?thesis by (rule node_inv_core [rotated]) (simp add: resetUnCommittedCacheState_def)
qed

lemma node_inv_reset_step: "node_inv I env V b s \<Longrightarrow> node_inv I env V b (reset_step v i s)"
proof (cases "cache_at s i")
  case (Some k)
  assume inv: "node_inv I env V b s"
  obtain s' k' where r: "resetCache v (s, k) = (s', k')" by fastforce
  have ki: "cache_inv env V s i k" "b \<longrightarrow> committedIndex s < i" using node_inv_cache_at [OF inv Some] by auto
  note res = cache_inv_resetCache [OF ki(1) r]
  have inv': "node_inv I env V b s'" using inv res(3) by (rule node_inv_core [rotated])
  have "cache_inv env V s' i k'" "committedIndex s' = committedIndex s" "cache_at s' i = Some k"
    using res(3) Some cache_inv_mono [OF _ _ _ _ _ res(1), of V s'] by (auto simp: core_def cache_at_def)
  then show ?thesis using res(2) ki(2) by (auto simp: reset_step_def Some r intro!: node_inv_set_cache [OF inv'])
qed (simp add: reset_step_def)

lemma node_inv_proc_resetCacheAfterViewChange:
  assumes "node_inv I env V b s" shows "node_inv I env V b (proc_resetCacheAfterViewChange v i s)"
proof -
  have "node_inv I env V b (fold (reset_step v) (map fst (m_caches s)) s)"
    by (rule node_inv_fold [OF node_inv_reset_step assms])
  then show ?thesis by (rule node_inv_core [rotated]) (simp add: proc_resetCacheAfterViewChange_def Let_def)
qed

text \<open>Nothing is discarded: own certificates pass the check, and no proposal waits for a system proposal.\<close>

lemma checkPrecommitMsg_same:
  assumes inv: "node_inv I env V b s" shows "snd (checkPrecommitMsg env m s) = s"
proof -
  have "checkPrecommitWeight env s pc" if "cache_at s i = Some k" "m_precommit k = Some pc" for i k pc
    using node_inv_cache_at [OF inv that(1)] that(2) by (simp add: cache_inv_def)
  then show ?thesis by (auto simp: checkPrecommitMsg_def split: option.splits)
qed

lemma precommit_list_loop_same: "m_waitSealUntil c \<le> committedIndex c \<Longrightarrow> snd (precommit_list_loop c ks) = ks"
  by (induction c ks rule: precommit_list_loop.induct) (auto simp: split: option.splits prod.splits)

lemma generateViewChange_same:
  assumes "node_inv I env V b s" shows "snd (generateViewChange s) = s"
proof -
  have "m_waitSealUntil s \<le> committedIndex s" using assms by (simp add: node_inv_def marks_ok_def)
  then have "snd (preCommitCachesWithoutData s) = s"
    using precommit_list_loop_same [of s "m_caches s"] by (auto simp: preCommitCachesWithoutData_def split: prod.splits)
  then show ?thesis by (auto simp: generateViewChange_def split: prod.splits)
qed

lemma node_inv_processor_addCache:
  assumes inv: "node_inv I env V b s" and i: "b \<Longrightarrow> committedIndex s < i"
    and f: "\<And>k. cache_inv env V s i k \<Longrightarrow> cache_at s i = Some k \<or> k = createPBFTCache i \<Longrightarrow>
      cache_inv env V s i (f k) \<and> m_precommit (f k) = m_precommit k"
  shows "node_inv I env V b (processor_addCache i f s)"
proof -
  let ?k = "case cache_at s i of None \<Rightarrow> createPBFTCache i | Some k \<Rightarrow> k"
  have k: "cache_inv env V s i ?k" "cache_at s i = Some ?k \<or> ?k = createPBFTCache i"
    using node_inv_cache_at [OF inv, of i] by (auto split: option.split)
  have "processor_addCache i f s = set_cache i (f ?k) s" by (simp add: processor_addCache_def set_cache_def)
  moreover have "node_inv I env V b (set_cache i (f ?k) s)" using f [OF k] i by (intro node_inv_set_cache [OF inv]) auto
  ultimately show ?thesis by simp
qed

section \<open>Handlers of proposals and votes\<close>

lemma checkPBFTMsgState_fresh:
  "node_inv I env V b s \<Longrightarrow> checkPBFTMsgState m s \<noteq> INVALID \<Longrightarrow> committedIndex s < index m"
  by (auto simp: node_inv_def marks_ok_def checkPBFTMsgState_def split: if_splits)

lemma node_inv_addPrepareCache:
  assumes "node_inv I env V b s" "committedIndex s < index m"
    "getConsensusNodeByIndex s (generatedFrom m) \<noteq> None \<Longrightarrow> prepare_ok env (m_consensusNodeList s) m"
  shows "node_inv I env V b (proc_addPrepareCache m s)"
  unfolding proc_addPrepareCache_def
proof (rule node_inv_processor_addCache [OF assms(1,2)])
  fix k assume "cache_inv env V s (index m) k"
  then have "cache_inv env V s (index m) (addPrepareCache s m k)" using assms(3) by (rule cache_inv_addPrepareCache)
  then show "cache_inv env V s (index m) (addPrepareCache s m k) \<and> m_precommit (addPrepareCache s m k) = m_precommit k" by simp
qed

lemma node_inv_broadcastPrepareMsg:
  assumes inv: "node_inv I env V True s" and i: "committedIndex s < index m"
  shows "node_inv I env V True (broadcastPrepareMsg env m s)"
proof (cases "consensusProposal m")
  case (Some p)
  define pm where "pm = (populateFrom_signed env PreparePacket (m_view s) (m_nodeIndex s) p)\<lparr>index := index m\<rparr>"
  have "own_key env s" using inv by (simp add: node_inv_def)
  then have "prepare_ok env (m_consensusNodeList s) pm" if "getConsensusNodeByIndex s (generatedFrom pm) \<noteq> None"
    using that by (auto simp: pm_def populateFrom_signed_def Let_def prepare_ok_def own_key_def proposal_signature_def
        getConsensusNodeByIndex_def split: if_splits)
  then have "node_inv I env V True (proc_addPrepareCache pm s)"
    by (intro node_inv_addPrepareCache [OF inv]) (use i in \<open>auto simp: pm_def\<close>)
  then have "node_inv I env V True (emit (Broadcast pm) (proc_addPrepareCache pm s))"
    by (rule node_inv_core [rotated]) (simp add: pm_def populateFrom_signed_def Let_def)
  then show ?thesis
    using node_inv_proc_checkAndPreCommit by (simp add: broadcastPrepareMsg_def Some pm_def [symmetric])
qed (simp add: broadcastPrepareMsg_def inv)

lemma node_inv_addPrePrepareCache:
  assumes inv: "node_inv I env V True s" and i: "committedIndex s < index m" and m: "plain m"
    and conflict: "\<not> proc_conflictWithPrecommitReq m s"
  shows "node_inv I env V True (proc_addPrePrepareCache m s)"
proof -
  have "node_inv I env V True (processor_addCache (index m) (addPrePrepareCache m) s)"
  proof (rule node_inv_processor_addCache [OF inv i])
    fix k assume k: "cache_inv env V s (index m) k" "cache_at s (index m) = Some k \<or> k = createPBFTCache (index m)"
    have "same_hash (m_precommit k) (Some m)"
    proof (cases "m_precommit k")
      case (Some pc)
      then have c: "cache_at s (index m) = Some k" using k(2) by (auto simp: createPBFTCache_def)
      have "\<not> index pc < m_progressedIndex s" "index pc = index m"
        using k(1) i Some inv by (auto simp: cache_inv_def node_inv_def marks_ok_def)
      then show ?thesis
        using conflict Some c by (simp add: proc_conflictWithPrecommitReq_def conflictWithPrecommitReq_def same_hash_def)
    qed (simp add: same_hash_def)
    then show "cache_inv env V s (index m) (addPrePrepareCache m k) \<and> m_precommit (addPrePrepareCache m k) = m_precommit k"
      using cache_inv_addPrePrepareCache [OF k(1)] m by simp
  qed
  then show ?thesis by (rule node_inv_core [rotated]) (simp add: proc_addPrePrepareCache_def)
qed

lemma node_inv_handlePrePrepareMsg:
  assumes inv: "node_inv I env V True s" and m: "plain m"
  shows "node_inv I env V True (snd (handlePrePrepareMsg env m False g n s))"
proof (cases "isSyncingHigher s \<or> map_of (m_executingProposals s) (hash m) \<noteq> None \<or> checkPrePrepareMsg m s = INVALID \<or>
    \<not> g \<and> leaderIndex (index m) s \<noteq> generatedFrom m \<or> \<not> g \<and> n \<and> checkSignature env m s = INVALID")
  case True
  then have "snd (handlePrePrepareMsg env m False g n s) \<in> {s, notifySealer env (index m) True s}"
    by (auto simp: handlePrePrepareMsg_def)
  moreover have "node_inv I env V True (notifySealer env (index m) True s)" using inv by (rule node_inv_core [rotated]) simp
  ultimately show ?thesis using inv by auto
next
  case False
  define s1 where "s1 = emit (Reset_txs (proposal_data m) True False) s"
  define s2 where "s2 = timer_restart (proc_addPrePrepareCache m s1)"
  have ok: "checkPBFTMsgState m s \<noteq> INVALID" "\<not> proc_conflictWithPrecommitReq m s"
    using False by (auto simp: checkPrePrepareMsg_def split: if_splits)
  have i: "committedIndex s1 < index m" using checkPBFTMsgState_fresh [OF inv ok(1)] by (simp add: s1_def)
  have s1: "node_inv I env V True s1" using inv by (rule node_inv_core [rotated]) (simp add: s1_def)
  have "\<not> proc_conflictWithPrecommitReq m s1"
    using ok(2) by (simp add: s1_def proc_conflictWithPrecommitReq_def conflictWithPrecommitReq_def cache_at_def cong: option.case_cong)
  then have "node_inv I env V True (proc_addPrePrepareCache m s1)" by (rule node_inv_addPrePrepareCache [OF s1 i m])
  then have s2: "node_inv I env V True s2" by (rule node_inv_core [rotated]) (simp add: s2_def)
  have "committedIndex s2 < index m" using i
    by (simp add: s2_def timer_restart_def proc_addPrePrepareCache_def notifyMaxProposalIndex_def notifyCommittedProposalIndex_def
        processor_addCache_def)
  then have "node_inv I env V True (proc_checkAndPreCommit env (broadcastPrepareMsg env m s2))"
    by (intro node_inv_proc_checkAndPreCommit node_inv_broadcastPrepareMsg [OF s2])
  then show ?thesis using False by (auto simp: handlePrePrepareMsg_def Let_def s1_def s2_def)
qed

lemma node_inv_handlePrepareMsg:
  assumes inv: "node_inv I env V True s" and m: "map_option p_hash (consensusProposal m) = Some (hash m)"
  shows "node_inv I env V True (snd (handlePrepareMsg env m s))"
proof (cases "checkPBFTMsg env m s = INVALID \<or> \<not> checkProposalSignature env (generatedFrom m) (consensusProposal m) s")
  case False
  then have "checkPBFTMsgState m s \<noteq> INVALID" by (auto simp: checkPBFTMsg_def split: if_splits)
  then have i: "committedIndex s < index m" by (rule checkPBFTMsgState_fresh [OF inv])
  have "prepare_ok env (m_consensusNodeList s) m" using False m
    by (auto simp: checkProposalSignature_def prepare_ok_def proposal_signature_def getConsensusNodeByIndex_def
        split: option.splits if_splits)
  then have "node_inv I env V True (proc_addPrepareCache m s)" by (intro node_inv_addPrepareCache [OF inv i])
  then show ?thesis using False node_inv_proc_checkAndPreCommit by (simp add: handlePrepareMsg_def)
qed (auto simp: handlePrepareMsg_def inv)

lemma node_inv_handleCommitMsg:
  assumes inv: "node_inv I env V True s" and m: "V (generatedFrom m) (index m) (hash m)"
  shows "node_inv I env V True (snd (handleCommitMsg env m s))"
proof (cases "checkPBFTMsg env m s = INVALID")
  case False
  then have "checkPBFTMsgState m s \<noteq> INVALID" by (auto simp: checkPBFTMsg_def split: if_splits)
  then have i: "committedIndex s < index m" by (rule checkPBFTMsgState_fresh [OF inv])
  have "commit_known V s m" using m by (simp add: commit_known_def known_def)
  then have "node_inv I env V True (addCommitReq m s)" unfolding addCommitReq_def
    by (intro node_inv_processor_addCache [OF inv i]) (auto intro: cache_inv_addCommitCache)
  then show ?thesis using False node_inv_proc_checkAndCommit by (simp add: handleCommitMsg_def)
qed (simp add: handleCommitMsg_def inv)

end
