(* ===== verification/Pbft_Handlers.thy ===== *)
theory Pbft_Handlers
  imports Pbft_Safety
begin

text \<open>View changes, execution, checkpoints and new blocks preserve the invariant of a node.\<close>

section \<open>View changes\<close>

lemma node_inv_snd_apply: "node_inv I env V b s \<Longrightarrow> node_inv I env V b (snd (tryToApplyCommitQueue env' s))"
  using node_inv_tryToApplyCommitQueue by (metis prod.collapse)

lemma node_inv_reachNewView:
  assumes inv: "node_inv I env V True s" shows "node_inv I env V True (reachNewView env v s)"
proof -
  define s1 where "s1 = resetNewViewState v s"
  have "node_inv I env V True s1" using inv by (rule node_inv_core [rotated]) (simp add: s1_def)
  then have "node_inv I env V True (snd (tryToApplyCommitQueue env (proc_checkAndCommit env (proc_checkAndPreCommit env
      (proc_resetCacheAfterViewChange (m_view s1) (committedIndex s1) s1)))))"
    by (intro node_inv_snd_apply node_inv_proc_checkAndCommit node_inv_proc_checkAndPreCommit node_inv_proc_resetCacheAfterViewChange)
  then show ?thesis by (rule node_inv_core [rotated]) (simp add: reachNewView_def Let_def s1_def split: prod.split)
qed

lemma node_inv_reHandlePrePrepareProposals:
  assumes "node_inv I env V True s" shows "node_inv I env V True (reHandlePrePrepareProposals env nv s)"
proof -
  define s1 where "s1 = notifyResetSealing None (reachNewView env (view nv) s)"
  obtain i s2 where l: "rehandle_loop env (prePrepareList nv) (committedIndex s1) s1 = (i, s2)" by fastforce
  have "node_inv I env V True s1" using node_inv_reachNewView [OF assms] by (rule node_inv_core [rotated]) (simp add: s1_def)
  then have "node_inv I env V True s2" using core_rehandle_loop [OF l] by (rule node_inv_core [rotated])
  then show ?thesis
    by (rule node_inv_core [rotated]) (simp add: reHandlePrePrepareProposals_def Let_def s1_def [symmetric] l)
qed

lemma node_inv_into_new_view:
  assumes inv: "node_inv I env V True s" and c: "checkAndTryIntoNewView env s = (r, s')"
  shows "node_inv I env V True s'" "node_inv I env V True (reHandlePrePrepareProposals env nv s')"
proof -
  show "node_inv I env V True s'" using inv core_checkAndTryIntoNewView [OF c] by (rule node_inv_core [rotated])
  then show "node_inv I env V True (reHandlePrePrepareProposals env nv s')" by (rule node_inv_reHandlePrePrepareProposals)
qed

lemma node_inv_collect_view_change:
  assumes "node_inv I env V True s" shows "node_inv I env V True (collect_view_change env vc s)"
proof -
  obtain r s1 where c: "checkAndTryIntoNewView env (addViewChangeReq vc s) = (r, s1)" by fastforce
  have "node_inv I env V True (addViewChangeReq vc s)" using assms by (rule node_inv_core [rotated]) simp
  note new = node_inv_into_new_view [OF this c]
  show ?thesis by (cases r) (simp_all add: collect_view_change_def c new)
qed

lemma node_inv_send_view_changes:
  assumes inv: "node_inv I env V True s"
  shows "node_inv I env V True (sendViewChange env dst s)" "node_inv I env V True (broadcastViewChangeReq env s)"
proof -
  obtain vc where g: "generateViewChange s = (vc, s)" using generateViewChange_same [OF inv] by (metis prod.collapse)
  have "node_inv I env V True (emit (Send_view_change dst vc) s)" "node_inv I env V True (emit (Broadcast_view_change vc) s)"
    using inv by (auto intro: node_inv_core [rotated])
  then show "node_inv I env V True (sendViewChange env dst s)" "node_inv I env V True (broadcastViewChangeReq env s)"
    by (simp_all add: sendViewChange_def broadcastViewChangeReq_def g node_inv_collect_view_change)
qed

lemma node_inv_triggerTimeout:
  assumes "node_inv I env V True s" shows "node_inv I env V True (triggerTimeout env t s)"
  unfolding triggerTimeout_def Let_def
  by (rule node_inv_send_view_changes, rule node_inv_core [OF _ assms]) simp

lemma node_inv_onFastViewChange: "node_inv I env V True s \<Longrightarrow> node_inv I env V True (onFastViewChange env s)"
  unfolding onFastViewChange_def Let_def by (rule node_inv_core [OF _ node_inv_triggerTimeout]) simp_all

lemma node_inv_onTimeout:
  assumes inv: "node_inv I env V True s" shows "node_inv I env V True (onTimeout env s)"
proof -
  obtain r s1 where a: "tryToApplyCommitQueue env s = (r, s1)" by fastforce
  have s1: "node_inv I env V True s1" by (rule node_inv_tryToApplyCommitQueue [OF inv a])
  have "node_inv I env V True (clearExpiredExecutingProposal s1)" using s1 by (rule node_inv_core [rotated]) simp
  then have "node_inv I env V True (triggerTimeout env True (clearExpiredExecutingProposal s1))" by (rule node_inv_triggerTimeout)
  moreover have "node_inv I env V True (timer_restart s)" "node_inv I env V True (timer_restart s1)"
    "node_inv I env V True (timer_restart (clearExpiredExecutingProposal s1))"
    using inv s1 by (auto intro: node_inv_core [rotated])
  ultimately show ?thesis by (simp add: onTimeout_def a Let_def split: bool.split)
qed

lemma check_prepared_loop_same: "node_inv I env V b s \<Longrightarrow> snd (check_prepared_loop env v ms s) = s"
proof (induction env v ms s rule: check_prepared_loop.induct)
  case (2 env v m ms s)
  obtain r where "checkPrecommitMsg env m s = (r, s)" using checkPrecommitMsg_same [OF 2(2)] by (metis prod.collapse)
  then show ?case using 2 by (cases r) auto
qed simp

lemma core_sendRecoverResponse [simp]: "core (sendRecoverResponse n s) = core s"
  by (simp add: sendRecoverResponse_def)

lemma node_inv_isValidViewChangeMsg:
  assumes inv: "node_inv I env V True s" and c: "isValidViewChangeMsg env from vc s = (r, s')"
  shows "node_inv I env V True s'"
proof -
  define s1 where "s1 = (case from of Some n \<Rightarrow> if \<not> m_timeoutState s then sendRecoverResponse n s else s | None \<Rightarrow> s)"
  define s2 where "s2 = (if view vc < m_view s1 \<or> view vc + 1 < m_toView s1
    then (case from of Some n \<Rightarrow> if m_timeoutState s1 then sendViewChange env n s1 else s1 | None \<Rightarrow> s1) else s1)"
  have "node_inv I env V True s1" using inv by (rule node_inv_core [rotated]) (simp add: s1_def split: option.split)
  then have s2: "node_inv I env V True s2" by (auto simp: s2_def node_inv_send_view_changes split: option.split)
  obtain r' where l: "check_prepared_loop env (view vc) (preparedProposals vc) s2 = (r', s2)"
    using check_prepared_loop_same [OF s2] by (metis prod.collapse)
  show ?thesis
    using c [unfolded isValidViewChangeMsg_def Let_def, folded s1_def, folded s2_def] inv s2 l
    by (auto split: if_splits bool.splits)
qed

lemma node_inv_handleViewChangeMsg:
  assumes inv: "node_inv I env V True s" shows "node_inv I env V True (snd (handleViewChangeMsg env vc s))"
proof -
  obtain r s1 where v: "isValidViewChangeMsg env (from_node vc) vc s = (r, s1)" by fastforce
  define s2 where "s2 = addViewChangeReq vc
    (case from_node vc of Some n \<Rightarrow> if \<not> m_timeoutState s1 then sendRecoverResponse n s1 else s1 | None \<Rightarrow> s1)"
  obtain w s3 where f: "tryToTriggerFastViewChange s2 = (w, s3)" by fastforce
  define s4 where "s4 = (if fast_view_change_due vc s2 then if w > 0 then triggerTimeout env False s3 else s3 else s2)"
  obtain nv s5 where n: "checkAndTryIntoNewView env s4 = (nv, s5)" by fastforce
  have s1: "node_inv I env V True s1" by (rule node_inv_isValidViewChangeMsg [OF inv v])
  then have s2: "node_inv I env V True s2" by (rule node_inv_core [rotated]) (simp add: s2_def split: option.split)
  then have "node_inv I env V True s3" using core_tryToTriggerFastViewChange [OF f] by (rule node_inv_core [rotated])
  then have "node_inv I env V True s4" using s2 by (simp add: s4_def node_inv_triggerTimeout)
  note new = node_inv_into_new_view [OF this n]
  have "snd (handleViewChangeMsg env vc s) \<in> {s1, s5} \<union> range (\<lambda>nv. reHandlePrePrepareProposals env nv s5)"
    using n by (auto simp: handleViewChangeMsg_def v Let_def s2_def [symmetric] f s4_def split: bool.split option.splits prod.splits)
  then show ?thesis using s1 new by auto
qed

lemma node_inv_new_view_weight:
  "node_inv I env V True s \<Longrightarrow> new_view_weight env from vcs w s = (r, s') \<Longrightarrow> node_inv I env V True s'"
proof (induction env "from" vcs w s rule: new_view_weight.induct)
  case (2 env "from" vc vcs w s)
  obtain b s1 where v: "isValidViewChangeMsg env from vc s = (b, s1)" by fastforce
  have "node_inv I env V True s1" by (rule node_inv_isValidViewChangeMsg [OF 2(3) v])
  then show ?case using 2 v by (auto split: bool.splits option.splits)
qed simp

lemma node_inv_handleNewViewMsg:
  assumes inv: "node_inv I env V True s" shows "node_inv I env V True (snd (handleNewViewMsg env nv s))"
proof -
  obtain w s1 where v: "new_view_weight env (from_node nv) (viewChangeMsgList nv) 0 s = (w, s1)" by fastforce
  have s1: "node_inv I env V True s1" by (rule node_inv_new_view_weight [OF inv v])
  have "snd (isValidNewViewMsg env nv s) \<in> {s, s1}" by (auto simp: isValidNewViewMsg_def v split: option.splits)
  then have "node_inv I env V True (snd (isValidNewViewMsg env nv s))" using inv s1 by auto
  then show ?thesis
    by (auto simp: handleNewViewMsg_def node_inv_reHandlePrePrepareProposals split: prod.splits bool.splits)
qed

lemma node_inv_handleRecoverResponse:
  assumes inv: "node_inv I env V True s" shows "node_inv I env V True (handleRecoverResponse env m s)"
proof -
  define s1 where "s1 = addRecoverReqCache m s"
  define s2 where "s2 = resetNewViewState (recovered_view s1) s1"
  have s1: "node_inv I env V True s1" using inv by (rule node_inv_core [rotated]) (simp add: s1_def)
  then have "node_inv I env V True s2" by (rule node_inv_core [rotated]) (simp add: s2_def)
  then have "node_inv I env V True (proc_resetCacheAfterViewChange (recovered_view s1) (committedIndex s2) s2)"
    by (rule node_inv_proc_resetCacheAfterViewChange)
  then have "node_inv I env V True (proc_checkAndCommit env (proc_checkAndPreCommit env
      ((proc_resetCacheAfterViewChange (recovered_view s1) (committedIndex s2) s2)\<lparr>m_recoverReqCache := [], m_recoverCacheWeight := []\<rparr>)))"
    by (intro node_inv_proc_checkAndCommit node_inv_proc_checkAndPreCommit) (auto elim: node_inv_core [rotated])
  then show ?thesis using inv s1
    by (simp add: handleRecoverResponse_def checkAndTryToRecover_def s1_def [symmetric] Let_def s2_def)
qed

section \<open>Execution and checkpoints\<close>

lemma node_inv_addCheckPointMsg:
  assumes "node_inv I env V b s" "committedIndex s < index m" shows "node_inv I env V b (proc_addCheckPointMsg m s)"
  unfolding proc_addCheckPointMsg_def by (rule node_inv_processor_addCache [OF assms]) simp

lemma node_inv_setCheckPointProposal:
  assumes "node_inv I env V b s" "committedIndex s < p_index p" shows "node_inv I env V b (proc_setCheckPointProposal p s)"
  unfolding proc_setCheckPointProposal_def by (rule node_inv_processor_addCache [OF assms]) simp

lemma node_inv_onApplied:
  assumes inv: "node_inv I env V True s" and e: "p_index executed = p_index p"
  shows "node_inv I env V True (onApplied env p executed s)"
proof (cases "committedIndex s \<ge> p_index p")
  case False
  define m where "m = populateFrom_signed env CheckPoint (m_view s) (m_nodeIndex s) executed"
  define s1 where "s1 = emit (Broadcast m) (emit (Commit_proposal p) s)"
  define s2 where "s2 = (if timer_running s1 then timer_restart s1 else s1)"
  define s3 where "s3 = proc_setCheckPointProposal executed (proc_addCheckPointMsg m s2)"
  define s4 where "s4 = (if m_expectedCheckPoint s3 < p_index executed then s3 else setExpectedCheckPoint (p_index executed + 1) s3)"
  have m: "index m = p_index p" "packetType m = CheckPoint" by (simp_all add: m_def populateFrom_signed_def Let_def e)
  have c: "committedIndex s2 < p_index p" "core s2 = core s"
    using False m by (simp_all add: s2_def s1_def timer_restart_def)
  have "node_inv I env V True s2" using inv c(2) by (rule node_inv_core [rotated])
  then have "node_inv I env V True (proc_addCheckPointMsg m s2)" using c m by (intro node_inv_addCheckPointMsg) simp_all
  then have "node_inv I env V True s3" unfolding s3_def
    using c e by (intro node_inv_setCheckPointProposal) (simp_all add: proc_addCheckPointMsg_def processor_addCache_def)
  then have "node_inv I env V True s4" by (rule node_inv_core [rotated]) (simp add: s4_def)
  then have "node_inv I env V True (snd (tryToApplyCommitQueue env (proc_checkAndCommitStableCheckPoint s4)))"
    by (intro node_inv_snd_apply node_inv_proc_checkAndCommitStableCheckPoint)
  then show ?thesis using False
    by (elim node_inv_core [rotated]) (simp add: onApplied_def onProposalApplySuccess_def Let_def
        m_def s1_def s2_def s3_def s4_def split: prod.split)
qed (simp add: onApplied_def inv)

lemma node_inv_onProposalApplyFailed:
  assumes inv: "node_inv I env V b s" and p: "Apply l p \<in> set (sent s)"
  shows "node_inv I env V b (onProposalApplyFailed env' p s)"
proof -
  define s1 where "s1 = eraseExecutedProposal (p_hash p) (timer_restart s)"
  have "p \<in> decided s" using p by (auto simp: decided_def)
  then have "certified V s p" using inv by (simp add: node_inv_def)
  moreover have c: "core s1 = core s" by (simp add: s1_def)
  ultimately have "certified V s1 p" using certified_core [OF c, of V] by simp
  then have "node_inv I env V b (updateCommitQueue env' p s1)"
    by (rule node_inv_updateCommitQueue [OF node_inv_core [OF c inv]])
  moreover have "node_inv I env V b (eraseExecutedProposal (p_hash p) (setExpectedCheckPoint (committedIndex s + 1) s))"
    using inv by (rule node_inv_core [rotated]) simp
  ultimately show ?thesis using inv by (simp add: onProposalApplyFailed_def s1_def)
qed

lemma node_inv_handleCheckPointMsg:
  assumes inv: "node_inv I env V True s" shows "node_inv I env V True (snd (handleCheckPointMsg env m s))"
proof (cases "index m \<le> committedIndex s \<or> isSyncingHigher s \<or> checkSignature env m s = INVALID \<or>
    \<not> checkProposalSignature env (generatedFrom m) (consensusProposal m) s")
  case False
  obtain r0 s0 where a: "tryToApplyCommitQueue env (proc_addCheckPointMsg m s) = (r0, s0)" by fastforce
  define s1 where "s1 = proc_checkAndCommitStableCheckPoint s0"
  have "node_inv I env V True (proc_addCheckPointMsg m s)" using False by (intro node_inv_addCheckPointMsg inv) simp
  then have "node_inv I env V True s1" unfolding s1_def
    by (intro node_inv_proc_checkAndCommitStableCheckPoint node_inv_tryToApplyCommitQueue [OF _ a])
  moreover obtain r s2 where q: "shouldRequestCheckPoint m s1 = (r, s2)" by fastforce
  moreover have "core s2 = core s1" using core_processor(7) [of m s1] q by simp
  ultimately have "node_inv I env V True s2" by (elim node_inv_core)
  then show ?thesis using False
    by (elim node_inv_core [rotated]) (auto simp: handleCheckPointMsg_def Let_def a s1_def [symmetric] q split: option.split)
qed (auto simp: handleCheckPointMsg_def inv)

end
