(* ===== verification/Pbft_Agreement.thy ===== *)
theory Pbft_Agreement
  imports Pbft_Handlers
begin

text \<open>
  Runs of a network of consensus nodes. A correct node takes the steps of the engine; what it receives
  is arbitrary, except that commit votes in the name of a correct node are votes that node has sent and
  that messages name the hash of the proposal they carry. The set of consensus nodes does not change
  during a run, there are no proposals that change the system configuration, and no node gives up its
  caches to take over the log of another node (\<open>clearAllCache\<close>, \<open>updatePrecommit\<close>). The assumption on
  commit votes is not one the code enforces: the signature of a vote leaves out the packet type, so a
  prepare vote can be sent on as a commit vote (\<open>prepare_counts_as_commit\<close> in \<open>Pbft_Behaviour\<close>).
\<close>

section \<open>New blocks\<close>

definition same_nodes :: "ledger_config \<Rightarrow> 'z pbft_config_scheme \<Rightarrow> bool" where
  "same_nodes l s \<longleftrightarrow> compareConsensusNode (sort_nodes (lc_consensusNodeList l)) (m_consensusNodeList s)"

lemma core_committed: "core s' = core s \<Longrightarrow> committedIndex s' = committedIndex s"
  by (simp add: core_def)

lemma node_inv_setCommittedProposal:
  assumes inv: "node_inv I env V b s" and p: "committedIndex s \<le> p_index p"
  shows "node_inv I env V False (setCommittedProposal p s)"
proof -
  let ?s = "setCommittedProposal p s"
  have f: "m_consensusNodeList ?s = m_consensusNodeList s" "m_nodeIndex ?s = m_nodeIndex s" "commits ?s = commits s"
    "decided ?s = decided s" "m_caches ?s = m_caches s" "m_committedQueue ?s = m_committedQueue s"
    "m_minRequiredQuorum ?s = m_minRequiredQuorum s" "m_maxFaultyQuorum ?s = m_maxFaultyQuorum s"
    by (simp_all add: setCommittedProposal_def Let_def commits_def decided_def)
  have "marks_ok ?s" using inv p by (auto simp: node_inv_def marks_ok_def setCommittedProposal_def Let_def)
  moreover have "cache_inv env V s i k \<Longrightarrow> cache_inv env V ?s i k" for i k
    by (rule cache_inv_mono [of V V s]) (simp_all add: f)
  moreover have "certified V s q \<Longrightarrow> certified V ?s q" for q by (rule certified_mono [of V V s]) (simp_all add: f)
  moreover have "locked ?s = locked s" "committedIndex ?s = p_index p"
    by (simp_all add: locked_def f fun_eq_iff) (simp add: setCommittedProposal_def Let_def)
  then have "votes_locked ?s" using inv p unfolding node_inv_def votes_locked_def f by (metis order_trans)
  moreover have "quorum_ok ?s = quorum_ok s" "own_key env ?s = own_key env s" "same_node I ?s = same_node I s"
    by (simp_all add: same_node_def quorum_ok_def total_weight_def node_weight_def own_key_def getConsensusNodeByIndex_def f)
  ultimately show ?thesis using inv by (simp add: node_inv_def f)
qed

lemma core_reset_parts [simp]:
  "core (resetConfig_notify l t s) = core s" "core (resetConfig_seal env l s) = core s"
  "core (setObserverNodeList ns s) = core s" "core (setLeaderSwitchPeriod n s) = core s"
  by (simp_all add: resetConfig_notify_def resetConfig_seal_def setObserverNodeList_def setLeaderSwitchPeriod_def Let_def)

lemma resetConfig_same_nodes:
  assumes inv: "node_inv I env V True s" and l: "same_nodes l s" "0 \<le> lc_blockNumber l"
    and r: "resetConfig env' l t s = Some s'"
  shows "s' = s \<and> lc_blockNumber l \<le> committedIndex s \<or>
    node_inv I env V False s' \<and> committedIndex s' = lc_blockNumber l"
proof (cases "lc_blockNumber l \<le> committedIndex s \<and> committedIndex s > 0")
  case False
  let ?p = "createPBFTProposal (lc_blockNumber l) (lc_hash l)"
  let ?s1 = "setCommittedProposal ?p s"
  have "0 \<le> committedIndex s" using inv by (simp add: node_inv_def marks_ok_def)
  then have s1: "node_inv I env V False ?s1" "committedIndex ?s1 = lc_blockNumber l"
    using False l(2) node_inv_setCommittedProposal [OF inv, of ?p]
    by (auto simp: createPBFTProposal_def setCommittedProposal_def Let_def)
  have "compareConsensusNode (sort_nodes (lc_consensusNodeList l)) (m_consensusNodeList (?s1\<lparr>m_blockTxCountLimit := x\<rparr>))" for x
    using l(1) by (simp add: same_nodes_def setCommittedProposal_def Let_def)
  then have "core s' = core ?s1"
    using r False by (auto simp: resetConfig_def Let_def setConsensusNodeList_def consensus_setConsensusNodeList_def split: if_splits)
  then show ?thesis using s1 node_inv_core core_committed by metis
qed (use r in \<open>simp add: resetConfig_def\<close>)

lemma node_inv_removeConsensusedCache:
  assumes inv: "node_inv I env V b s" and i: "\<not> b \<Longrightarrow> committedIndex s = i" "i \<le> committedIndex s"
  shows "node_inv I env V True (removeConsensusedCache v i s)"
proof -
  let ?ks = "filter (\<lambda>(j, k). \<not> j \<le> i) (m_caches s)"
  have sorted: "sorted_wrt (<) (map fst ?ks)"
    using inv by (auto simp: node_inv_def sorted_wrt_map intro: sorted_wrt_filter)
  have "votes_locked (s\<lparr>m_caches := ?ks\<rparr>)"
    using inv i by (fastforce simp: node_inv_def votes_locked_def locked_def)
  then have "node_inv I env V True (s\<lparr>m_caches := ?ks\<rparr>)" using inv i sorted by (cases b) (auto simp: node_inv_def)
  moreover have "core (s\<lparr>m_proposalsToStableConsensus := x, m_caches := ?ks\<rparr>) = core (s\<lparr>m_caches := ?ks\<rparr>)" for x
    by (simp add: core_def commits_def decided_def)
  ultimately show ?thesis by (elim node_inv_core [rotated]) (simp add: removeConsensusedCache_def Let_def)
qed

lemma committed_apply_stable:
  "committedIndex (proc_checkAndCommitStableCheckPoint s) = committedIndex s"
  "committedIndex (snd (tryToApplyCommitQueue env s)) = committedIndex s"
proof -
  obtain ps ks where l: "stable_checkpoint_loop s (m_caches s) = (ps, ks)" by fastforce
  have "core (proc_checkAndCommitStableCheckPoint s) = core (s\<lparr>m_caches := ks\<rparr>)"
    by (simp add: proc_checkAndCommitStableCheckPoint_def l core_fold updateStableCheckPointQueue_def)
  then show "committedIndex (proc_checkAndCommitStableCheckPoint s) = committedIndex s"
    using core_committed by fastforce
  have "committedIndex (notifyToSealNextBlock env s) = committedIndex s" by (rule core_committed) simp
  then show "committedIndex (snd (tryToApplyCommitQueue env s)) = committedIndex s"
    by (simp add: tryToApplyCommitQueue_def Let_def applyStateMachine_def timer_restart_def split: list.split option.split)
qed

lemma node_inv_finalizeConsensus:
  assumes inv: "node_inv I env V True s" and l: "same_nodes l s" "0 \<le> lc_blockNumber l"
    and f: "finalizeConsensus env l t s = Some s'"
  shows "node_inv I env V True s'"
proof -
  obtain s1 where r: "resetConfig env l t s = Some s1" using f by (auto simp: finalizeConsensus_def split: option.splits)
  obtain b where s1: "node_inv I env V b s1" "\<not> b \<Longrightarrow> committedIndex s1 = lc_blockNumber l" "lc_blockNumber l \<le> committedIndex s1"
    using resetConfig_same_nodes [OF inv l r] inv by fastforce
  define s2 where "s2 = snd (tryToApplyCommitQueue env (proc_checkAndCommitStableCheckPoint s1))"
  have "node_inv I env V b s2" "committedIndex s2 = committedIndex s1" unfolding s2_def
    using s1(1) by (auto simp: committed_apply_stable intro: node_inv_snd_apply node_inv_proc_checkAndCommitStableCheckPoint)
  then have "node_inv I env V True (removeConsensusedCache (m_view s2) (lc_blockNumber l) s2)"
    using s1 by (intro node_inv_removeConsensusedCache) auto
  moreover have "s' = resetTimer env (tryToCommitStableCheckPoint (removeConsensusedCache (m_view s2) (lc_blockNumber l) s2))"
    using f by (simp add: finalizeConsensus_def r Let_def s2_def split: prod.splits)
  ultimately show ?thesis by (auto intro: node_inv_core [rotated])
qed

section \<open>Steps\<close>

definition admissible :: "seen_votes \<Rightarrow> any_message \<Rightarrow> bool" where
  "admissible V a =
     (case a of
        Msg m \<Rightarrow>
          (packetType m = PreparePacket \<longrightarrow> map_option p_hash (consensusProposal m) = Some (hash m)) \<and>
          (packetType m = CommitPacket \<longrightarrow> V (generatedFrom m) (index m) (hash m))
      | _ \<Rightarrow> True)"

inductive node_step :: "pbft_env \<Rightarrow> seen_votes \<Rightarrow> 'z processor \<Rightarrow> 'z processor \<Rightarrow> bool" for env V s where
  step_message: "admissible V a \<Longrightarrow> node_step env V s (snd (executeWorker env (Some a) s))"
| step_verified: "plain m \<Longrightarrow> node_step env V s (onVerifyFinished env m g False True s)"
| step_rejected: "node_step env V s (onVerifyFinished env m g True r s)"
| step_proposal: "node_step env V s (onRecvProposal env False data i h s)"
| step_precommit_data: "node_step env V s (snd (handlePrePrepareMsg env m True True False s))"
| step_timeout: "node_step env V s (onTimeout env s)"
| step_fast: "node_step env V s (onFastViewChange env s)"
| step_block: "same_nodes l s \<Longrightarrow> 0 \<le> lc_blockNumber l \<Longrightarrow> finalizeConsensus env l t s = Some s' \<Longrightarrow> node_step env V s s'"
| step_applied: "p_index executed = p_index p \<Longrightarrow> node_step env V s (onApplied env p executed s)"
| step_failed: "Apply l p \<in> set (sent s) \<Longrightarrow> node_step env V s (onProposalApplyFailed env p s)"
| step_sealing: "node_step env V s (on_sealing_reset env cons i s)"
| step_hook: "node_step env V s (notifySealer env i e s)"
| step_unsealed: "node_step env V s (setUnSealedTxsSize n s)"
| step_reset: "node_step env V s (resetUnCommittedCacheState i s)"

lemma node_inv_handleMsg:
  assumes inv: "node_inv I env V True s" and a: "admissible V a" shows "node_inv I env V True (handleMsg env a s)"
proof (cases a)
  case (Msg m)
  have "node_inv I env V True (snd (handlePrePrepareMsg env m True False True s))"
    "node_inv I env V True (handleRecoverRequest env m s)"
    using inv by (auto intro: node_inv_core [rotated] core_handlePrePrepareMsg simp: handleRecoverRequest_def split: option.split)
  then show ?thesis
    using inv a node_inv_handlePrepareMsg [OF inv, of m] node_inv_handleCommitMsg [OF inv, of m]
      node_inv_handleCheckPointMsg [OF inv, of m] node_inv_handleRecoverResponse [OF inv, of m]
    by (simp add: handleMsg_def Msg admissible_def split: packet_type.split)
qed (simp_all add: handleMsg_def inv node_inv_handleViewChangeMsg node_inv_handleNewViewMsg)

lemma node_inv_executeWorker:
  assumes "node_inv I env V True s" "admissible V a" shows "node_inv I env V True (snd (executeWorker env (Some a) s))"
  using assms node_inv_handleMsg [OF assms] by (auto simp: executeWorker_def split: any_message.split)

lemma node_inv_onVerifyFinished:
  assumes inv: "node_inv I env V True s" and m: "\<not> e \<and> r \<Longrightarrow> plain m"
  shows "node_inv I env V True (onVerifyFinished env m g e r s)"
proof -
  define s1 where "s1 = emit (Reset_txs (proposal_data m) True False) s"
  have s1: "node_inv I env V True s1" using inv by (rule node_inv_core [rotated]) (simp add: s1_def)
  then have "node_inv I env V True (notifySealer env (index m) True s1)" by (rule node_inv_core [rotated]) simp
  then show ?thesis using inv m node_inv_handlePrePrepareMsg [OF s1]
    by (auto simp: onVerifyFinished_def Let_def s1_def [symmetric])
qed

lemma node_inv_onRecvProposal:
  assumes inv: "node_inv I env V True s" shows "node_inv I env V True (onRecvProposal env False data i h s)"
proof -
  define m where "m = populateFrom_proposal PrePreparePacket
    ((createPBFTProposal i h)\<lparr>p_data := data, p_sealerId := m_nodeIndex s, p_systemProposal := False\<rparr>) (m_view s) (m_nodeIndex s)"
  obtain r s1 where p: "handlePrePrepareMsg env m False False False s = (r, s1)" by fastforce
  have "plain m" "packetType m = PrePreparePacket" by (auto simp: m_def populateFrom_proposal_def plain_def createPBFTProposal_def)
  then have "node_inv I env V True s1" "node_inv I env V True (emit (Broadcast m) s1)" "node_inv I env V True (resetSealedTxs m s1)"
    using node_inv_handlePrePrepareMsg [OF inv, of m False False] p
    by (auto intro: node_inv_core [rotated] simp: resetSealedTxs_def)
  moreover have "node_inv I env V True (emit (Reset_txs data False True) (notifyResetSealing (Some (committedIndex s + 1)) s))"
    using inv by (rule node_inv_core [rotated]) simp
  ultimately show ?thesis using inv by (auto simp: onRecvProposal_def Let_def m_def [symmetric] p)
qed

theorem node_inv_step:
  assumes step: "node_step env V s s'" and inv: "node_inv I env V True s" shows "node_inv I env V True s'"
  using step
proof cases
  case (step_verified m g)
  then show ?thesis using node_inv_onVerifyFinished [OF inv, of False True m g] by simp
next
  case (step_rejected m g r)
  then show ?thesis using node_inv_onVerifyFinished [OF inv, of True r m g] by simp
qed (use inv in \<open>auto intro: node_inv_executeWorker node_inv_onRecvProposal node_inv_onTimeout node_inv_onFastViewChange
    node_inv_finalizeConsensus node_inv_onApplied node_inv_onProposalApplyFailed node_inv_resetUnCommittedCacheState
    node_inv_core [rotated] core_handlePrePrepareMsg\<close>)

section \<open>Networks\<close>

type_synonym 'z network = "u64 \<Rightarrow> 'z processor"

text \<open>The commit votes a node can receive: any in the name of a faulty node, else those that were sent.\<close>

definition net_votes :: "u64 set \<Rightarrow> 'z network \<Rightarrow> seen_votes" where
  "net_votes C net j i h \<longleftrightarrow> (j \<in> C \<longrightarrow> (\<exists>m\<in>commits (net j). index m = i \<and> hash m = h))"

definition initial_node :: "pbft_env \<Rightarrow> consensus_node list \<Rightarrow> u64 \<Rightarrow> 'z processor \<Rightarrow> bool" where
  "initial_node env ns n s \<longleftrightarrow> m_consensusNodeList s = ns \<and> m_nodeIndex s = n \<and> quorum_ok s \<and> own_key env s \<and> marks_ok s \<and>
     m_caches s = [] \<and> m_committedQueue s = [] \<and> sent s = []"

text \<open>The faulty nodes weigh at most the number of faults that \<^const>\<open>updateQuorum\<close> allows.\<close>

definition faulty_weight :: "consensus_node list \<Rightarrow> u64 set \<Rightarrow> nat" where
  "faulty_weight ns C = (\<Sum>i\<in>{i. i < length ns \<and> of_nat i \<notin> C}. unat (weight (ns ! i)))"

definition initial_net :: "(u64 \<Rightarrow> pbft_env) \<Rightarrow> u64 set \<Rightarrow> consensus_node list \<Rightarrow> 'z network \<Rightarrow> bool" where
  "initial_net env C ns net \<longleftrightarrow> length ns < 2 ^ 64 \<and>
     (\<forall>n\<in>C. initial_node (env n) ns n (net n) \<and> faulty_weight ns C \<le> unat (m_maxFaultyQuorum (net n)))"

inductive net_reachable :: "(u64 \<Rightarrow> pbft_env) \<Rightarrow> u64 set \<Rightarrow> 'z network \<Rightarrow> 'z network \<Rightarrow> bool" for env C net0 where
  net_start: "net_reachable env C net0 net0"
| net_step: "net_reachable env C net0 net \<Longrightarrow> n \<in> C \<Longrightarrow> node_step (env n) (net_votes C net) (net n) s' \<Longrightarrow>
    net_reachable env C net0 (net(n := s'))"

definition net_inv :: "(u64 \<Rightarrow> pbft_env) \<Rightarrow> u64 set \<Rightarrow> consensus_node list \<Rightarrow> 'z network \<Rightarrow> bool" where
  "net_inv env C ns net \<longleftrightarrow> (\<forall>n\<in>C. node_inv (ns, n, {}) (env n) (net_votes C net) True (net n))"

lemma initial_net_inv: "initial_net env C ns net \<Longrightarrow> net_inv env C ns net"
  by (auto simp: initial_net_def initial_node_def net_inv_def node_inv_def same_node_def votes_once_def votes_locked_def
      commits_def decided_def)

lemma net_inv_step:
  assumes inv: "net_inv env C ns net" and n: "n \<in> C" and step: "node_step (env n) (net_votes C net) (net n) s'"
  shows "net_inv env C ns (net(n := s'))"
proof -
  have "node_inv (ns, n, {}) (env n) (net_votes C net) True (net n)" using inv n by (simp add: net_inv_def)
  then have "node_inv (ns, n, commits (net n)) (env n) (net_votes C net) True (net n)" by (simp add: node_inv_def same_node_def)
  then have s': "node_inv (ns, n, commits (net n)) (env n) (net_votes C net) True s'" by (rule node_inv_step [OF step])
  then have "commits (net n) \<subseteq> commits s'" by (simp add: node_inv_def same_node_def)
  then have mono: "net_votes C net j i h \<Longrightarrow> net_votes C (net(n := s')) j i h" for j i h by (auto simp: net_votes_def)
  have s'': "node_inv (ns, n, {}) (env n) (net_votes C net) True s'" using s' by (simp add: node_inv_def same_node_def)
  show ?thesis unfolding net_inv_def
  proof
    fix k assume "k \<in> C"
    then have "node_inv (ns, k, {}) (env k) (net_votes C net) True ((net(n := s')) k)"
      using s'' inv by (simp add: net_inv_def)
    then show "node_inv (ns, k, {}) (env k) (net_votes C (net(n := s'))) True ((net(n := s')) k)"
      using mono by (rule_tac node_inv_mono)
  qed
qed

lemma net_inv_reachable:
  assumes "net_reachable env C net0 net" "initial_net env C ns net0" shows "net_inv env C ns net"
  using assms by (induction rule: net_reachable.induct) (auto intro: initial_net_inv net_inv_step)

lemma net_known:
  assumes "net_inv env C ns net" "n \<in> C" "known (net_votes C net) (net n) j i h" "j \<in> C"
  shows "\<exists>m\<in>commits (net j). index m = i \<and> hash m = h"
  using assms by (auto simp: net_inv_def node_inv_def same_node_def known_def net_votes_def)

lemma quorum_ok_same_nodes:
  assumes "quorum_ok s" "quorum_ok t" "m_consensusNodeList s = m_consensusNodeList t"
  shows "unat (m_minRequiredQuorum s) = unat (m_minRequiredQuorum t)"
    "unat (m_maxFaultyQuorum s) = unat (m_maxFaultyQuorum t)" "node_weight s = node_weight t"
  using assms by (simp_all add: quorum_ok_def total_weight_def node_weight_def fun_eq_iff)

lemma net_inv_node:
  "net_inv env C ns net \<Longrightarrow> n \<in> C \<Longrightarrow>
   m_consensusNodeList (net n) = ns \<and> m_nodeIndex (net n) = n \<and> quorum_ok (net n) \<and> votes_once (commits (net n))"
  by (simp add: net_inv_def node_inv_def same_node_def)

text \<open>The quorums behind two decisions share a correct node, and this node votes only once.\<close>

lemma certified_agree:
  assumes init: "initial_net env C ns net0" and inv: "net_inv env C ns net" and C: "a \<in> C" "b \<in> C"
    and p: "certified (net_votes C net) (net a) p" and q: "certified (net_votes C net) (net b) q"
    and i: "p_index p = p_index q"
  shows "p_hash p = p_hash q"
proof -
  note na = net_inv_node [OF inv C(1)] and nb = net_inv_node [OF inv C(2)]
  obtain P where P: "P \<subseteq> {..<length ns}" "unat (m_minRequiredQuorum (net a)) \<le> (\<Sum>j\<in>P. node_weight (net a) j)"
    "\<And>j. unat j \<in> P \<Longrightarrow> known (net_votes C net) (net a) j (p_index p) (p_hash p)"
    using p na by (auto simp: certified_def)
  obtain Q where Q: "Q \<subseteq> {..<length ns}" "unat (m_minRequiredQuorum (net b)) \<le> (\<Sum>j\<in>Q. node_weight (net b) j)"
    "\<And>j. unat j \<in> Q \<Longrightarrow> known (net_votes C net) (net b) j (p_index q) (p_hash q)"
    using q nb by (auto simp: certified_def)
  let ?B = "{i. i < length ns \<and> of_nat i \<notin> C}"
  have i0: "initial_node (env a) ns a (net0 a)" "faulty_weight ns C \<le> unat (m_maxFaultyQuorum (net0 a))"
    using init C by (auto simp: initial_net_def)
  then have "faulty_weight ns C \<le> unat (m_maxFaultyQuorum (net a))"
    using na quorum_ok_same_nodes(2) [of "net a" "net0 a"] by (simp add: initial_node_def)
  then have B: "(\<Sum>j\<in>?B. node_weight (net a) j) \<le> unat (m_maxFaultyQuorum (net a))"
    using na by (simp add: faulty_weight_def node_weight_def)
  have Q': "unat (m_minRequiredQuorum (net a)) \<le> (\<Sum>j\<in>Q. node_weight (net a) j)"
    using Q(2) quorum_ok_same_nodes [of "net a" "net b"] na nb by simp
  obtain k where k: "k \<in> P" "k \<in> Q" "k \<notin> ?B"
    using pbft_quorum.quorums_overlap [of "net a" P Q ?B] P Q Q' B na by auto
  then have "k < length ns" using P(1) by auto
  then have "of_nat k \<in> C" "unat (of_nat k :: u64) = k"
    using k(3) init by (auto simp: initial_net_def unat_of_nat take_bit_nat_eq_self_iff take_bit_eq_mod)
  then obtain m m' where "m \<in> commits (net (of_nat k))" "index m = p_index p" "hash m = p_hash p"
    "m' \<in> commits (net (of_nat k))" "index m' = p_index q" "hash m' = p_hash q"
    using net_known [OF inv C(1) P(3)] net_known [OF inv C(2) Q(3)] k by metis
  then show ?thesis using net_inv_node [OF inv \<open>of_nat k \<in> C\<close>] i by (metis votes_once_def)
qed

lemma decided_certified:
  "net_inv env C ns net \<Longrightarrow> n \<in> C \<Longrightarrow> p \<in> decided (net n) \<Longrightarrow> certified (net_votes C net) (net n) p"
  by (simp add: net_inv_def node_inv_def)

end
