(* ===== verification/Pbft_Example.thy ===== *)
theory Pbft_Example
  imports Pbft_Agreement
begin

text \<open>A run of two consensus nodes that agree on a proposal, for the witnesses.\<close>

definition example_nodes :: "consensus_node list" where
  "example_nodes = [\<lparr>nodeID = [1], weight = 1\<rparr>, \<lparr>nodeID = [2], weight = 1\<rparr>]"

definition example_env :: "u64 \<Rightarrow> pbft_env" where
  "example_env n =
     \<lparr>verify = (\<lambda>k h sig. sig = k), sign = (\<lambda>h. [if n = 0 then 1 else 2]), faultyDiscriminator = (\<lambda>k. False),
      resettingProposalSize = 0, generateEmptyProposal = (\<lambda>i n. createPBFTProposal i 0)\<rparr>"

definition example_node :: "consensus_node list \<Rightarrow> u64 \<Rightarrow> pbft_processor" where
  "example_node ns n = updateQuorum
     \<lparr>m_publicKey = [if n = 0 then 1 else 2], m_nodeIndex = n, m_consensusNodeNum = of_nat (length ns), m_consensusNodeList = ns,
      m_consensusNodeListUpdated = False, m_observerNodeList = [], m_observerNodeListUpdated = False,
      m_blockTxCountLimit = 1000, m_committedProposal = createPBFTProposal 0 0, m_progressedIndex = 1,
      m_syncingState = False, m_syncingHighestNumber = 0, m_asMasterNode = True, m_compatibilityVersion = 0,
      m_totalQuorum = 0, m_maxFaultyQuorum = 0, m_minRequiredQuorum = 0, m_view = 0, m_toView = 0,
      m_expectedCheckPoint = 1, m_lowWaterMark = 1, m_sealStartIndex = 0, m_sealEndIndex = 0, m_waterMarkLimit = 10,
      m_leaderSwitchPeriod = 1, m_timeoutState = False, m_unsealedTxsSize = 0, m_waitResealUntil = 0, m_waitSealUntil = 0,
      m_connectedNodeList = [], m_startRecovered = True, timer_running = False, m_changeCycle = 0, sent = [],
      m_caches = [], m_viewChangeCache = [], m_viewChangeWeight = Map.empty, m_maxCommittedIndex = Map.empty,
      m_maxPrecommitIndex = Map.empty, m_newViewGenerated = False, m_committedQueue = [], m_executingProposals = [],
      m_committedProposalList = [], m_proposalsToStableConsensus = [], m_stableCheckPointQueue = [],
      m_recoverReqCache = [], m_recoverCacheWeight = [], m_maxNotifyIndex = 0\<rparr>"

definition example_start :: "u64 \<Rightarrow> pbft_processor" where
  "example_start n = example_node example_nodes n"

definition example_proposal :: pbft_proposal where
  "example_proposal = (createPBFTProposal 1 5)\<lparr>p_data := [7], p_sealerId := 1\<rparr>"

text \<open>The messages as they arrive, with the signature of the sender.\<close>

definition example_vote :: "packet_type \<Rightarrow> u64 \<Rightarrow> pbft_message" where
  "example_vote type n =
     (populateFrom_signed (example_env n) type 0 n example_proposal)\<lparr>signatureData := [if n = 0 then 1 else 2]\<rparr>"

definition example_leader1 :: pbft_processor where
  "example_leader1 = onRecvProposal (example_env 1) False [7] 1 5 (example_start 1)"

definition example_replica1 :: pbft_processor where
  "example_replica1 = onVerifyFinished (example_env 0) (populateFrom_proposal PrePreparePacket example_proposal 0 1)
     False False True (example_start 0)"

definition example_leader2 :: pbft_processor where
  "example_leader2 = snd (executeWorker (example_env 1) (Some (Msg (example_vote PreparePacket 0))) example_leader1)"

definition example_replica2 :: pbft_processor where
  "example_replica2 = snd (executeWorker (example_env 0) (Some (Msg (example_vote PreparePacket 1))) example_replica1)"

definition example_leader3 :: pbft_processor where
  "example_leader3 = snd (executeWorker (example_env 1) (Some (Msg (example_vote CommitPacket 0))) example_leader2)"

definition example_replica3 :: pbft_processor where
  "example_replica3 = snd (executeWorker (example_env 0) (Some (Msg (example_vote CommitPacket 1))) example_replica2)"


section \<open>The example run\<close>

lemma example_initial: "initial_net example_env {0, 1} example_nodes example_start"
proof -
  have "faulty_weight example_nodes {0, 1} = 0"
    by (auto simp: faulty_weight_def example_nodes_def less_Suc_eq numeral_2_eq_2)
  moreover have "quorum_ok (example_start n)" for n
    unfolding example_start_def example_node_def
    by (rule updateQuorum_ok) (simp_all add: total_weight_sum_list example_nodes_def)
  ultimately show ?thesis
    by (auto simp: initial_net_def initial_node_def own_key_def marks_ok_def getConsensusNodeByIndex_def example_start_def
        example_node_def example_nodes_def updateQuorum_def Let_def example_env_def createPBFTProposal_def)
qed

definition example_net :: "pbft_processor \<Rightarrow> pbft_processor \<Rightarrow> u64 \<Rightarrow> pbft_processor" where
  "example_net replica leader n = (if n = 0 then replica else if n = 1 then leader else example_start n)"

lemma example_net_upd:
  "(example_net r l)(0 := r') = example_net r' l" "(example_net r l)(1 := l') = example_net r l'"
  by (auto simp: example_net_def)

lemma example_net_at [simp]: "example_net r l 0 = r" "example_net r l 1 = l"
  by (simp_all add: example_net_def)

lemma example_proposal_plain: "plain (populateFrom_proposal PrePreparePacket example_proposal 0 1)"
  by (simp add: plain_def populateFrom_proposal_def example_proposal_def createPBFTProposal_def)

definition commit_hashes :: "pbft_event list \<Rightarrow> (int \<times> hash) list" where
  "commit_hashes es =
     concat (map (\<lambda>e. case e of Broadcast m \<Rightarrow> if packetType m = CommitPacket then [(index m, hash m)] else [] | _ \<Rightarrow> []) es)"

definition decisions :: "pbft_event list \<Rightarrow> (int \<times> hash) list" where
  "decisions es = concat (map (\<lambda>e. case e of Pre_apply p \<Rightarrow> [(p_index p, p_hash p)] | _ \<Rightarrow> []) es)"

lemma commit_hashes_iff: "(i, h) \<in> set (commit_hashes (sent s)) \<longleftrightarrow> (\<exists>m\<in>commits s. index m = i \<and> hash m = h)"
  by (force simp: commit_hashes_def commits_def split: pbft_event.splits if_splits)

lemma decisions_decided: "(i, h) \<in> set (decisions (sent s)) \<Longrightarrow> \<exists>p\<in>decided s. p_index p = i \<and> p_hash p = h"
  by (force simp: decisions_def decided_def split: pbft_event.splits if_splits)

lemma example_commits:
  "commit_hashes (sent example_leader3) = [(1, 5)]" "commit_hashes (sent example_replica2) = [(1, 5)]"
  by code_simp+

lemma example_decisions:
  "decisions (sent example_leader3) = [(1, 5)]" "decisions (sent example_replica3) = [(1, 5)]"
  by code_simp+

lemma example_admissible: "admissible V (Msg (example_vote PreparePacket n))"
  by (simp add: admissible_def example_vote_def populateFrom_signed_def Let_def createPBFTProposal_def example_proposal_def)

lemma example_net_start: "example_net (example_start 0) (example_start 1) = example_start"
  by (auto simp: example_net_def)

lemma example_steps:
  assumes "net_reachable env {0, 1} net0 (example_net r l)"
  shows "node_step (env 0) (net_votes {0, 1} (example_net r l)) r r' \<Longrightarrow> net_reachable env {0, 1} net0 (example_net r' l)"
    "node_step (env 1) (net_votes {0, 1} (example_net r l)) l l' \<Longrightarrow> net_reachable env {0, 1} net0 (example_net r l')"
  using net_step [OF assms, of 0 r'] net_step [OF assms, of 1 l'] by (simp_all add: example_net_upd)

lemma example_reachable2:
  "net_reachable example_env {0, 1} example_start (example_net example_replica2 example_leader2)"
proof -
  let ?R = "net_reachable example_env {0, 1} example_start"
  have "?R (example_net (example_start 0) (example_start 1))" unfolding example_net_start by (rule net_start)
  then have "?R (example_net (example_start 0) example_leader1)"
    by (rule example_steps(2)) (simp add: example_leader1_def step_proposal)
  then have "?R (example_net example_replica1 example_leader1)"
    by (rule example_steps(1)) (simp add: example_replica1_def step_verified example_proposal_plain)
  then have "?R (example_net example_replica1 example_leader2)"
    by (rule example_steps(2)) (simp add: example_leader2_def step_message example_admissible)
  then show ?thesis
    by (rule example_steps(1)) (simp add: example_replica2_def step_message example_admissible)
qed

lemma example_commit_admissible:
  "net_votes {0, 1} net n 1 5 \<Longrightarrow> admissible (net_votes {0, 1} net) (Msg (example_vote CommitPacket n))"
  by (simp add: admissible_def example_vote_def populateFrom_signed_def Let_def createPBFTProposal_def example_proposal_def)

lemma example_votes:
  "net_votes {0, 1} (example_net example_replica2 l) 0 1 5" "net_votes {0, 1} (example_net r example_leader3) 1 1 5"
  using example_commits commit_hashes_iff [of 1 5 example_replica2] commit_hashes_iff [of 1 5 example_leader3]
  by (simp_all add: net_votes_def)

lemma example_reachable:
  "net_reachable example_env {0, 1} example_start (example_net example_replica3 example_leader3)"
proof -
  let ?R = "net_reachable example_env {0, 1} example_start"
  have "?R (example_net example_replica2 example_leader3)"
    by (rule example_steps(2) [OF example_reachable2])
      (simp add: example_leader3_def step_message example_commit_admissible example_votes)
  then show ?thesis
    by (rule example_steps(1)) (simp add: example_replica3_def step_message example_commit_admissible example_votes)
qed

end
