(* ===== verification/Pbft_Props.thy ===== *)
theory Pbft_Props
  imports Pbft_Example
begin

text \<open>
  The properties of runs of the consensus module. The runs are those of \<^const>\<open>net_reachable\<close>: the list of
  consensus nodes is fixed, no proposal changes the system configuration, no node takes over the log of
  another one, messages name the hash of the proposal they carry, and a commit vote in the name of a
  correct node is one it has broadcast. Faulty nodes send anything else at any time.
\<close>

section \<open>Agreement\<close>





text \<open>
  What a correct node hands to execution has a quorum of commit votes: every correct node of the
  quorum has broadcast a commit vote for this hash at this index.
\<close>

theorem pbft_decision_has_quorum:
  assumes "initial_net env C ns net0" "net_reachable env C net0 net" "n \<in> C" "p \<in> decided (net n)"
  shows "\<exists>Q \<subseteq> {..<length ns}. unat (m_minRequiredQuorum (net n)) \<le> (\<Sum>j\<in>Q. unat (weight (ns ! j))) \<and>
    (\<forall>j\<in>C. unat j \<in> Q \<longrightarrow> (\<exists>m. Broadcast m \<in> set (sent (net j)) \<and> packetType m = CommitPacket \<and>
      index m = p_index p \<and> hash m = p_hash p))"
proof -
  have inv: "net_inv env C ns net" by (rule net_inv_reachable [OF assms(2,1)])
  note ns = net_inv_node [OF inv assms(3)]
  obtain Q where Q: "Q \<subseteq> {..<length ns}" "unat (m_minRequiredQuorum (net n)) \<le> (\<Sum>j\<in>Q. node_weight (net n) j)"
    "\<And>j. unat j \<in> Q \<Longrightarrow> known (net_votes C net) (net n) j (p_index p) (p_hash p)"
    using decided_certified [OF inv assms(3,4)] ns by (auto simp: certified_def)
  then show ?thesis using net_known [OF inv assms(3) Q(3)] ns
    by (intro exI [of _ Q]) (force simp: commits_def node_weight_def)
qed

theorem pbft_decision_has_quorum_witness:
  "\<exists>Q \<subseteq> {..<length example_nodes}. 2 \<le> (\<Sum>j\<in>Q. unat (weight (example_nodes ! j)))"
proof -
  obtain p where p: "p \<in> decided example_leader3"
    using decisions_decided [of 1 5 example_leader3] example_decisions by auto
  have q: "unat (m_minRequiredQuorum example_leader3) = 2" by code_simp
  show ?thesis
    using pbft_decision_has_quorum [OF example_initial example_reachable, of 1 p] p unfolding example_net_at q by blast
qed

section \<open>Votes and certificates\<close>








text \<open>
  (C5) Quorums: after \<^const>\<open>updateQuorum\<close>, two sets of nodes that reach the required weight share a
  node outside every set within the tolerated weight, and the nodes outside such a set reach the
  required weight.
\<close>

theorem pbft_quorums:
  assumes "0 < total_weight c" "total_weight c < 2 ^ 64"
    and "P \<subseteq> {..<length (m_consensusNodeList c)}" "Q \<subseteq> {..<length (m_consensusNodeList c)}"
    and "unat (m_minRequiredQuorum (updateQuorum c)) \<le> (\<Sum>i\<in>P. node_weight c i)"
    and "unat (m_minRequiredQuorum (updateQuorum c)) \<le> (\<Sum>i\<in>Q. node_weight c i)"
    and "B \<subseteq> {..<length (m_consensusNodeList c)}" "(\<Sum>i\<in>B. node_weight c i) \<le> unat (m_maxFaultyQuorum (updateQuorum c))"
  shows "(\<exists>i. i \<in> P \<and> i \<in> Q \<and> i \<notin> B) \<and>
    unat (m_minRequiredQuorum (updateQuorum c)) \<le> (\<Sum>i\<in>{..<length (m_consensusNodeList c)} - B. node_weight c i)"
proof -
  have "quorum_ok (updateQuorum c)" by (rule updateQuorum_ok [OF assms(1,2)])
  moreover have "m_consensusNodeList (updateQuorum c) = m_consensusNodeList c" "node_weight (updateQuorum c) = node_weight c"
    by (simp_all add: updateQuorum_def Let_def node_weight_def fun_eq_iff)
  ultimately show ?thesis
    using pbft_quorum.quorums_overlap [of "updateQuorum c" P Q B] pbft_quorum.correct_nodes_suffice [of "updateQuorum c" B] assms
    by simp
qed

definition example_four :: "unit processor" where
  "example_four = example_node (replicate 4 \<lparr>nodeID = [], weight = 1\<rparr>) 0"

theorem pbft_quorums_witness:
  "m_minRequiredQuorum (updateQuorum example_four) = 3 \<and> m_maxFaultyQuorum (updateQuorum example_four) = 1 \<and>
   (\<exists>i :: nat. i \<in> {0, 1, 2} \<and> i \<in> {1, 2, 3} \<and> i \<notin> {1}) \<and>
   unat (m_minRequiredQuorum (updateQuorum example_four)) \<le>
     (\<Sum>i\<in>{..<length (m_consensusNodeList example_four)} - {1}. node_weight example_four i)"
proof -
  let ?c = example_four
  have q: "m_minRequiredQuorum (updateQuorum ?c) = 3" "m_maxFaultyQuorum (updateQuorum ?c) = 1" by code_simp+
  have ns: "m_consensusNodeList ?c = replicate 4 \<lparr>nodeID = [], weight = 1\<rparr>"
    by (simp add: example_four_def example_node_def updateQuorum_def Let_def)
  have t: "total_weight ?c = 4" by (simp add: total_weight_sum_list ns sum_list_replicate)
  have w: "node_weight ?c i = 1" if "i < 4" for i using that by (simp add: node_weight_def ns)
  have sums: "(\<Sum>i\<in>{0, 1, 2}. node_weight ?c i) = 3" "(\<Sum>i\<in>{1, 2, 3}. node_weight ?c i) = 3" "(\<Sum>i\<in>{1}. node_weight ?c i) = 1"
    by (simp_all add: w)
  show ?thesis
    using pbft_quorums [of ?c "{0, 1, 2}" "{1, 2, 3}" "{1}", unfolded sums q t] unfolding q by (simp add: ns)
qed

end
