(* ===== verification/Pbft_Behaviour.thy ===== *)
theory Pbft_Behaviour
  imports Pbft_Example
begin

text \<open>
  What single operations of the consensus module do: the view a node jumps to, the order of execution,
  and the inputs its checks let through although they should not.
\<close>

section \<open>Views and execution\<close>

text \<open>The views above the next one for which more than the tolerated weight of nodes asks.\<close>

definition jump_ready :: "'z processor \<Rightarrow> u64 \<Rightarrow> bool" where
  "jump_ready s v \<longleftrightarrow> m_toView s < v \<and>
     (case map_of (m_viewChangeCache s) v of None \<Rightarrow> False | Some l \<Rightarrow> m_maxFaultyQuorum s + 1 \<le> view_change_weight s l)"

lemma fast_view_loop_kept:
  "\<forall>(v, l)\<in>set vs. \<not> v < r \<and> r \<noteq> 0 \<Longrightarrow> fast_view_loop c vs (r, b) = (r, b)"
  by (induction c vs "(r, b)" rule: fast_view_loop.induct) auto

lemma fast_view_loop_least:
  assumes "sorted_wrt (<) (map fst vs)"
  shows "fast_view_loop c vs (0, False) =
    (case find (\<lambda>(v, l). m_toView c < v \<and> m_maxFaultyQuorum c + 1 \<le> view_change_weight c l) vs of
       None \<Rightarrow> (0, False) | Some (v, l) \<Rightarrow> (v, True))"
  using assms
proof (induction vs)
  case (Cons x vs)
  obtain v l where x: "x = (v, l)" by (cases x)
  show ?case
  proof (cases "m_toView c < v \<and> m_maxFaultyQuorum c + 1 \<le> view_change_weight c l")
    case True
    then have "v \<noteq> 0" by auto
    moreover have "\<not> w < v" if "(w, l') \<in> set vs" for w l' using Cons.prems x that by (force dest: less_imp_not_less)
    ultimately have "fast_view_loop c vs (v, True) = (v, True)" by (intro fast_view_loop_kept) auto
    then show ?thesis using True x by (auto simp: linorder_not_le [symmetric])
  next
    case False
    then show ?thesis using Cons x by (auto simp: linorder_not_le [symmetric])
  qed
qed simp

text \<open>
  (C6) A fast view change jumps to the least view above the next one for which more than the tolerated
  weight of nodes asks, and does nothing if there is none.
\<close>

theorem fast_view_change_least:
  assumes "sorted_wrt (<) (map fst (m_viewChangeCache s))" "tryToTriggerFastViewChange s = (v, s')"
  shows "if v = 0 then s' = s \<and> (\<forall>w. \<not> jump_ready s w)
    else jump_ready s v \<and> (\<forall>w<v. \<not> jump_ready s w) \<and> s' = s\<lparr>m_toView := v - 1\<rparr>"
proof -
  let ?P = "\<lambda>(v, l). m_toView s < v \<and> m_maxFaultyQuorum s + 1 \<le> view_change_weight s l"
  have ready: "jump_ready s w \<longleftrightarrow> (\<exists>l. (w, l) \<in> set (m_viewChangeCache s) \<and> ?P (w, l))" for w
    by (auto simp: jump_ready_def sorted_map_of [OF assms(1), symmetric] split: option.splits)
  show ?thesis
  proof (cases "find ?P (m_viewChangeCache s)")
    case None
    then have "\<not> jump_ready s w" for w unfolding ready by (auto simp: find_None_iff)
    then show ?thesis using assms None by (auto simp: tryToTriggerFastViewChange_def fast_view_loop_least)
  next
    case (Some x)
    obtain w l where x: "x = (w, l)" by (cases x)
    obtain i where i: "i < length (m_viewChangeCache s)" "m_viewChangeCache s ! i = (w, l)" "?P (w, l)"
      "\<And>j. j < i \<Longrightarrow> \<not> ?P (m_viewChangeCache s ! j)" using Some x by (auto simp: find_Some_iff)
    have "jump_ready s w" unfolding ready using i nth_mem by metis
    moreover have "\<not> jump_ready s u" if "u < w" for u
    proof
      assume "jump_ready s u"
      then obtain j l' where j: "j < length (m_viewChangeCache s)" "m_viewChangeCache s ! j = (u, l')" "?P (u, l')"
        unfolding ready by (metis in_set_conv_nth)
      moreover have "j < i"
      proof (rule ccontr)
        assume "\<not> j < i"
        then have "i = j \<or> i < j" by linarith
        then have "i = j \<or> map fst (m_viewChangeCache s) ! i < map fst (m_viewChangeCache s) ! j"
          using sorted_wrt_nth_less [OF assms(1), of i j] j(1) by auto
        then show False using that i(1,2) j(1,2) by auto
      qed
      ultimately show False using i(4) by metis
    qed
    moreover have w: "m_toView s < w" "\<not> w \<le> m_toView s" using i(3) by auto
    moreover have w0: "0 < w" using w(1) word_zero_le [of "m_toView s"] by (rule order.strict_trans1 [rotated])
    moreover from w0 have "w \<noteq> 0" by blast
    moreover have "(v, s') = (w, s\<lparr>m_toView := w - 1\<rparr>)"
      using assms(2) Some x w w0 by (auto simp: tryToTriggerFastViewChange_def fast_view_loop_least [OF assms(1)])
    ultimately show ?thesis by simp
  qed
qed

definition example_view_change :: "u64 \<Rightarrow> u64 \<Rightarrow> view_change" where
  "example_view_change v n =
     \<lparr>view = v, index = 0, hash = 0, generatedFrom = n, signatureDataHash = 0, signatureData = [if n = 0 then 1 else 2],
      from_node = None, vc_committedProposal = createPBFTProposal 0 0, preparedProposals = []\<rparr>"

theorem fast_view_change_least_witness:
  "let s = addViewChangeReq (example_view_change 7 1) (addViewChangeReq (example_view_change 4 1) (example_start 0))
   in jump_ready s 4 \<and> (\<forall>w<4. \<not> jump_ready s w) \<and> snd (tryToTriggerFastViewChange s) = s\<lparr>m_toView := 3\<rparr>"
proof -
  let ?s = "addViewChangeReq (example_view_change 7 1) (addViewChangeReq (example_view_change 4 1) (example_start 0))"
  have "sorted_wrt (<) (map fst (m_viewChangeCache ?s))" by code_simp
  moreover have v: "fst (tryToTriggerFastViewChange ?s) = 4" by code_simp
  ultimately show ?thesis
    using fast_view_change_least [of ?s 4 "snd (tryToTriggerFastViewChange ?s)"] prod.collapse [of "tryToTriggerFastViewChange ?s"]
    unfolding Let_def by simp
qed

text \<open>
  (C7) Proposals are executed in the order of their indexes: one that is handed to the state machine has
  the index of the expected checkpoint, comes after the checkpoint before it, and does not depend on a
  system proposal that is still to be committed.
\<close>

theorem executed_in_order:
  assumes "tryToApplyCommitQueue env s = (True, s')"
  shows "\<exists>l p. last (sent s') = Apply l p \<and> p \<in> set (m_committedQueue s) \<and> p_index p = m_expectedCheckPoint s \<and>
    getAppliedCheckPointProposal (p_index p - 1) s = Some l \<and>
    min (p_index p - 1) (m_waitSealUntil s) \<le> committedIndex s \<and>
    (p_hash p, p_index p) \<in> set (m_executingProposals s')"
proof -
  define s1 where "s1 = notifyToSealNextBlock env s"
  have f: "m_expectedCheckPoint s1 = m_expectedCheckPoint s" "m_executingProposals s1 = m_executingProposals s"
    by (simp_all add: s1_def notifyToSealNextBlock_def notifySealer_def asyncNotifySealProposal_def emit_def Let_def)
  have "core s1 = core s" by (simp add: s1_def)
  then have g: "m_committedQueue s1 = m_committedQueue s" "committedIndex s1 = committedIndex s"
    "m_waitSealUntil s1 = m_waitSealUntil s" "m_caches s1 = m_caches s" by (simp_all add: core_def)
  have h: "m_committedProposal s1 = m_committedProposal s"
    by (simp add: s1_def notifyToSealNextBlock_def notifySealer_def asyncNotifySealProposal_def emit_def Let_def)
  define s2 where "s2 = s1\<lparr>m_committedQueue := drop_below (m_expectedCheckPoint s1) (m_committedQueue s1)\<rparr>"
  have ins: "(k, x) \<in> set (map_insert k x m)" for k x and m :: "(hash \<times> int) list"
    by (induction k x m rule: map_insert.induct) auto
  have a: "getAppliedCheckPointProposal i (s1\<lparr>m_committedQueue := q\<rparr>) = getAppliedCheckPointProposal i s" for i q
    by (simp add: getAppliedCheckPointProposal_def g h cache_at_def)
  obtain p q l where pq: "m_committedQueue s2 = p # q" "p_index p = m_expectedCheckPoint s"
    "\<not> committedIndex s < min (p_index p - 1) (m_waitSealUntil s)" "getAppliedCheckPointProposal (p_index p - 1) s = Some l"
    "s' = applyStateMachine l p (s2\<lparr>m_committedQueue := q,
       m_executingProposals := map_insert (p_hash p) (p_index p) (m_executingProposals s2)\<rparr>)"
    using assms [unfolded tryToApplyCommitQueue_def Let_def, folded s1_def, folded s2_def]
    by (auto simp: a s2_def f g split: list.splits if_splits option.splits)
  have "p \<in> set (m_committedQueue s)"
    using pq(1) set_dropWhileD [of p] by (simp add: s2_def drop_below_def f g) (metis list.set_intros(1))
  then show ?thesis using pq(2-5) ins by (auto simp: applyStateMachine_def emit_def)
qed

theorem executed_in_order_witness:
  "\<exists>l p. last (sent (snd (tryToApplyCommitQueue (example_env 0) ((example_start 0)\<lparr>m_committedQueue := [example_proposal]\<rparr>)))) = Apply l p \<and>
     p_index p = m_expectedCheckPoint (example_start 0)"
proof -
  let ?s = "(example_start 0)\<lparr>m_committedQueue := [example_proposal]\<rparr>"
  have "fst (tryToApplyCommitQueue (example_env 0) ?s) = True" by code_simp
  then have "tryToApplyCommitQueue (example_env 0) ?s = (True, snd (tryToApplyCommitQueue (example_env 0) ?s))"
    by (metis prod.collapse)
  from executed_in_order [OF this] show ?thesis by auto
qed

section \<open>What the checks let through\<close>

lemma replicate_two: "replicate 2 x = [x, x]"
  by (simp add: numeral_2_eq_2)

lemma signature_weight_loop_eq: "signature_weight_loop env c h l w = precommit_weight_loop env c h l w"
  by (induction env c h l w rule: precommit_weight_loop.induct) (auto split: option.split)

text \<open>A signature is counted as often as it is listed.\<close>

lemma repeated_signature_weight:
  assumes "getConsensusNodeByIndex c j = Some n" "verify env (nodeID n) h sig"
  shows "precommit_weight_loop env c h (replicate r (j, sig)) w = Some (w + of_nat r * weight n)"
  using assms by (induction r arbitrary: w) (simp_all add: algebra_simps)

lemma repeated_weight_enough:
  assumes "unat q \<le> r * unat w" "r * unat w < 2 ^ 64"
  shows "(q :: u64) \<le> of_nat r * w"
proof -
  have "of_nat r * w = of_nat (r * unat w)" by simp
  then have "unat (of_nat r * w) = r * unat w" using assms(2) by (simp only: unat_of_nat) simp
  then show ?thesis using assms(1) by (simp add: word_le_nat_alt)
qed

text \<open>
  (C8) One consensus node can forge a pre-commit certificate: its own signature, listed often enough,
  is accepted as a quorum.
\<close>

theorem one_signer_forges_certificate:
  assumes "getConsensusNodeByIndex s j = Some n" "verify env (nodeID n) (p_hash p) sig"
    and "unat (m_minRequiredQuorum s) \<le> r * unat (weight n)" "r * unat (weight n) < 2 ^ 64"
    and "p_signatureProof p = replicate r (j, sig)" "consensusProposal m = Some p" "view m \<le> m_toView s"
  shows "checkPrecommitMsg env m s = (True, s)"
  using repeated_signature_weight [OF assms(1,2), of r 0] repeated_weight_enough [OF assms(3,4)] assms(5-7)
  by (simp add: checkPrecommitMsg_def checkPrecommitWeight_def linorder_not_less)

theorem one_signer_forges_certificate_witness:
  "checkPrecommitMsg (example_env 0)
     (populateFrom_proposal PrePreparePacket (example_proposal\<lparr>p_signatureProof := [(1, [2]), (1, [2])]\<rparr>) 0 1) (example_start 0) =
   (True, example_start 0)"
proof (rule one_signer_forges_certificate)
  show "getConsensusNodeByIndex (example_start 0) 1 = Some \<lparr>nodeID = [2], weight = 1\<rparr>"
    by (simp add: getConsensusNodeByIndex_def example_start_def example_node_def example_nodes_def updateQuorum_def Let_def)
  show "unat (m_minRequiredQuorum (example_start 0)) \<le> 2 * unat (weight \<lparr>nodeID = [2], weight = 1\<rparr>)"
    by (simp add: example_start_def example_node_def example_nodes_def updateQuorum_def Let_def)
qed (simp_all add: example_env_def populateFrom_proposal_def replicate_two example_start_def example_node_def updateQuorum_def Let_def)

text \<open>
  One consensus node can forge a block: its signature, listed often enough, is accepted as the
  signatures of a quorum. A block without transactions is accepted with no signature at all.
\<close>

theorem one_signer_forges_block:
  assumes "getConsensusNodeByIndex c j = Some n" "verify env (nodeID n) (b_hash b) sig"
    and "unat (m_minRequiredQuorum c) \<le> r * unat (weight n)" "r * unat (weight n) < 2 ^ 64"
    and "b_signatureList b = (if b_transactionsSize b = 0 then [] else replicate r (j, sig))"
    and "checkSealerListAndWeightList b c" "committedIndex c < b_number b"
  shows "asyncCheckBlock env b c"
  using repeated_signature_weight [OF assms(1,2), of r 0] repeated_weight_enough [OF assms(3,4)] assms(5-7)
  by (auto simp: asyncCheckBlock_def checkSignatureList_def signature_weight_loop_eq)

definition example_block :: "nat \<Rightarrow> (u64 \<times> bytes) list \<Rightarrow> block_header" where
  "example_block txs sigs =
     \<lparr>b_number = 1, b_hash = 9, b_sealer = 1, b_sealerList = [[1], [2]], b_consensusWeights = [1, 1],
      b_signatureList = sigs, b_transactionsSize = txs\<rparr>"

theorem one_signer_forges_block_witness:
  "asyncCheckBlock (example_env 0) (example_block 3 [(1, [2]), (1, [2])]) (example_start 0) \<and>
   asyncCheckBlock (example_env 0) (example_block 0 []) (example_start 0)"
proof -
  have n: "getConsensusNodeByIndex (example_start 0) 1 = Some \<lparr>nodeID = [2], weight = 1\<rparr>"
    by (simp add: getConsensusNodeByIndex_def example_start_def example_node_def example_nodes_def updateQuorum_def Let_def)
  have q: "unat (m_minRequiredQuorum (example_start 0)) \<le> 2 * unat (weight \<lparr>nodeID = [2], weight = 1\<rparr>)"
    by (simp add: example_start_def example_node_def example_nodes_def updateQuorum_def Let_def)
  have b: "checkSealerListAndWeightList (example_block t l) (example_start 0)" "committedIndex (example_start 0) < b_number (example_block t l)" for t l
    by (simp_all add: checkSealerListAndWeightList_def getConsensusNodeByIndex_def example_block_def example_start_def
        example_node_def example_nodes_def updateQuorum_def Let_def createPBFTProposal_def)
  show ?thesis
    using one_signer_forges_block [OF n _ q, of "example_env 0" "example_block 3 [(1, [2]), (1, [2])]" "[2]"]
      one_signer_forges_block [OF n _ q, of "example_env 0" "example_block 0 []" "[2]"] b
    by (simp add: example_env_def example_block_def replicate_two)
qed

text \<open>
  The packet type of a message is not protected by its signature: a prepare vote of a node, sent on
  as a commit vote, is counted as a commit vote of this node.
\<close>

theorem prepare_counts_as_commit:
  assumes "packetType m = PreparePacket" "fst (handlePrepareMsg env m s)" "view m \<le> MaxView"
  shows "handleMsg env (Msg (m\<lparr>packetType := CommitPacket\<rparr>)) s =
    proc_checkAndCommit env (addCommitReq (m\<lparr>packetType := CommitPacket\<rparr>) s)"
proof -
  let ?m = "m\<lparr>packetType := CommitPacket\<rparr>"
  have "checkPBFTMsg env ?m s = checkPBFTMsg env m s"
    by (simp add: checkPBFTMsg_def checkPBFTMsgState_def proc_existPrePrepare_def existPrePrepare_def
        proc_conflictWithProcessedReq_def conflictWithProcessedReq_def checkSignature_def verifySignature_def cong: option.case_cong)
  moreover have "checkPBFTMsg env m s \<noteq> INVALID" using assms(2) by (auto simp: handlePrepareMsg_def split: if_splits)
  ultimately show ?thesis using assms(3) by (simp add: handleMsg_def any_view_def handleCommitMsg_def linorder_not_less)
qed

theorem prepare_counts_as_commit_witness:
  "handleMsg (example_env 1) (Msg ((example_vote PreparePacket 0)\<lparr>packetType := CommitPacket\<rparr>)) example_leader1 =
   proc_checkAndCommit (example_env 1) (addCommitReq ((example_vote PreparePacket 0)\<lparr>packetType := CommitPacket\<rparr>) example_leader1)"
proof (rule prepare_counts_as_commit)
  show "fst (handlePrepareMsg (example_env 1) (example_vote PreparePacket 0) example_leader1)" by code_simp
  show "view (example_vote PreparePacket 0) \<le> MaxView" by code_simp
qed (simp add: example_vote_def populateFrom_signed_def Let_def)





text \<open>
  The proposal that the new leader takes from the view changes is not always one of the latest view: a
  later view of a proposal that is already selected is ignored, so that a proposal of a view in between
  replaces it.
\<close>

lemma latest_prepared_lost:
  assumes "index a = i" "index b = i" "index c = i" "committed \<le> i"
    and "hash a = h" "hash b = h" "hash c \<noteq> h" "view a < view c" "view c < view b"
  shows "map_option hash (collect_prepared committed from [a, b, c] Map.empty i) = Some (hash c)"
  using assms by simp

text \<open>
  A new view with a message that carries no proposal, or with a proposal that has no data, that the node
  does not know, and that names a sender outside the consensus nodes, makes the node dereference a null
  pointer.
\<close>

lemma rehandle_null_dereference:
  assumes "consensusProposal m = None \<or>
    proposal_data m = [] \<and> tryToFillProposal m s = None \<and> getConsensusNodeByIndex s (generatedFrom m) = None"
  shows "Null_dereference \<in> set (sent (snd (rehandle_loop env (m # ms) i s)))"
  using assms by (auto simp: emit_def Let_def)

end
