(* ===== verification/Spec2Isabelle.thy ===== *)
theory Spec2Isabelle
  imports Fs_Lock_Props Avl_Tree_Props Mmap_Props Scale_Props Pbft_Props Pbft_Behaviour
begin

text \<open>
  The repository runs smart contracts of a consortium blockchain with the help of trusted execution
  environments. It has two large parts: the blockchain node \<^verbatim>\<open>src/fisco-smart\<close>, C++, and the library
  operating system \<^verbatim>\<open>src/gramine\<close>, C, in which unmodified programs run inside an enclave. This
  development models, from each of them, the components whose correctness rests on their own algorithms
  rather than on the host: the consensus module and the binary codec of the node, and the file locks,
  the balanced trees, and the memory bookkeeping with its system calls of the library OS.

  \<^bold>\<open>How the code is modelled.\<close> Structs and classes are records, enums and tagged unions datatypes.
  Machine integers are words where their width matters (addresses, file positions, flags, sequence
  numbers, views, weights, loop counters); block numbers are unbounded. An operation is a
  function on the state of its component with the guards and early returns of the source; an operation
  that runs under a lock is one step. Error codes are returned as the source returns them, exceptions are
  values of a sum or option type, and a crash - a null pointer, undefined behaviour - is a value of its
  own. Whether an allocation succeeds is decided by a list of outcomes in the state. Code outside the
  repository or outside the modelled components is a parameter in a record of functions
  (\<open>lock_env\<close>, \<open>vma_env\<close>, \<open>mm_env\<close>, \<open>scale_env\<close>, \<open>pbft_env\<close>), and what is assumed of it is a hypothesis
  (\<open>mm_env_ok\<close>, \<open>scale_env_ok\<close>). Logging is left out.

  \<^bold>\<open>File locks\<close>, \<^verbatim>\<open>gramine/libos/src/fs/libos_fs_lock.c\<close>. \<open>Posix_Lock\<close> has the list of locks of a file:
  the search for conflicts and \<open>do_posix_lock_set\<close> with its splitting and merging, shown to be an update of
  the map from process and byte to lock type; the locale \<open>lock_table\<close> is this contract and is interpreted
  on the list. \<open>Fs_Lock\<close> has the layer above it: lock objects and their references, pending requests,
  notifications, the calls of the leader and of clients, and the IPC handlers, with the inductive
  relation of their steps. \<open>Fs_Lock_Props\<close> shows that write locks exclude, that no request that could be
  granted stays pending, that requests are answered once, that the exit of a process releases everything,
  and in which interleavings a notification reads fields that are not yet assigned. Path lookup, event
  creation and the transport of IPC messages are parameters.

  \<^bold>\<open>AVL trees\<close>, \<^verbatim>\<open>gramine/common/src/avl_tree.c\<close>. \<open>Avl_Tree\<close> models nodes with balance fields and a path to
  the root in place of parent pointers, the rotations, insertion, deletion, replacement, neighbours and
  searches; an assertion that fails gives \<open>None\<close>. The locales \<open>tree_order\<close> and \<open>sorted_tree\<close> state what a
  comparison and a tree promise. \<open>Avl_Tree_Props\<close> shows that reachable trees are balanced and sorted, that no
  assertion fails, and what each operation does to the sequence of elements.

  \<^bold>\<open>Memory bookkeeping\<close>, \<^verbatim>\<open>gramine/libos/src/bookkeep/libos_vma.c\<close>. \<open>Vma\<close> has the areas, their allocation
  and all operations that change them, on the sequence of the areas; \<open>Vma_Tree\<close> interprets the tree locale
  on the order of the areas and shows that the AVL tree computes these functions. \<open>Vma_Inv\<close>, \<open>Vma_Ops\<close> and
  \<open>Vma_Change\<close> keep the invariant - areas are nonempty, aligned, disjoint, in order, and file references
  are balanced - and describe each operation address by address. \<open>Vma_Query\<close> has the operations that only
  read, and \<open>Vma_Cache\<close> the tagged list of free objects of a thread. \<open>Vma_Props\<close> collects the properties. The
  operations run under one lock; a dump of the areas gives it up between its passes and is modelled for
  areas that do not change meanwhile. The allocation granularity is 4 KiB.

  \<^bold>\<open>Memory system calls\<close>, \<^verbatim>\<open>gramine/libos/src/sys/libos_mmap.c\<close> with the checks of user memory in
  \<^verbatim>\<open>libos_signal.c\<close>, the stack of \<^verbatim>\<open>libos_init.c\<close> and the system memory of \<^verbatim>\<open>libos_malloc.c\<close>. \<open>Mmap\<close> has the
  calls with the answers of the host as parameters, \<open>Mmap_Ops\<close> their effect, \<open>User_Memory\<close> the checks of
  pointers, and \<open>Mmap_Props\<close> the properties: the books are kept in every reachable state, and mapping,
  unmapping and protecting change exactly the pages they should.

  \<^bold>\<open>Codec\<close>, \<^verbatim>\<open>fisco-smart/bcos-codec/bcos-codec/scale\<close> and \<^verbatim>\<open>bcos-utilities/DataConvertUtility\<close>.
  \<open>Data_Convert\<close> has hex strings and big-endian numbers, \<open>Scale\<close> the encoder and decoder streams with the
  operators of every type; tuples are modelled for three items and variants for two. \<open>Scale_Laws\<close> states
  the contract of an encoder and its decoder as the locale \<open>scale_codec\<close>, which compound types inherit;
  \<open>Scale_Int\<close> and \<open>Scale_Coll\<close> show it for all operators. \<open>Scale_Props\<close> has the round trips, where they
  end (compact integers from \<open>2 ^ 536\<close> on, the least value of a signed integer, hex strings of \<open>2 ^ 32\<close>
  characters), and the reading behind the end of truncated input.

  \<^bold>\<open>Consensus\<close>, \<^verbatim>\<open>fisco-smart/bcos-pbft/bcos-pbft\<close>. \<open>Pbft_Messages\<close>, \<open>Pbft_Config\<close>, \<open>Pbft_Cache\<close>,
  \<open>Pbft_Processor\<close> and \<open>Pbft_Engine\<close> model the messages, the configuration with quorums and leaders, the
  votes of one proposal, all proposals with execution, checkpoints and view changes, and the message
  handlers of a node. What a node hands to others is appended to \<open>sent\<close>; what comes back in a callback is a
  handler of its own. \<open>Pbft_Votes\<close> has the locale \<open>vote_quorum\<close> of weighted quorums, interpreted on the
  configuration, and the relation of stored votes and recorded weights. \<open>Pbft_Invariant\<close>, \<open>Pbft_Preserve\<close>,
  \<open>Pbft_Safety\<close> and \<open>Pbft_Handlers\<close> show the invariant of a node for every operation and handler, and
  \<open>Pbft_Agreement\<close> puts nodes together to a network with Byzantine nodes. \<open>Pbft_Props\<close> states agreement and
  what leads to it, \<open>Pbft_Example\<close> is a run on which the statements are tried, and \<open>Pbft_Behaviour\<close> has
  properties of single operations and the inputs that the checks wrongly accept. Agreement is shown
  for runs in which the nodes do not change, there are no system proposals, no node replaces its log by
  that of another one, and commit votes in the name of a correct node are its own; the last is not
  enforced by the signatures, as \<open>Pbft_Behaviour\<close> shows. It is a safety property: that some proposal is
  decided in the end is not claimed.

  \<^bold>\<open>Shared material\<close> is in \<open>Prelude\<close>: machine types, error numbers, outcomes of allocations, the list
  macros, and lemmas on lists and words.

  \<^bold>\<open>Termination and fuel.\<close> Recursive functions are total, with termination proofs where the recursion is
  not structural: the processing of pending requests ends because each round removes one, the dump of the
  areas because the array grows to the number of areas, the walk over a user string because it moves
  to the next page. The two loops over the cache of a thread take fuel for four rounds, one more than the
  list can hold objects. The loop over hex digits can run forever and is a partial function to an option;
  that it returns on strings below \<open>2 ^ 32\<close> characters is part of its property.

  \<^bold>\<open>Not modelled.\<close> Of the library OS: file systems, sockets, signals, threads, processes, IPC transport,
  checkpointing, loading, the platform layer and the enclave code, which are dominated by the host. Of the
  node: networking, storage, the scheduler and the virtual machine, the transaction pool, block
  synchronisation, cryptography and the generated protocol classes; of the consensus module, storage,
  log synchronisation and start-up. Scripts, the Java client, the TEE provider and the quote verification are
  thin layers around other software.
\<close>

end
